(* ===== verification/ATDD_Prelude.thy ===== *)
theory ATDD_Prelude
  imports
    Main
    "HOL-Library.Word"
    "HOL-Library.AList"
    "HOL-Library.Multiset"
    "HOL-Library.Product_Lexorder"
begin

text \<open>
  Shared vocabulary of the development: the machine integers of the Rust sources, the
  outcome type of a fallible function (a value, a returned \<open>std::io::Error\<close>, or a panic),
  checked arithmetic, the big-endian coding of words, the decimal text of numbers, and the
  generic lemmas about lists that the component theories use.

  Pairs are ordered lexicographically (\<^verbatim>\<open>HOL-Library.Product_Lexorder\<close>), as Rust orders
  tuples.
\<close>

section \<open>Types\<close>

type_synonym u8 = "8 word"
type_synonym u64 = "64 word"
type_synonym u128 = "128 word"
type_synonym bytes = "u8 list"

named_theorems res_simps \<open>evaluation of outcomes\<close>
named_theorems wire_simps \<open>lengths and slices of encoded messages\<close>

section \<open>Errors, panics and outcomes\<close>

datatype SerializationError =
    Io
  | InvalidHMAC
  | InvalidMagicNumber
  | InvalidMessageType
  | InvaildData

text \<open>
  \<open>std::io::Error\<close>: either raised by the operating system or by the end of a stream, or a
  wrapped \<^typ>\<open>SerializationError\<close> (kind \<open>Other\<close>).
\<close>

datatype io_error =
    UnexpectedEof
  | OsError nat
  | Other SerializationError

datatype panic =
    UnwrapNone
  | UnwrapErr
  | Expect string
  | ArithmeticOverflow
  | IndexOutOfBounds
  | ExplicitPanic string

datatype 'a res = Ok 'a | Err io_error | Panic panic

fun res_bind :: "'a res \<Rightarrow> ('a \<Rightarrow> 'b res) \<Rightarrow> 'b res" where
  "res_bind (Ok x) f = f x"
| "res_bind (Err e) f = Err e"
| "res_bind (Panic p) f = Panic p"

lemma res_bind_Ok_iff [res_simps]:
  "res_bind m f = Ok y \<longleftrightarrow> (\<exists>x. m = Ok x \<and> f x = Ok y)"
  by (cases m) auto

lemma res_bind_assoc [res_simps]:
  "res_bind (res_bind m f) g = res_bind m (\<lambda>x. res_bind (f x) g)"
  by (cases m) auto

text \<open>\<open>expect\<close> turns a returned error into a panic, \<open>unwrap_opt\<close> is \<open>Option::unwrap\<close>.\<close>

fun expect :: "string \<Rightarrow> 'a res \<Rightarrow> 'a res" where
  "expect msg (Err e) = Panic (Expect msg)"
| "expect msg m = m"

fun unwrap_opt :: "panic \<Rightarrow> 'a option \<Rightarrow> 'a res" where
  "unwrap_opt p (Some x) = Ok x"
| "unwrap_opt p None = Panic p"

lemma unwrap_opt_Ok_iff [simp]: "unwrap_opt p m = Ok x \<longleftrightarrow> m = Some x"
  by (cases m) auto

text \<open>
  Rust's \<open>+\<close> and \<open>-\<close> on unsigned integers: with overflow checks (a debug build) they
  panic, without (a release build) they wrap around.
\<close>

definition checked_add :: "bool \<Rightarrow> 'a::len word \<Rightarrow> 'a word \<Rightarrow> 'a word res" where
  "checked_add chk a b =
     (if chk \<and> 2 ^ LENGTH('a) \<le> unat a + unat b then Panic ArithmeticOverflow else Ok (a + b))"

definition checked_sub :: "bool \<Rightarrow> 'a::len word \<Rightarrow> 'a word \<Rightarrow> 'a word res" where
  "checked_sub chk a b = (if chk \<and> a < b then Panic ArithmeticOverflow else Ok (a - b))"

section \<open>Big-endian coding of words\<close>

unbundle bit_operations_syntax

text \<open>\<open>to_be_bytes\<close> of an unsigned integer of \<open>n\<close> bytes, and \<open>from_be_bytes\<close>.\<close>

definition to_be_bytes :: "nat \<Rightarrow> 'a::len word \<Rightarrow> bytes" where
  "to_be_bytes n w = map (\<lambda>i. ucast (drop_bit (8 * i) w)) (rev [0..<n])"

definition from_be_bytes :: "bytes \<Rightarrow> 'a::len word" where
  "from_be_bytes bs = foldl (\<lambda>a b. push_bit 8 a OR ucast b) 0 bs"

lemma length_to_be_bytes [simp, wire_simps]: "length (to_be_bytes n w) = n"
  by (simp add: to_be_bytes_def)

lemma to_be_bytes_Suc:
  "to_be_bytes (Suc n) w = ucast (drop_bit (8 * n) w) # to_be_bytes n w"
  by (simp add: to_be_bytes_def)

lemma foldl_to_be_bytes:
  "foldl (\<lambda>a b. push_bit 8 a OR ucast b) (a :: 'a::len word) (to_be_bytes n (w :: 'a word)) =
     push_bit (8 * n) a OR take_bit (8 * n) w"
proof (induction n arbitrary: a)
  case 0
  then show ?case by (simp add: to_be_bytes_def)
next
  case (Suc n)
  let ?b = "push_bit 8 a OR ucast (ucast (drop_bit (8 * n) w) :: u8)"
  have "push_bit (8 * n) ?b OR take_bit (8 * n) w = push_bit (8 * Suc n) a OR take_bit (8 * Suc n) w"
    by (rule bit_word_eqI) (auto simp: bit_simps add.commute)
  with Suc show ?case by (simp add: to_be_bytes_Suc)
qed

lemma from_be_to_be_bytes:
  "LENGTH('a) \<le> 8 * n \<Longrightarrow> from_be_bytes (to_be_bytes n (w :: 'a::len word)) = w"
  by (simp add: from_be_bytes_def foldl_to_be_bytes take_bit_word_eq_self)

lemma to_be_bytes_snoc:
  "to_be_bytes (Suc n) w = to_be_bytes n (drop_bit 8 w) @ [ucast w]"
  by (induction n) (simp_all add: to_be_bytes_Suc, simp_all add: to_be_bytes_def add.commute)

lemma from_be_bytes_snoc: "from_be_bytes (bs @ [b]) = push_bit 8 (from_be_bytes bs) OR ucast b"
  by (simp add: from_be_bytes_def)

lemma to_be_bytes_from_be:
  "8 * length bs \<le> LENGTH('a) \<Longrightarrow> to_be_bytes (length bs) (from_be_bytes bs :: 'a::len word) = bs"
proof (induction bs rule: rev_induct)
  case Nil
  then show ?case by (simp add: to_be_bytes_def)
next
  case (snoc b bs)
  let ?w = "from_be_bytes bs :: 'a word"
  have low: "ucast (push_bit 8 ?w OR ucast b) = b"
    using snoc.prems by (intro bit_word_eqI) (auto simp: bit_simps)
  have "to_be_bytes (length bs) (drop_bit 8 (push_bit 8 ?w OR ucast b)) = to_be_bytes (length bs) ?w"
    unfolding to_be_bytes_def
  proof (rule map_cong[OF refl])
    fix i assume "i \<in> set (rev [0..<length bs])"
    then have "i < length bs" by simp
    with snoc.prems have "8 * i + 16 \<le> LENGTH('a)" by simp
    then show "ucast (drop_bit (8 * i) (drop_bit 8 (push_bit 8 ?w OR ucast b))) =
        (ucast (drop_bit (8 * i) ?w) :: u8)"
      by (intro bit_word_eqI) (auto simp: bit_simps dest: bit_imp_le_length)
  qed
  with snoc low show ?case
    by (simp add: to_be_bytes_snoc from_be_bytes_snoc)
qed

lemma numeral_le_diff [wire_simps]: "numeral i \<le> (j::nat) - k \<longleftrightarrow> numeral i + k \<le> j"
  using zero_less_numeral[of i, where 'a = nat] by linarith

section \<open>Decimal text\<close>

definition digit :: "nat \<Rightarrow> char" where
  "digit n = char_of (48 + n)"

fun dec :: "nat \<Rightarrow> string" where
  "dec n = (if n < 10 then [digit n] else dec (n div 10) @ [digit (n mod 10)])"

declare dec.simps [simp del]

definition is_digit :: "char \<Rightarrow> bool" where
  "is_digit c \<longleftrightarrow> 48 \<le> (of_char c :: nat) \<and> (of_char c :: nat) \<le> 57"

definition dec_value :: "string \<Rightarrow> nat" where
  "dec_value s = foldl (\<lambda>a c. 10 * a + (of_char c - 48)) 0 s"

text \<open>
  \<open>str::parse\<close> for an unsigned integer of the given width: an optional leading \<open>+\<close>, then at
  least one digit, all of them digits, and no overflow.
\<close>

definition parse_uint :: "nat \<Rightarrow> string \<Rightarrow> nat option" where
  "parse_uint bits s =
     (let ds = (case s of c # cs \<Rightarrow> if c = CHR ''+'' \<and> cs \<noteq> [] then cs else s | [] \<Rightarrow> [])
      in if ds = [] \<or> \<not> list_all is_digit ds then None
         else if dec_value ds < 2 ^ bits then Some (dec_value ds) else None)"

lemma of_char_digit: "n < 10 \<Longrightarrow> of_char (digit n) = 48 + n"
  by (simp add: digit_def)

lemma is_digit_digit: "n < 10 \<Longrightarrow> is_digit (digit n)"
  by (simp add: is_digit_def of_char_digit)

lemma dec_digits: "list_all is_digit (dec n)"
proof (induction n rule: dec.induct)
  case (1 n)
  then show ?case
    by (subst dec.simps) (simp add: is_digit_digit)
qed

lemma dec_nonempty [simp]: "dec n \<noteq> []"
  by (subst dec.simps) simp

lemma dec_value_snoc: "dec_value (s @ [c]) = 10 * dec_value s + (of_char c - 48)"
  by (simp add: dec_value_def)

lemma dec_value_dec: "dec_value (dec n) = n"
proof (induction n rule: dec.induct)
  case (1 n)
  show ?case
  proof (cases "n < 10")
    case True
    then show ?thesis
      by (subst dec.simps) (simp add: dec_value_def of_char_digit)
  next
    case False
    then have "dec_value (dec n) = 10 * dec_value (dec (n div 10)) + n mod 10"
      by (subst dec.simps) (simp add: dec_value_snoc of_char_digit)
    with 1 False show ?thesis by simp
  qed
qed

lemma digit_not: "is_digit c \<Longrightarrow> c \<noteq> CHR ''_''" "is_digit c \<Longrightarrow> c \<noteq> CHR ''+''"
  "is_digit c \<Longrightarrow> c \<noteq> CHR ''t''"
  by (auto simp: is_digit_def)

lemma dec_no_underscore: "CHR ''_'' \<notin> set (dec n)"
  using dec_digits[of n] by (auto simp: list_all_iff dest: digit_not)

lemma parse_uint_dec: "n < 2 ^ bits \<Longrightarrow> parse_uint bits (dec n) = Some n"
proof -
  assume n: "n < 2 ^ bits"
  obtain c cs where s: "dec n = c # cs" by (cases "dec n") auto
  with dec_digits[of n] have "c \<noteq> CHR ''+''" by (auto dest: digit_not)
  then show ?thesis
    using n dec_digits[of n] dec_value_dec[of n] by (simp add: parse_uint_def s)
qed

lemma dec_inject [simp]: "dec m = dec n \<longleftrightarrow> m = n"
  by (metis dec_value_dec)

text \<open>\<open>str::split\<close> on one character: always at least one piece.\<close>

fun split_on :: "char \<Rightarrow> string \<Rightarrow> string list" where
  "split_on c [] = [[]]"
| "split_on c (x # xs) =
     (if x = c then [] # split_on c xs
      else case split_on c xs of [] \<Rightarrow> [[x]] | p # ps \<Rightarrow> (x # p) # ps)"

lemma split_on_nonempty [simp]: "split_on c s \<noteq> []"
  by (induction s) (auto split: list.splits)

lemma split_on_append: "c \<notin> set a \<Longrightarrow> split_on c (a @ c # b) = a # split_on c b"
  by (induction a) auto

lemma split_on_single: "c \<notin> set a \<Longrightarrow> split_on c a = [a]"
  by (induction a) auto

end
