(* ===== verification/Domain.thy ===== *)
theory Domain
  imports ATDD_Prelude
begin

text \<open>
  The data of \<^verbatim>\<open>src/solution/src/domain.rs\<close> and of \<^verbatim>\<open>src/solution/src/utils.rs\<close>: the
  configuration of a process, the commands exchanged by clients and processes, status codes
  and the results of completed operations. Structs are records, enums are datatypes; field
  names that occur in several structs carry a prefix.
\<close>

section \<open>Configuration\<close>

definition MAGIC_NUMBER :: bytes where
  "MAGIC_NUMBER = [0x61, 0x74, 0x64, 0x64]"

type_synonym SectorIdx = u64
type_synonym Uuid = u128

record PublicConfiguration =
  storage_dir :: string
  tcp_locations :: "(string \<times> 16 word) list"
  self_rank :: u8
  cfg_n_sectors :: u64

record Configuration =
  cfg_hmac_system_key :: bytes
  cfg_hmac_client_key :: bytes
  public_cfg :: PublicConfiguration

section \<open>Commands\<close>

datatype SectorVec = SectorVec (sector_bytes: bytes)

definition zero_sector :: SectorVec where
  "zero_sector = SectorVec (replicate 4096 0)"

datatype StatusCode = StatusOk | AuthFailure | InvalidSectorIndex

primrec status_code_u8 :: "StatusCode \<Rightarrow> u8" where
  "status_code_u8 StatusOk = 0"
| "status_code_u8 AuthFailure = 1"
| "status_code_u8 InvalidSectorIndex = 2"

record ClientCommandHeader =
  request_identifier :: u64
  c_sector_idx :: SectorIdx

datatype ClientRegisterCommandContent = Read | Write SectorVec

record ClientRegisterCommand =
  c_header :: ClientCommandHeader
  c_content :: ClientRegisterCommandContent

record SystemCommandHeader =
  process_identifier :: u8
  msg_ident :: Uuid
  s_sector_idx :: SectorIdx

datatype SystemRegisterCommandContent =
    ReadProc
  | Value u64 u8 SectorVec
  | WriteProc u64 u8 SectorVec
  | Ack

record SystemRegisterCommand =
  s_header :: SystemCommandHeader
  s_content :: SystemRegisterCommandContent

datatype RegisterCommand = Client ClientRegisterCommand | System SystemRegisterCommand

section \<open>Results of operations\<close>

record ReadReturn =
  read_data_ret :: SectorVec

datatype OperationReturn = OpRead ReadReturn | OpWrite

record OperationSuccess =
  op_request_identifier :: u64
  op_return :: OperationReturn

text \<open>\<open>impl Display for SerializationError\<close> and its conversion to \<open>std::io::Error\<close>.\<close>

primrec fmt_SerializationError :: "SerializationError \<Rightarrow> string" where
  "fmt_SerializationError Io = ''IO error''"
| "fmt_SerializationError InvalidHMAC = ''Invalid HMAC signature''"
| "fmt_SerializationError InvalidMagicNumber = ''Invalid magic number''"
| "fmt_SerializationError InvalidMessageType = ''Invalid message type''"
| "fmt_SerializationError InvaildData = ''Invalid data''"

definition from_SerializationError :: "SerializationError \<Rightarrow> io_error" where
  "from_SerializationError e = Other e"

section \<open>Well-formed commands\<close>

text \<open>A sector holds 4096 bytes; a command is well formed if every sector it carries does.\<close>

definition wf_sector :: "SectorVec \<Rightarrow> bool" where
  "wf_sector v \<longleftrightarrow> length (sector_bytes v) = 4096"

primrec wf_client_content :: "ClientRegisterCommandContent \<Rightarrow> bool" where
  "wf_client_content Read = True"
| "wf_client_content (Write v) = wf_sector v"

primrec wf_system_content :: "SystemRegisterCommandContent \<Rightarrow> bool" where
  "wf_system_content ReadProc = True"
| "wf_system_content (Value ts wr v) = wf_sector v"
| "wf_system_content (WriteProc ts wr v) = wf_sector v"
| "wf_system_content Ack = True"

primrec wf_command :: "RegisterCommand \<Rightarrow> bool" where
  "wf_command (Client c) = wf_client_content (c_content c)"
| "wf_command (System s) = wf_system_content (s_content s)"

lemma wf_zero_sector [simp]: "wf_sector zero_sector"
  by (simp add: wf_sector_def zero_sector_def)

lemma length_MAGIC_NUMBER [simp, wire_simps]: "length MAGIC_NUMBER = 4"
  by (simp add: MAGIC_NUMBER_def)

end
