(* ===== verification/Transfer_Operations.thy ===== *)
theory Transfer_Operations
  imports Domain
begin

text \<open>
  The wire format of commands: \<^verbatim>\<open>src/solution/src/transfer_operations.rs\<close>.

  Code outside the repository is a parameter. The keyed hash of the \<open>hmac\<close> crate is a record
  of operations (\<open>mac_api\<close>) with its documented behaviour as the predicate \<open>hmac_spec\<close>; the
  \<open>AsyncRead\<close> argument is a function \<open>rd\<close> that reads exactly \<open>n\<close> bytes or fails, and the
  \<open>AsyncWrite\<close> argument a function that writes a buffer. The locale \<open>byte_reader\<close> states what
  a reader of a finite stream promises; the theorems about decoding are proved in it and
  hold in particular for \<open>slice_read\<close>, the reader of the bytes a peer has written.
\<close>

section \<open>Parameters: keyed hashes, readers, writers\<close>

record 'm mac_api =
  mac_new :: "bytes \<Rightarrow> 'm option"
  mac_update :: "'m \<Rightarrow> bytes \<Rightarrow> 'm"
  mac_finalize :: "'m \<Rightarrow> bytes"
  mac_verify :: "'m \<Rightarrow> bytes \<Rightarrow> bool"

text \<open>
  HMAC-SHA256: a key of any size is accepted, updates concatenate, the tag is a function of
  the key and of the bytes fed so far, it has 32 bytes, and verification compares with it.
\<close>

definition hmac_spec ::
    "'m mac_api \<Rightarrow> (bytes \<Rightarrow> bytes \<Rightarrow> bytes) \<Rightarrow> ('m \<Rightarrow> bytes \<times> bytes) \<Rightarrow> bool" where
  "hmac_spec M tag fed \<longleftrightarrow>
     (\<forall>k. \<exists>m. mac_new M k = Some m \<and> fed m = (k, [])) \<and>
     (\<forall>m b. fed (mac_update M m b) = (fst (fed m), snd (fed m) @ b)) \<and>
     (\<forall>m. mac_finalize M m = tag (fst (fed m)) (snd (fed m))) \<and>
     (\<forall>m t. mac_verify M m t \<longleftrightarrow> t = mac_finalize M m) \<and>
     (\<forall>k d. length (tag k d) = 32)"

type_synonym 'r reader = "nat \<Rightarrow> 'r \<Rightarrow> io_error + (bytes \<times> 'r)"
type_synonym 'w writer = "bytes \<Rightarrow> 'w \<Rightarrow> io_error option \<times> 'w"

text \<open>The reader over a slice of bytes and the writer into a \<open>Vec<u8>\<close>.\<close>

definition slice_read :: "bytes reader" where
  "slice_read n bs = (if n \<le> length bs then Inr (take n bs, drop n bs) else Inl UnexpectedEof)"

definition vec_write :: "bytes writer" where
  "vec_write b w = (None, w @ b)"

section \<open>Message types\<close>

datatype MessageType = MRead | MWrite | MReadProc | MValue | MWriteProc | MAck

primrec message_type_u8 :: "MessageType \<Rightarrow> u8" where
  "message_type_u8 MRead = 0x01"
| "message_type_u8 MWrite = 0x02"
| "message_type_u8 MReadProc = 0x03"
| "message_type_u8 MValue = 0x04"
| "message_type_u8 MWriteProc = 0x05"
| "message_type_u8 MAck = 0x06"

definition try_from :: "u8 \<Rightarrow> SerializationError + MessageType" where
  "try_from val =
     (if val = 0x01 then Inr MRead
      else if val = 0x02 then Inr MWrite
      else if val = 0x03 then Inr MReadProc
      else if val = 0x04 then Inr MValue
      else if val = 0x05 then Inr MWriteProc
      else if val = 0x06 then Inr MAck
      else Inl InvalidMessageType)"

section \<open>Deserialization\<close>

text \<open>\<open>read_exact\<close> with the error propagated by \<open>?\<close>, alone and followed by \<open>mac.update\<close>.\<close>

definition read_exact :: "'r reader \<Rightarrow> nat \<Rightarrow> 'r \<Rightarrow> (bytes \<times> 'r) res" where
  "read_exact rd n r = (case rd n r of Inl e \<Rightarrow> Err e | Inr br \<Rightarrow> Ok br)"

definition read_update ::
    "'r reader \<Rightarrow> 'm mac_api \<Rightarrow> nat \<Rightarrow> 'm \<Rightarrow> 'r \<Rightarrow> (bytes \<times> 'm \<times> 'r) res" where
  "read_update rd M n mac r =
     res_bind (read_exact rd n r) (\<lambda>(b, r). Ok (b, mac_update M mac b, r))"

definition construct_client_command ::
    "'r reader \<Rightarrow> 'm mac_api \<Rightarrow> 'm \<Rightarrow> MessageType \<Rightarrow> 'r \<Rightarrow> ((RegisterCommand \<times> bool) \<times> 'r) res" where
  "construct_client_command rd M mac msg_type r =
     res_bind (read_update rd M 8 mac r) (\<lambda>(rid, mac, r).
     res_bind (read_update rd M 8 mac r) (\<lambda>(sidx, mac, r).
     res_bind
       (case msg_type of
          MRead \<Rightarrow> Ok (Read, mac, r)
        | MWrite \<Rightarrow>
            res_bind (read_update rd M 4096 mac r) (\<lambda>(b, mac, r). Ok (Write (SectorVec b), mac, r))
        | _ \<Rightarrow> Err (from_SerializationError InvaildData))
       (\<lambda>(content, mac, r).
     res_bind (read_exact rd 32 r) (\<lambda>(hmac_tag, r).
     Ok ((Client \<lparr>c_header = \<lparr>request_identifier = from_be_bytes rid,
                               c_sector_idx = from_be_bytes sidx\<rparr>,
                  c_content = content\<rparr>,
          mac_verify M mac hmac_tag), r)))))"

text \<open>\<open>Uuid::from_slice\<close>: exactly 16 big-endian bytes.\<close>

definition uuid_from_slice :: "bytes \<Rightarrow> Uuid option" where
  "uuid_from_slice b = (if length b = 16 then Some (from_be_bytes b) else None)"

definition construct_system_command ::
    "'r reader \<Rightarrow> 'm mac_api \<Rightarrow> 'm \<Rightarrow> u8 \<Rightarrow> MessageType \<Rightarrow> 'r \<Rightarrow>
       ((RegisterCommand \<times> bool) \<times> 'r) res" where
  "construct_system_command rd M mac process_rank msg_type r =
     res_bind (read_update rd M 16 mac r) (\<lambda>(b, mac, r).
     res_bind (unwrap_opt UnwrapErr (uuid_from_slice b)) (\<lambda>uid.
     res_bind (read_update rd M 8 mac r) (\<lambda>(sidx, mac, r).
     res_bind (read_exact rd 32 r) (\<lambda>(hmac_tag, r).
     res_bind
       (case msg_type of
          MReadProc \<Rightarrow> Ok ReadProc
        | MAck \<Rightarrow> Ok Ack
        | _ \<Rightarrow> Err (from_SerializationError InvaildData)) (\<lambda>content.
     Ok ((System \<lparr>s_header = \<lparr>process_identifier = process_rank, msg_ident = uid,
                               s_sector_idx = from_be_bytes sidx\<rparr>,
                  s_content = content\<rparr>,
          mac_verify M mac hmac_tag), r))))))"

definition construct_advanced_system_command ::
    "'r reader \<Rightarrow> 'm mac_api \<Rightarrow> 'm \<Rightarrow> u8 \<Rightarrow> MessageType \<Rightarrow> 'r \<Rightarrow>
       ((RegisterCommand \<times> bool) \<times> 'r) res" where
  "construct_advanced_system_command rd M mac process_rank msg_type r =
     res_bind (read_update rd M 16 mac r) (\<lambda>(b, mac, r).
     res_bind (unwrap_opt UnwrapErr (uuid_from_slice b)) (\<lambda>uid.
     res_bind (read_update rd M 8 mac r) (\<lambda>(sidx, mac, r).
     res_bind (read_update rd M 8 mac r) (\<lambda>(ts, mac, r).
     res_bind (read_update rd M 8 mac r) (\<lambda>(buff, mac, r).
     res_bind (read_update rd M 4096 mac r) (\<lambda>(svec, mac, r).
     res_bind (read_exact rd 32 r) (\<lambda>(hmac_tag, r).
     res_bind
       (case msg_type of
          MValue \<Rightarrow> Ok (Value (from_be_bytes ts) (buff ! 7) (SectorVec svec))
        | MWriteProc \<Rightarrow> Ok (WriteProc (from_be_bytes ts) (buff ! 7) (SectorVec svec))
        | _ \<Rightarrow> Err (from_SerializationError InvaildData)) (\<lambda>content.
     Ok ((System \<lparr>s_header = \<lparr>process_identifier = process_rank, msg_ident = uid,
                               s_sector_idx = from_be_bytes sidx\<rparr>,
                  s_content = content\<rparr>,
          mac_verify M mac hmac_tag), r)))))))))"

text \<open>
  The loop that slides over the stream until the last four bytes are the magic number. It may
  run for ever on an endless stream: \<open>None\<close> is "does not return".
\<close>

partial_function (option) slide_magic :: "'r reader \<Rightarrow> bytes \<Rightarrow> 'r \<Rightarrow> (bytes \<times> 'r) res option" where
  "slide_magic rd w r =
     (if w = MAGIC_NUMBER then Some (Ok (w, r))
      else case rd 1 r of
             Inl e \<Rightarrow> Some (Err e)
           | Inr (b, r') \<Rightarrow> slide_magic rd (drop 1 w @ b) r')"

text \<open>What follows the magic number: the padding, rank and type bytes, then the fields.\<close>

definition mac_start :: "'m mac_api \<Rightarrow> bytes \<Rightarrow> bytes \<Rightarrow> bytes \<Rightarrow> 'm res" where
  "mac_start M key magic buff =
     res_bind (unwrap_opt UnwrapErr (mac_new M key)) (\<lambda>mac.
     Ok (mac_update M (mac_update M mac magic) buff))"

definition deserialize_body ::
    "'r reader \<Rightarrow> 'm mac_api \<Rightarrow> bytes \<Rightarrow> bytes \<Rightarrow> bytes \<Rightarrow> 'r \<Rightarrow> ((RegisterCommand \<times> bool) \<times> 'r) res" where
  "deserialize_body rd M hmac_system_key hmac_client_key magic r =
     res_bind (read_exact rd 4 r) (\<lambda>(buff, r).
     case try_from (buff ! 3) of
       Inl e \<Rightarrow> Panic UnwrapErr
     | Inr msg_type \<Rightarrow>
         (if msg_type = MRead \<or> msg_type = MWrite then
            res_bind (mac_start M hmac_client_key magic buff) (\<lambda>mac.
            construct_client_command rd M mac msg_type r)
          else if msg_type = MReadProc \<or> msg_type = MAck then
            res_bind (mac_start M hmac_system_key magic buff) (\<lambda>mac.
            construct_system_command rd M mac (buff ! 2) msg_type r)
          else
            res_bind (mac_start M hmac_system_key magic buff) (\<lambda>mac.
            construct_advanced_system_command rd M mac (buff ! 2) msg_type r)))"

definition deserialize_rc ::
    "'r reader \<Rightarrow> 'm mac_api \<Rightarrow> bytes \<Rightarrow> bytes \<Rightarrow> 'r \<Rightarrow> ((RegisterCommand \<times> bool) \<times> 'r) res option" where
  "deserialize_rc rd M hmac_system_key hmac_client_key r =
     (case read_exact rd 4 r of
        Err e \<Rightarrow> Some (Err e)
      | Panic p \<Rightarrow> Some (Panic p)
      | Ok (w, r) \<Rightarrow>
          (case slide_magic rd w r of
             None \<Rightarrow> None
           | Some m \<Rightarrow>
               Some (res_bind m (\<lambda>(magic, r).
                 deserialize_body rd M hmac_system_key hmac_client_key magic r))))"

section \<open>Serialization\<close>

primrec client_message_type :: "ClientRegisterCommandContent \<Rightarrow> MessageType" where
  "client_message_type Read = MRead"
| "client_message_type (Write v) = MWrite"

primrec system_message_type :: "SystemRegisterCommandContent \<Rightarrow> MessageType" where
  "system_message_type ReadProc = MReadProc"
| "system_message_type Ack = MAck"
| "system_message_type (Value ts wr v) = MValue"
| "system_message_type (WriteProc ts wr v) = MWriteProc"

text \<open>Writing into a \<open>Vec<u8>\<close> appends and does not fail, so these two return the bytes.\<close>

definition serialize_client_rc :: "ClientCommandHeader \<Rightarrow> ClientRegisterCommandContent \<Rightarrow> bytes" where
  "serialize_client_rc header content =
     MAGIC_NUMBER @
     [0, 0, 0, message_type_u8 (client_message_type content)] @
     to_be_bytes 8 (request_identifier header) @
     to_be_bytes 8 (c_sector_idx header) @
     (case content of Read \<Rightarrow> [] | Write v \<Rightarrow> sector_bytes v)"

definition serialize_system_rc :: "SystemCommandHeader \<Rightarrow> SystemRegisterCommandContent \<Rightarrow> bytes" where
  "serialize_system_rc header content =
     MAGIC_NUMBER @
     [0, 0, process_identifier header, message_type_u8 (system_message_type content)] @
     to_be_bytes 16 (msg_ident header) @
     to_be_bytes 8 (s_sector_idx header) @
     (case content of
        ReadProc \<Rightarrow> []
      | Ack \<Rightarrow> []
      | Value ts wr v \<Rightarrow> to_be_bytes 8 ts @ [0, 0, 0, 0, 0, 0, 0, wr] @ sector_bytes v
      | WriteProc ts wr v \<Rightarrow> to_be_bytes 8 ts @ [0, 0, 0, 0, 0, 0, 0, wr] @ sector_bytes v)"

primrec serialize_unsigned :: "RegisterCommand \<Rightarrow> bytes" where
  "serialize_unsigned (Client c) = serialize_client_rc (c_header c) (c_content c)"
| "serialize_unsigned (System s) = serialize_system_rc (s_header s) (s_content s)"

text \<open>\<open>HmacSha256::new_from_slice(key).unwrap()\<close>, one update, and the tag as an array of 32 bytes.\<close>

definition mac_tag :: "'m mac_api \<Rightarrow> bytes \<Rightarrow> bytes \<Rightarrow> bytes res" where
  "mac_tag M key data =
     res_bind (unwrap_opt UnwrapErr (mac_new M key)) (\<lambda>mac.
     let tag = mac_finalize M (mac_update M mac data)
     in if length tag = 32 then Ok tag else Panic UnwrapErr)"

definition serialize_rc ::
    "'m mac_api \<Rightarrow> 'w writer \<Rightarrow> RegisterCommand \<Rightarrow> bytes \<Rightarrow> 'w \<Rightarrow> unit res \<times> 'w" where
  "serialize_rc M wr cmd hmac_key w =
     (case mac_tag M hmac_key (serialize_unsigned cmd) of
        Err e \<Rightarrow> (Err e, w)
      | Panic p \<Rightarrow> (Panic p, w)
      | Ok tag \<Rightarrow>
          (case wr (serialize_unsigned cmd @ tag) w of
             (Some e, w') \<Rightarrow> (Err e, w')
           | (None, w') \<Rightarrow> (Ok (), w')))"

section \<open>The reference decoder\<close>

text \<open>
  What a frame means, by slices of its bytes: \<open>frame_len\<close> is the number of bytes between the
  8-byte preamble and the tag, \<open>frame_command\<close> the command they denote.
\<close>

primrec frame_len :: "MessageType \<Rightarrow> nat" where
  "frame_len MRead = 16"
| "frame_len MWrite = 4112"
| "frame_len MReadProc = 24"
| "frame_len MValue = 4136"
| "frame_len MWriteProc = 4136"
| "frame_len MAck = 24"

definition field_at :: "nat \<Rightarrow> nat \<Rightarrow> bytes \<Rightarrow> bytes" where
  "field_at i n b = take n (drop i b)"

definition frame_client :: "bytes \<Rightarrow> ClientRegisterCommandContent \<Rightarrow> RegisterCommand" where
  "frame_client b content =
     Client \<lparr>c_header = \<lparr>request_identifier = from_be_bytes (field_at 0 8 b),
                          c_sector_idx = from_be_bytes (field_at 8 8 b)\<rparr>,
             c_content = content\<rparr>"

definition frame_system :: "u8 \<Rightarrow> bytes \<Rightarrow> SystemRegisterCommandContent \<Rightarrow> RegisterCommand" where
  "frame_system rank b content =
     System \<lparr>s_header = \<lparr>process_identifier = rank, msg_ident = from_be_bytes (field_at 0 16 b),
                          s_sector_idx = from_be_bytes (field_at 16 8 b)\<rparr>,
             s_content = content\<rparr>"

definition frame_command :: "MessageType \<Rightarrow> u8 \<Rightarrow> bytes \<Rightarrow> RegisterCommand" where
  "frame_command mt rank b =
     (case mt of
        MRead \<Rightarrow> frame_client b Read
      | MWrite \<Rightarrow> frame_client b (Write (SectorVec (field_at 16 4096 b)))
      | MReadProc \<Rightarrow> frame_system rank b ReadProc
      | MAck \<Rightarrow> frame_system rank b Ack
      | MValue \<Rightarrow>
          frame_system rank b
            (Value (from_be_bytes (field_at 24 8 b)) (b ! 39) (SectorVec (field_at 40 4096 b)))
      | MWriteProc \<Rightarrow>
          frame_system rank b
            (WriteProc (from_be_bytes (field_at 24 8 b)) (b ! 39) (SectorVec (field_at 40 4096 b))))"

fun find_magic :: "bytes \<Rightarrow> nat option" where
  "find_magic [] = None"
| "find_magic (b # bs) =
     (if take 4 (b # bs) = MAGIC_NUMBER then Some 0 else map_option Suc (find_magic bs))"

definition frame_key :: "MessageType \<Rightarrow> bytes \<Rightarrow> bytes \<Rightarrow> bytes" where
  "frame_key mt hmac_system_key hmac_client_key =
     (if mt = MRead \<or> mt = MWrite then hmac_client_key else hmac_system_key)"

text \<open>
  The whole decoder on a stream of bytes \<open>s\<close>: what it returns and how many bytes it takes,
  for tags computed by \<open>tag\<close>. \<open>e\<close> is the error that ends the stream.
\<close>

definition decode_stream ::
    "(bytes \<Rightarrow> bytes \<Rightarrow> bytes) \<Rightarrow> bytes \<Rightarrow> bytes \<Rightarrow> io_error \<Rightarrow> bytes \<Rightarrow>
       ((RegisterCommand \<times> bool) \<times> nat) res" where
  "decode_stream tag hmac_system_key hmac_client_key e s =
     (case find_magic s of
        None \<Rightarrow> Err e
      | Some i \<Rightarrow>
          (let h = field_at (i + 4) 4 s; b = drop (i + 8) s in
           if length h < 4 then Err e
           else case try_from (h ! 3) of
                  Inl _ \<Rightarrow> Panic UnwrapErr
                | Inr mt \<Rightarrow>
                    if length b < frame_len mt + 32 then Err e
                    else Ok ((frame_command mt (h ! 2) b,
                              field_at (frame_len mt) 32 b =
                                tag (frame_key mt hmac_system_key hmac_client_key)
                                  (MAGIC_NUMBER @ h @ take (frame_len mt) b)),
                             i + 8 + frame_len mt + 32)))"

section \<open>Lemmas about the keyed hash\<close>

lemma find_magic_short: "length s < 4 \<Longrightarrow> find_magic s = None"
  by (induction s) (auto simp: MAGIC_NUMBER_def)

lemma hmac_specD:
  assumes "hmac_spec M tag fed"
  shows "\<exists>m. mac_new M k = Some m \<and> fed m = (k, [])"
    and "fed (mac_update M m b) = (fst (fed m), snd (fed m) @ b)"
    and "mac_finalize M m = tag (fst (fed m)) (snd (fed m))"
    and "mac_verify M m t \<longleftrightarrow> t = tag (fst (fed m)) (snd (fed m))"
    and "length (tag k d) = 32"
  using assms unfolding hmac_spec_def by auto

lemma mac_start_eq:
  assumes "hmac_spec M tag fed"
  obtains m where "mac_start M k magic buff = Ok m" "fed m = (k, magic @ buff)"
  using hmac_specD(1)[OF assms, of k] hmac_specD(2)[OF assms]
  by (fastforce simp: mac_start_def)

lemma mac_tag_eq:
  assumes "hmac_spec M tag fed"
  shows "mac_tag M k d = Ok (tag k d)"
  using hmac_specD(1)[OF assms, of k] hmac_specD(2,3,5)[OF assms]
  by (auto simp: mac_tag_def Let_def)

lemma serialize_rc_eq:
  assumes "hmac_spec M tag fed"
  shows "serialize_rc M vec_write cmd k w =
           (Ok (), w @ serialize_unsigned cmd @ tag k (serialize_unsigned cmd))"
  by (simp add: serialize_rc_def mac_tag_eq[OF assms] vec_write_def)

section \<open>Decoding from any reader of a finite stream\<close>

locale byte_reader =
  fixes rd :: "'r reader"
    and stream :: "'r \<Rightarrow> bytes"
    and adv :: "nat \<Rightarrow> 'r \<Rightarrow> 'r"
    and eof :: "'r \<Rightarrow> io_error"
  assumes rd_ok: "n \<le> length (stream r) \<Longrightarrow> rd n r = Inr (take n (stream r), adv n r)"
    and rd_eof: "length (stream r) < n \<Longrightarrow> rd n r = Inl (eof r)"
    and stream_adv: "stream (adv n r) = drop n (stream r)"
    and eof_adv: "eof (adv n r) = eof r"
    and adv_0: "adv 0 r = r"
    and adv_adv: "adv m (adv n r) = adv (n + m) r"
begin

lemma read_exact_eq:
  "read_exact rd n r =
     (if n \<le> length (stream r) then Ok (take n (stream r), adv n r) else Err (eof r))"
  by (simp add: read_exact_def rd_ok rd_eof)

lemma read_update_eq:
  "read_update rd M n m r =
     (if n \<le> length (stream r)
      then Ok (take n (stream r), mac_update M m (take n (stream r)), adv n r) else Err (eof r))"
  by (simp add: read_update_def read_exact_eq)

lemmas reading = read_exact_eq read_update_eq stream_adv eof_adv adv_adv

text \<open>The three decoders of message bodies agree with the reference decoder.\<close>

lemma construct_client_command_eq:
  assumes H: "hmac_spec M tag fed" and m: "fed m = (k, pre)" and mt: "mt = MRead \<or> mt = MWrite"
  shows "construct_client_command rd M m mt r =
     (if length (stream r) < frame_len mt + 32 then Err (eof r)
      else Ok ((frame_command mt rank (stream r),
                field_at (frame_len mt) 32 (stream r) = tag k (pre @ take (frame_len mt) (stream r))),
               adv (frame_len mt + 32) r))"
  using mt
  by (elim disjE; cases "length (stream r) < frame_len mt + 32"; simp add: wire_simps construct_client_command_def reading frame_command_def frame_client_def field_at_def
      hmac_specD[OF H] m take_add[of 8 8, simplified] take_add[of 16 4096, simplified])

lemma construct_system_command_eq:
  assumes H: "hmac_spec M tag fed" and m: "fed m = (k, pre)" and mt: "mt = MReadProc \<or> mt = MAck"
  shows "construct_system_command rd M m rank mt r =
     (if length (stream r) < frame_len mt + 32 then Err (eof r)
      else Ok ((frame_command mt rank (stream r),
                field_at (frame_len mt) 32 (stream r) = tag k (pre @ take (frame_len mt) (stream r))),
               adv (frame_len mt + 32) r))"
  using mt
  by (elim disjE; cases "length (stream r) < frame_len mt + 32"; simp add: wire_simps construct_system_command_def reading frame_command_def frame_system_def field_at_def
      uuid_from_slice_def hmac_specD[OF H] m take_add[of 16 8, simplified])

lemma construct_advanced_system_command_eq:
  assumes H: "hmac_spec M tag fed" and m: "fed m = (k, pre)" and mt: "mt = MValue \<or> mt = MWriteProc"
  shows "construct_advanced_system_command rd M m rank mt r =
     (if length (stream r) < frame_len mt + 32 then Err (eof r)
      else Ok ((frame_command mt rank (stream r),
                field_at (frame_len mt) 32 (stream r) = tag k (pre @ take (frame_len mt) (stream r))),
               adv (frame_len mt + 32) r))"
  using mt
  by (elim disjE; cases "length (stream r) < frame_len mt + 32"; simp add: wire_simps construct_advanced_system_command_def reading frame_command_def frame_system_def
      field_at_def uuid_from_slice_def hmac_specD[OF H] m take_add[of 16 8, simplified]
      take_add[of 24 8, simplified] take_add[of 32 8, simplified] take_add[of 40 4096, simplified])

lemma slide_magic_eq:
  "length w = 4 \<Longrightarrow>
     slide_magic rd w r =
       Some (case find_magic (w @ stream r) of
               None \<Rightarrow> Err (eof r)
             | Some i \<Rightarrow> Ok (MAGIC_NUMBER, adv i r))"
proof (induction "length (stream r)" arbitrary: w r)
  case 0
  then show ?case
    by (cases w; subst slide_magic.simps) (auto simp: rd_eof adv_0 find_magic_short)
next
  case (Suc n)
  obtain b w' where w: "w = b # w'" using Suc.prems by (cases w) auto
  show ?case
  proof (cases "w = MAGIC_NUMBER")
    case True
    then show ?thesis
      by (subst slide_magic.simps) (simp add: adv_0 MAGIC_NUMBER_def)
  next
    case False
    have s: "stream r = take 1 (stream r) @ stream (adv 1 r)"
      by (simp add: stream_adv)
    have IH: "slide_magic rd (w' @ take 1 (stream r)) (adv 1 r) =
        Some (case find_magic ((w' @ take 1 (stream r)) @ stream (adv 1 r)) of
               None \<Rightarrow> Err (eof (adv 1 r)) | Some i \<Rightarrow> Ok (MAGIC_NUMBER, adv i (adv 1 r)))"
      using Suc.hyps(2) Suc.prems by (intro Suc.hyps(1)) (auto simp: stream_adv w)
    have "rd 1 r = Inr (take 1 (stream r), adv 1 r)"
      using Suc.hyps(2) by (intro rd_ok) simp
    then have "slide_magic rd w r = slide_magic rd (w' @ take 1 (stream r)) (adv 1 r)"
      using False by (subst slide_magic.simps) (simp add: w)
    moreover have "find_magic (w @ stream r) = map_option Suc (find_magic (w' @ stream r))"
      using False Suc.prems by (simp add: w)
    moreover have "(w' @ take 1 (stream r)) @ stream (adv 1 r) = w' @ stream r"
      using s by simp
    ultimately show ?thesis
      by (simp only: IH) (simp add: eof_adv adv_adv split: option.splits)
  qed
qed

lemma deserialize_body_eq:
  assumes H: "hmac_spec M tag fed"
  shows "deserialize_body rd M sk ck MAGIC_NUMBER r =
     (let h = take 4 (stream r); b = drop 4 (stream r) in
      if length h < 4 then Err (eof r)
      else case try_from (h ! 3) of
             Inl _ \<Rightarrow> Panic UnwrapErr
           | Inr mt \<Rightarrow>
               if length b < frame_len mt + 32 then Err (eof r)
               else Ok ((frame_command mt (h ! 2) b,
                         field_at (frame_len mt) 32 b =
                           tag (frame_key mt sk ck) (MAGIC_NUMBER @ h @ take (frame_len mt) b)),
                        adv (4 + frame_len mt + 32) r))"
proof -
  obtain mc where mc: "mac_start M ck MAGIC_NUMBER (take 4 (stream r)) = Ok mc"
      "fed mc = (ck, MAGIC_NUMBER @ take 4 (stream r))"
    using mac_start_eq[OF H] by metis
  obtain ms where ms: "mac_start M sk MAGIC_NUMBER (take 4 (stream r)) = Ok ms"
      "fed ms = (sk, MAGIC_NUMBER @ take 4 (stream r))"
    using mac_start_eq[OF H] by metis
  note cons = construct_client_command_eq[OF H mc(2), where rank = "take 4 (stream r) ! 2"]
    construct_system_command_eq[OF H ms(2)] construct_advanced_system_command_eq[OF H ms(2)]
  show ?thesis
  proof (cases "try_from (take 4 (stream r) ! 3)")
    case (Inl e)
    then show ?thesis by (simp add: deserialize_body_def reading Let_def min_def)
  next
    case (Inr mt)
    then show ?thesis
      by (cases mt) (simp_all add: deserialize_body_def reading Let_def cons mc ms frame_key_def min_def)
  qed
qed

text \<open>On every reader of a finite stream the decoder returns, and returns what the reference says.\<close>

lemma deserialize_rc_eq:
  assumes H: "hmac_spec M tag fed"
  shows "deserialize_rc rd M sk ck r =
     Some (res_bind (decode_stream tag sk ck (eof r) (stream r)) (\<lambda>(x, n). Ok (x, adv n r)))"
proof (cases "length (stream r) < 4")
  case True
  then have "find_magic (stream r) = None"
    by (rule find_magic_short)
  with True show ?thesis
    by (simp add: deserialize_rc_def reading decode_stream_def)
next
  case False
  then have "deserialize_rc rd M sk ck r =
     Some (case find_magic (stream r) of None \<Rightarrow> Err (eof r)
           | Some i \<Rightarrow> deserialize_body rd M sk ck MAGIC_NUMBER (adv (i + 4) r))"
    by (simp add: deserialize_rc_def reading slide_magic_eq add.commute split: option.splits)
  then show ?thesis
    by (cases "find_magic (stream r)")
      (simp_all add: decode_stream_def deserialize_body_eq[OF H] reading field_at_def Let_def add_ac
        split: sum.split)
qed

end

text \<open>The bytes a peer has written, read as a slice.\<close>

interpretation slice_reader: byte_reader slice_read "\<lambda>bs. bs" drop "\<lambda>_. UnexpectedEof"
  by unfold_locales (auto simp: slice_read_def add.commute)

section \<open>Frames of well-formed commands\<close>

primrec command_type :: "RegisterCommand \<Rightarrow> MessageType" where
  "command_type (Client c) = client_message_type (c_content c)"
| "command_type (System s) = system_message_type (s_content s)"

text \<open>Commands of clients are signed with the client key, internal ones with the system key.\<close>

primrec command_key :: "bytes \<Rightarrow> bytes \<Rightarrow> RegisterCommand \<Rightarrow> bytes" where
  "command_key hmac_system_key hmac_client_key (Client c) = hmac_client_key"
| "command_key hmac_system_key hmac_client_key (System s) = hmac_system_key"

lemma try_from_message_type [simp]: "try_from (message_type_u8 mt) = Inr mt"
  by (cases mt) (simp_all add: try_from_def)

lemma frame_key_command [simp]: "frame_key (command_type cmd) sk ck = command_key sk ck cmd"
proof (cases cmd)
  case (Client c)
  then show ?thesis by (cases "c_content c") (simp_all add: frame_key_def)
next
  case (System s)
  then show ?thesis by (cases "s_content s") (simp_all add: frame_key_def)
qed

lemma frame_client_fields:
  "frame_client (to_be_bytes 8 (request_identifier h) @ to_be_bytes 8 (c_sector_idx h) @ p) content =
     Client \<lparr>c_header = h, c_content = content\<rparr>"
  by (simp add: frame_client_def field_at_def from_be_to_be_bytes)

lemma frame_system_fields:
  "frame_system (process_identifier h) (to_be_bytes 16 (msg_ident h) @ to_be_bytes 8 (s_sector_idx h) @ p)
     content = System \<lparr>s_header = h, s_content = content\<rparr>"
  by (simp add: frame_system_def field_at_def from_be_to_be_bytes)

text \<open>A serialized command is the magic number, a four-byte header, and a body of its type's length
  that the reference decoder maps back to the command.\<close>

lemma serialize_frame:
  assumes "wf_command cmd"
  obtains h b where
    "serialize_unsigned cmd = MAGIC_NUMBER @ h @ b" "length h = 4"
    "h ! 3 = message_type_u8 (command_type cmd)" "length b = frame_len (command_type cmd)"
    "\<And>ys. frame_command (command_type cmd) (h ! 2) (b @ ys) = cmd"
proof (cases cmd)
  case (Client c)
  show thesis
  proof (cases "c_content c")
    case Read
    then show thesis
      using Client frame_client_fields[of "c_header c"]
      by (intro that[OF _ _ _ _ , of "[0, 0, 0, message_type_u8 MRead]"])
        (auto simp: serialize_client_rc_def frame_command_def)
  next
    case (Write v)
    then show thesis
      using Client assms frame_client_fields[of "c_header c"]
      by (intro that[of "[0, 0, 0, message_type_u8 MWrite]"])
        (auto simp: serialize_client_rc_def frame_command_def field_at_def wf_sector_def)
  qed
next
  case (System c)
  let ?h = "[0, 0, process_identifier (s_header c), message_type_u8 (command_type cmd)]"
  show thesis
  proof (cases "s_content c")
    case ReadProc
    then show thesis
      using System frame_system_fields[of "s_header c"]
      by (intro that[of ?h]) (auto simp: serialize_system_rc_def frame_command_def)
  next
    case Ack
    then show thesis
      using System frame_system_fields[of "s_header c"]
      by (intro that[of ?h]) (auto simp: serialize_system_rc_def frame_command_def)
  next
    case (Value ts wr v)
    then show thesis
      using System assms frame_system_fields[of "s_header c"]
      by (intro that[of ?h])
        (auto simp: serialize_system_rc_def frame_command_def field_at_def wf_sector_def
          from_be_to_be_bytes nth_append)
  next
    case (WriteProc ts wr v)
    then show thesis
      using System assms frame_system_fields[of "s_header c"]
      by (intro that[of ?h])
        (auto simp: serialize_system_rc_def frame_command_def field_at_def wf_sector_def
          from_be_to_be_bytes nth_append)
  qed
qed

text \<open>Bytes that do not complete a magic number are skipped.\<close>

lemma find_magic_append:
  "find_magic (g @ MAGIC_NUMBER) = Some (length g) \<Longrightarrow> find_magic (g @ MAGIC_NUMBER @ ys) = Some (length g)"
proof (induction g)
  case Nil
  then show ?case by (simp add: MAGIC_NUMBER_def)
next
  case (Cons b g)
  then have "take 4 (b # g @ MAGIC_NUMBER) \<noteq> MAGIC_NUMBER" "find_magic (g @ MAGIC_NUMBER) = Some (length g)"
    by (auto split: if_splits)
  moreover have "take 4 (b # g @ MAGIC_NUMBER @ ys) = take 4 (b # g @ MAGIC_NUMBER)"
    by (simp add: MAGIC_NUMBER_def take_Cons')
  ultimately show ?case using Cons.IH by (simp del: take_Suc_Cons)
qed

lemma find_magic_nil [simp]: "find_magic (MAGIC_NUMBER @ ys) = Some 0"
  using find_magic_append[of "[]"] by (simp add: MAGIC_NUMBER_def)

lemma decode_serialized:
  assumes wf: "wf_command cmd" and t: "length t = 32"
    and g: "find_magic (g @ MAGIC_NUMBER) = Some (length g)"
  shows "decode_stream tag sk ck e (g @ serialize_unsigned cmd @ t @ rest) =
           Ok ((cmd, t = tag (command_key sk ck cmd) (serialize_unsigned cmd)),
               length (g @ serialize_unsigned cmd @ t))"
proof -
  obtain h b where f: "serialize_unsigned cmd = MAGIC_NUMBER @ h @ b" "length h = 4"
      "h ! 3 = message_type_u8 (command_type cmd)" "length b = frame_len (command_type cmd)"
      "\<And>ys. frame_command (command_type cmd) (h ! 2) (b @ ys) = cmd"
    using serialize_frame[OF wf] by metis
  have m: "find_magic (g @ MAGIC_NUMBER @ h @ b @ t @ rest) = Some (length g)"
    using g by (rule find_magic_append)
  have h: "field_at (length g + 4) 4 (g @ MAGIC_NUMBER @ h @ b @ t @ rest) = h"
    using f(2) by (simp add: field_at_def)
  have d: "drop (length g + 8) (g @ MAGIC_NUMBER @ h @ b @ t @ rest) = b @ t @ rest"
    using f(2) by simp
  show ?thesis
    using t f(2,3,4)
    by (simp add: f(1) decode_stream_def m h d f(5) Let_def) (simp add: field_at_def)
qed

section \<open>Properties\<close>

text \<open>A concrete keyed hash that satisfies \<open>hmac_spec\<close>, for evaluation on concrete messages.\<close>

definition sum_tag :: "bytes \<Rightarrow> bytes \<Rightarrow> bytes" where
  "sum_tag k d = replicate 31 0 @ [sum_list k + sum_list d]"

definition sum_mac :: "(bytes \<times> bytes) mac_api" where
  "sum_mac = \<lparr>mac_new = (\<lambda>k. Some (k, [])),
              mac_update = (\<lambda>m b. (fst m, snd m @ b)),
              mac_finalize = (\<lambda>m. sum_tag (fst m) (snd m)),
              mac_verify = (\<lambda>m t. t = sum_tag (fst m) (snd m))\<rparr>"

lemma sum_mac_spec: "hmac_spec sum_mac sum_tag (\<lambda>m. m)"
  by (simp add: hmac_spec_def sum_mac_def sum_tag_def)



text \<open>
  C11. Round trip: a well-formed command that \<open>serialize_rc\<close> wrote with the key of its kind
  is decoded to the same command with a valid tag, and the bytes after it are left in the
  stream, also when bytes that contain no magic number were received before it.
\<close>

theorem serialize_deserialize:
  assumes "hmac_spec M tag fed" and "wf_command cmd"
    and "find_magic (g @ MAGIC_NUMBER) = Some (length g)"
  shows "\<exists>msg. serialize_rc M vec_write cmd (command_key hmac_system_key hmac_client_key cmd) w =
                 (Ok (), w @ msg) \<and>
               deserialize_rc slice_read M hmac_system_key hmac_client_key (g @ msg @ rest) =
                 Some (Ok ((cmd, True), rest))"
  using decode_serialized[OF assms(2) _ assms(3), of _ tag hmac_system_key hmac_client_key]
    hmac_specD(5)[OF assms(1)]
  by (simp add: serialize_rc_eq[OF assms(1)] slice_reader.deserialize_rc_eq[OF assms(1)])

theorem serialize_deserialize_witness:
  "\<exists>msg. serialize_rc sum_mac vec_write
             (Client \<lparr>c_header = \<lparr>request_identifier = 7, c_sector_idx = 8\<rparr>, c_content = Read\<rparr>)
             (command_key [1] [2]
               (Client \<lparr>c_header = \<lparr>request_identifier = 7, c_sector_idx = 8\<rparr>, c_content = Read\<rparr>)) [] =
           (Ok (), [] @ msg) \<and>
         deserialize_rc slice_read sum_mac [1] [2] ([5, 0x61] @ msg @ [9]) =
           Some (Ok ((Client \<lparr>c_header = \<lparr>request_identifier = 7, c_sector_idx = 8\<rparr>, c_content = Read\<rparr>,
                      True), [9]))"
  by (rule serialize_deserialize[OF sum_mac_spec]) (simp_all add: MAGIC_NUMBER_def)

text \<open>
  C28. Authenticity: a well-formed command followed by any 32 bytes is decoded to that
  command, the returned flag is true exactly if these bytes are the tag of the whole message
  under the key of its kind, and the same bytes are consumed whether or not the tag is valid.
\<close>

theorem deserialize_flag_iff_tag:
  assumes "hmac_spec M tag fed" and "wf_command cmd" and "length t = 32"
  shows "deserialize_rc slice_read M hmac_system_key hmac_client_key (serialize_unsigned cmd @ t @ rest) =
           Some (Ok ((cmd,
             t = tag (command_key hmac_system_key hmac_client_key cmd) (serialize_unsigned cmd)), rest))"
  using decode_serialized[OF assms(2,3), of "[]" tag hmac_system_key hmac_client_key]
    find_magic_nil[of "[]"]
  by (simp add: slice_reader.deserialize_rc_eq[OF assms(1)])

theorem deserialize_flag_iff_tag_witness:
  "deserialize_rc slice_read sum_mac [1] [2]
     (serialize_unsigned (System \<lparr>s_header = \<lparr>process_identifier = 3, msg_ident = 4, s_sector_idx = 5\<rparr>,
        s_content = Ack\<rparr>) @ replicate 32 0 @ [7]) =
     Some (Ok ((System \<lparr>s_header = \<lparr>process_identifier = 3, msg_ident = 4, s_sector_idx = 5\<rparr>,
        s_content = Ack\<rparr>,
       replicate 32 0 = sum_tag (command_key [1] [2] (System \<lparr>s_header = \<lparr>process_identifier = 3,
          msg_ident = 4, s_sector_idx = 5\<rparr>, s_content = Ack\<rparr>))
        (serialize_unsigned (System \<lparr>s_header = \<lparr>process_identifier = 3, msg_ident = 4,
          s_sector_idx = 5\<rparr>, s_content = Ack\<rparr>))), [7]))"
  by (rule deserialize_flag_iff_tag[OF sum_mac_spec]) simp_all

text \<open>
  An unknown message type is not skipped: after the magic number and four bytes of which
  the last is not one of \<open>0x01\<close> to \<open>0x06\<close>, \<open>deserialize_rc\<close> panics, whatever follows.
\<close>

theorem deserialize_unknown_type_panics:
  assumes "hmac_spec M tag fed" and "find_magic (g @ MAGIC_NUMBER) = Some (length g)"
    and "ty \<notin> {1, 2, 3, 4, 5, 6}"
  shows "deserialize_rc slice_read M hmac_system_key hmac_client_key
           (g @ MAGIC_NUMBER @ [p0, p1, rank, ty] @ rest) = Some (Panic UnwrapErr)"
proof -
  have "find_magic (g @ MAGIC_NUMBER @ [p0, p1, rank, ty] @ rest) = Some (length g)"
    by (rule find_magic_append[OF assms(2)])
  with assms(3) show ?thesis
    by (simp add: slice_reader.deserialize_rc_eq[OF assms(1)] decode_stream_def field_at_def
        try_from_def)
qed

theorem deserialize_unknown_type_panics_witness:
  "deserialize_rc slice_read sum_mac [1] [2] ([] @ MAGIC_NUMBER @ [0, 0, 0, 0x80] @ [1, 2, 3]) =
     Some (Panic UnwrapErr)"
  by (rule deserialize_unknown_type_panics[OF sum_mac_spec]) (simp_all add: MAGIC_NUMBER_def)

text \<open>
  The message format: the bytes \<open>serialize_rc\<close> writes for a well-formed command start
  with the magic number, carry the type in byte 7 (and the rank of the sender in byte 6 of an
  internal message), end with the tag of all bytes before it, and have the length of the type:
  56 for READ, 4152 for WRITE, 64 for READ\_PROC and ACK, 4176 for VALUE and WRITE\_PROC.
\<close>

theorem serialize_format:
  assumes "hmac_spec M tag fed" and "wf_command cmd"
  shows "\<exists>msg. serialize_rc M vec_write cmd k w = (Ok (), w @ msg) \<and>
           take 4 msg = MAGIC_NUMBER \<and>
           msg ! 7 = message_type_u8 (command_type cmd) \<and>
           (\<forall>s. cmd = System s \<longrightarrow> msg ! 6 = process_identifier (s_header s)) \<and>
           length msg = (case command_type cmd of
               MRead \<Rightarrow> 56 | MWrite \<Rightarrow> 4152 | MReadProc \<Rightarrow> 64 | MAck \<Rightarrow> 64
             | MValue \<Rightarrow> 4176 | MWriteProc \<Rightarrow> 4176) \<and>
           drop (length msg - 32) msg = tag k (take (length msg - 32) msg)"
proof -
  obtain h b where f: "serialize_unsigned cmd = MAGIC_NUMBER @ h @ b" "length h = 4"
      "h ! 3 = message_type_u8 (command_type cmd)" "length b = frame_len (command_type cmd)"
      "\<And>ys. frame_command (command_type cmd) (h ! 2) (b @ ys) = cmd"
    using serialize_frame[OF assms(2)] by metis
  have "serialize_rc M vec_write cmd k w =
      (Ok (), w @ (MAGIC_NUMBER @ h @ b @ tag k (MAGIC_NUMBER @ h @ b)))"
    by (simp add: serialize_rc_eq[OF assms(1)] f(1))
  moreover have "\<forall>s. cmd = System s \<longrightarrow> h ! 2 = process_identifier (s_header s)"
    using f(5)[of "[]"] by (cases cmd) (auto simp: frame_command_def frame_client_def
        frame_system_def split: MessageType.splits)
  ultimately show ?thesis
    using f(2,3,4) hmac_specD(5)[OF assms(1)]
    by (intro exI[of _ "MAGIC_NUMBER @ h @ b @ tag k (MAGIC_NUMBER @ h @ b)"])
      (auto simp: nth_append split: MessageType.split)
qed

theorem serialize_format_witness:
  "\<exists>msg. serialize_rc sum_mac vec_write (System \<lparr>s_header = \<lparr>process_identifier = 147,
             msg_ident = 7, s_sector_idx = 4525787855454\<rparr>, s_content = ReadProc\<rparr>) [1] [] =
           (Ok (), [] @ msg) \<and> length msg = 64 \<and> msg ! 6 = 147 \<and> msg ! 7 = 3"
  using serialize_format[OF sum_mac_spec, of "System \<lparr>s_header = \<lparr>process_identifier = 147,
      msg_ident = 7, s_sector_idx = 4525787855454\<rparr>, s_content = ReadProc\<rparr>" "[1]" "[]"]
  by auto

end
