(* ===== verification/Atomic_Register.thy ===== *)
theory Atomic_Register
  imports Domain
begin

text \<open>
  The (N,N)-AtomicRegister instance of one sector in one process:
  \<^verbatim>\<open>src/solution/src/atomic_register.rs\<close>, and \<open>build_atomic_register\<close> of
  \<^verbatim>\<open>src/solution/src/lib.rs\<close>.

  A handler maps the state to the new state and the list of its effects in program order:
  writes to the sectors manager, messages handed to the register client, and the call of the
  completion callback. The callback itself is a value of the type parameter \<open>'cb\<close>. The random
  operation identifier of \<open>Uuid::new_v4\<close> and the iteration order of a \<open>HashMap\<close> are
  parameters (\<open>uuid\<close> and \<open>iter\<close>); \<open>chk\<close> says whether the build has overflow checks.
\<close>

section \<open>State and effects\<close>

type_synonym reading_entry = "u64 \<times> u8 \<times> SectorVec"
type_synonym readlist_map = "(u8 \<times> reading_entry) list"

record 'cb AtomicRegisterState =
  self_ident :: u8
  sector_idx :: SectorIdx
  processes_count :: u8
  ar_ts :: u64
  ar_wr :: u8
  ar_val :: SectorVec
  readlist :: readlist_map
  acklist :: "u8 set"
  reading :: bool
  writing :: bool
  writeval :: SectorVec
  readval :: SectorVec
  write_phase :: bool
  callback :: "'cb option"
  rid :: "u64 option"
  op_id :: "Uuid option"

datatype 'cb ar_effect =
    Store SectorIdx "SectorVec \<times> u64 \<times> u8"
  | Send u8 SystemRegisterCommand
  | Broadcast SystemRegisterCommand
  | Callback 'cb OperationSuccess

definition ar_new ::
    "u8 \<Rightarrow> SectorIdx \<Rightarrow> u8 \<Rightarrow> u64 \<Rightarrow> u8 \<Rightarrow> SectorVec \<Rightarrow> 'cb AtomicRegisterState" where
  "ar_new self sidx n t w v =
     \<lparr>self_ident = self, sector_idx = sidx, processes_count = n, ar_ts = t, ar_wr = w, ar_val = v,
      readlist = [], acklist = {}, reading = False, writing = False,
      writeval = SectorVec (replicate 4096 0), readval = SectorVec (replicate 4096 0),
      write_phase = False, callback = None, rid = None, op_id = None\<rparr>"

text \<open>\<open>build_atomic_register\<close>: the Init and Recovery events, over any sectors manager.\<close>

definition build_atomic_register ::
    "(SectorIdx \<Rightarrow> 's \<Rightarrow> u64 \<times> u8) \<Rightarrow> (SectorIdx \<Rightarrow> 's \<Rightarrow> SectorVec res) \<Rightarrow>
     u8 \<Rightarrow> SectorIdx \<Rightarrow> u8 \<Rightarrow> 's \<Rightarrow> 'cb AtomicRegisterState res" where
  "build_atomic_register read_metadata read_data self sidx n store =
     (case read_metadata sidx store of (t, w) \<Rightarrow>
        res_bind (read_data sidx store) (\<lambda>v. Ok (ar_new self sidx n t w v)))"

section \<open>Handlers\<close>

definition client_command ::
    "Uuid \<Rightarrow> ClientRegisterCommand \<Rightarrow> 'cb \<Rightarrow> 'cb AtomicRegisterState \<Rightarrow>
       'cb AtomicRegisterState \<times> 'cb ar_effect list" where
  "client_command uuid cmd success_callback s =
     (let s = s\<lparr>op_id := Some uuid, callback := Some success_callback,
                rid := Some (request_identifier (c_header cmd))\<rparr>;
          s = (case c_content cmd of
                 Read \<Rightarrow> s\<lparr>readlist := [], acklist := {}, reading := True\<rparr>
               | Write data \<Rightarrow> s\<lparr>writeval := data, acklist := {}, readlist := [], writing := True\<rparr>);
          sidx = c_sector_idx (c_header cmd);
          header = \<lparr>process_identifier = self_ident s, msg_ident = uuid, s_sector_idx = sidx\<rparr>
      in (s, [Broadcast \<lparr>s_header = header, s_content = ReadProc\<rparr>]))"

text \<open>\<open>Iterator::max_by\<close>: of several maximal elements the last one is returned.\<close>

fun max_by_from :: "('a \<Rightarrow> 'a \<Rightarrow> bool) \<Rightarrow> 'a \<Rightarrow> 'a list \<Rightarrow> 'a" where
  "max_by_from gt x [] = x"
| "max_by_from gt x (y # ys) = max_by_from gt (if gt x y then x else y) ys"

fun max_by :: "('a \<Rightarrow> 'a \<Rightarrow> bool) \<Rightarrow> 'a list \<Rightarrow> 'a option" where
  "max_by gt [] = None"
| "max_by gt (x # xs) = Some (max_by_from gt x xs)"

text \<open>
  The entry chosen from the read list. The comparison \<open>a.1.1.cmp(&b.1.1)\<close> looks at the second
  component of the stored triple, which is the write rank.
\<close>

definition rank_greater :: "u8 \<times> reading_entry \<Rightarrow> u8 \<times> reading_entry \<Rightarrow> bool" where
  "rank_greater a b \<longleftrightarrow> fst (snd (snd a)) > fst (snd (snd b))"

definition highest :: "(readlist_map \<Rightarrow> readlist_map) \<Rightarrow> readlist_map \<Rightarrow> reading_entry option" where
  "highest iter l = map_option snd (max_by rank_greater (iter l))"

definition handle_read_proc ::
    "SystemCommandHeader \<Rightarrow> 'cb AtomicRegisterState \<Rightarrow> ('cb AtomicRegisterState \<times> 'cb ar_effect list) res" where
  "handle_read_proc hdr s =
     (let header = \<lparr>process_identifier = self_ident s, msg_ident = msg_ident hdr,
                    s_sector_idx = s_sector_idx hdr\<rparr>;
          content = Value (ar_ts s) (ar_wr s) (ar_val s)
      in Ok (s, [Send (process_identifier hdr) \<lparr>s_header = header, s_content = content\<rparr>]))"

definition handle_value ::
    "(readlist_map \<Rightarrow> readlist_map) \<Rightarrow> bool \<Rightarrow> SystemCommandHeader \<Rightarrow> u64 \<Rightarrow> u8 \<Rightarrow> SectorVec \<Rightarrow>
     'cb AtomicRegisterState \<Rightarrow> ('cb AtomicRegisterState \<times> 'cb ar_effect list) res" where
  "handle_value iter chk hdr timestamp write_rank sector_data s =
     res_bind (unwrap_opt UnwrapNone (op_id s)) (\<lambda>op.
     if msg_ident hdr = op \<and> \<not> write_phase s then
       let s = s\<lparr>readlist := AList.update (process_identifier hdr)
                               (timestamp, write_rank, sector_data) (readlist s)\<rparr> in
       if length (readlist s) > unat (processes_count s) div 2 \<and> (reading s \<or> writing s) then
         let s = s\<lparr>readlist := AList.update (self_ident s) (ar_ts s, ar_wr s, ar_val s) (readlist s)\<rparr> in
         res_bind (unwrap_opt UnwrapNone (highest iter (readlist s))) (\<lambda>(maxts, rr, rv).
         let s = s\<lparr>readval := rv, readlist := [], acklist := {}, write_phase := True\<rparr>;
             header = \<lparr>process_identifier = self_ident s, msg_ident = op, s_sector_idx = s_sector_idx hdr\<rparr> in
         if reading s then
           Ok (s, [Broadcast \<lparr>s_header = header, s_content = WriteProc maxts rr rv\<rparr>])
         else
           res_bind (checked_add chk maxts 1) (\<lambda>t.
           let s = s\<lparr>ar_ts := t, ar_wr := self_ident s, ar_val := writeval s\<rparr> in
           Ok (s, [Store (sector_idx s) (ar_val s, ar_ts s, ar_wr s),
                   Broadcast \<lparr>s_header = header,
                              s_content = WriteProc (ar_ts s) (self_ident s) (writeval s)\<rparr>])))
       else Ok (s, [])
     else Ok (s, []))"

definition handle_write_proc ::
    "SystemCommandHeader \<Rightarrow> u64 \<Rightarrow> u8 \<Rightarrow> SectorVec \<Rightarrow>
     'cb AtomicRegisterState \<Rightarrow> ('cb AtomicRegisterState \<times> 'cb ar_effect list) res" where
  "handle_write_proc hdr timestamp write_rank data_to_write s =
     (let newer = (timestamp, write_rank) > (ar_ts s, ar_wr s);
          s = (if newer then s\<lparr>ar_ts := timestamp, ar_wr := write_rank, ar_val := data_to_write\<rparr> else s);
          header = \<lparr>process_identifier = self_ident s, msg_ident = msg_ident hdr,
                    s_sector_idx = s_sector_idx hdr\<rparr>
      in Ok (s, (if newer then [Store (sector_idx s) (ar_val s, ar_ts s, ar_wr s)] else []) @
                [Send (process_identifier hdr) \<lparr>s_header = header, s_content = Ack\<rparr>]))"

definition handle_ack ::
    "SystemCommandHeader \<Rightarrow> 'cb AtomicRegisterState \<Rightarrow> ('cb AtomicRegisterState \<times> 'cb ar_effect list) res" where
  "handle_ack hdr s =
     res_bind (unwrap_opt UnwrapNone (op_id s)) (\<lambda>op.
     if msg_ident hdr = op \<and> write_phase s then
       let s = s\<lparr>acklist := insert (process_identifier hdr) (acklist s)\<rparr> in
       if card (acklist s) > unat (processes_count s) div 2 \<and> (reading s \<or> writing s) then
         let s = s\<lparr>acklist := {}, write_phase := False\<rparr> in
         if reading s then
           let s = s\<lparr>reading := False\<rparr>; ret = OpRead \<lparr>read_data_ret = readval s\<rparr> in
           (case callback s of
              Some cb \<Rightarrow>
                res_bind (unwrap_opt UnwrapNone (rid s)) (\<lambda>r.
                Ok (s\<lparr>callback := None\<rparr>,
                    [Callback cb \<lparr>op_request_identifier = r, op_return = ret\<rparr>]))
            | None \<Rightarrow> Ok (s, []))
         else
           let s = s\<lparr>writing := False\<rparr> in
           (case callback s of
              Some cb \<Rightarrow>
                res_bind (unwrap_opt UnwrapNone (rid s)) (\<lambda>r.
                Ok (s\<lparr>callback := None\<rparr>,
                    [Callback cb \<lparr>op_request_identifier = r, op_return = OpWrite\<rparr>]))
            | None \<Rightarrow> Ok (s, []))
       else Ok (s, [])
     else Ok (s, []))"

definition system_command ::
    "(readlist_map \<Rightarrow> readlist_map) \<Rightarrow> bool \<Rightarrow> SystemRegisterCommand \<Rightarrow>
     'cb AtomicRegisterState \<Rightarrow> ('cb AtomicRegisterState \<times> 'cb ar_effect list) res" where
  "system_command iter chk cmd s =
     (case s_content cmd of
        ReadProc \<Rightarrow> handle_read_proc (s_header cmd) s
      | Value timestamp write_rank sector_data \<Rightarrow>
          handle_value iter chk (s_header cmd) timestamp write_rank sector_data s
      | WriteProc timestamp write_rank data_to_write \<Rightarrow>
          handle_write_proc (s_header cmd) timestamp write_rank data_to_write s
      | Ack \<Rightarrow> handle_ack (s_header cmd) s)"

section \<open>The handlers branch by branch\<close>

text \<open>The messages a register sends carry its own rank; \<open>msg s op i c\<close> abbreviates them.\<close>

abbreviation msg :: "'cb AtomicRegisterState \<Rightarrow> Uuid \<Rightarrow> SectorIdx \<Rightarrow> SystemRegisterCommandContent \<Rightarrow>
    SystemRegisterCommand" where
  "msg s op i c \<equiv> \<lparr>s_header = \<lparr>process_identifier = self_ident s, msg_ident = op, s_sector_idx = i\<rparr>,
                    s_content = c\<rparr>"

abbreviation collected :: "SystemCommandHeader \<Rightarrow> reading_entry \<Rightarrow> 'cb AtomicRegisterState \<Rightarrow> readlist_map" where
  "collected hdr e s \<equiv> AList.update (process_identifier hdr) e (readlist s)"

definition gathered :: "SystemCommandHeader \<Rightarrow> reading_entry \<Rightarrow> 'cb AtomicRegisterState \<Rightarrow> readlist_map" where
  "gathered hdr e s = AList.update (self_ident s) (ar_ts s, ar_wr s, ar_val s) (collected hdr e s)"

abbreviation majority :: "'cb AtomicRegisterState \<Rightarrow> nat \<Rightarrow> bool" where
  "majority s k \<equiv> k > unat (processes_count s) div 2"

lemma handle_value_cases:
  assumes "handle_value iter chk hdr t w d s = Ok (s', es)"
  obtains (ignored) "s' = s" "es = []" "op_id s \<noteq> None" "op_id s \<noteq> Some (msg_ident hdr) \<or> write_phase s"
  | (waiting) "op_id s = Some (msg_ident hdr)" "\<not> write_phase s"
      "\<not> (majority s (length (collected hdr (t, w, d) s)) \<and> (reading s \<or> writing s))"
      "s' = s\<lparr>readlist := collected hdr (t, w, d) s\<rparr>" "es = []"
  | (read_quorum) maxts rr rv where "op_id s = Some (msg_ident hdr)" "\<not> write_phase s"
      "majority s (length (collected hdr (t, w, d) s))" "reading s"
      "highest iter (gathered hdr (t, w, d) s) = Some (maxts, rr, rv)"
      "s' = s\<lparr>readval := rv, readlist := [], acklist := {}, write_phase := True\<rparr>"
      "es = [Broadcast (msg s (msg_ident hdr) (s_sector_idx hdr) (WriteProc maxts rr rv))]"
  | (write_quorum) maxts rr rv t' where "op_id s = Some (msg_ident hdr)" "\<not> write_phase s"
      "majority s (length (collected hdr (t, w, d) s))" "\<not> reading s" "writing s"
      "highest iter (gathered hdr (t, w, d) s) = Some (maxts, rr, rv)"
      "checked_add chk maxts 1 = Ok t'"
      "s' = s\<lparr>readval := rv, readlist := [], acklist := {}, write_phase := True,
              ar_ts := t', ar_wr := self_ident s, ar_val := writeval s\<rparr>"
      "es = [Store (sector_idx s) (writeval s, t', self_ident s),
             Broadcast (msg s (msg_ident hdr) (s_sector_idx hdr) (WriteProc t' (self_ident s) (writeval s)))]"
proof -
  consider (none) "op_id s = None" | (other) op where "op_id s = Some op" "op \<noteq> msg_ident hdr \<or> write_phase s"
    | (mine) "op_id s = Some (msg_ident hdr)" "\<not> write_phase s"
    by (cases "op_id s") auto
  then show thesis
  proof cases
    case none
    with assms show ?thesis by (simp add: handle_value_def res_simps)
  next
    case other
    with assms show ?thesis by (intro ignored) (auto simp: handle_value_def res_simps)
  next
    case mine
    show ?thesis
    proof (cases "majority s (length (collected hdr (t, w, d) s)) \<and> (reading s \<or> writing s)")
      case False
      with assms mine show ?thesis
        by (intro waiting) (auto simp: handle_value_def res_simps Let_def)
    next
      case True
      show ?thesis
      proof (cases "highest iter (gathered hdr (t, w, d) s)")
        case None
        with assms mine True show ?thesis
          by (auto simp: handle_value_def res_simps Let_def gathered_def)
      next
        case (Some x)
        obtain maxts rr rv where x: "x = (maxts, rr, rv)" by (cases x)
        note h = Some[unfolded x]
        show ?thesis
        proof (cases "reading s")
          case True
          with assms mine \<open>majority s _ \<and> _\<close> h show ?thesis
            by (intro read_quorum[of maxts rr rv]) (simp_all add: handle_value_def res_simps Let_def gathered_def)
        next
          case False
          note asm = assms mine False \<open>majority s _ \<and> _\<close> h
          show ?thesis
          proof (cases "checked_add chk maxts 1")
            case (Ok t')
            with asm show ?thesis
              by (intro write_quorum[of maxts rr rv t'])
                (simp_all add: handle_value_def res_simps Let_def gathered_def)
          qed (use asm in \<open>simp_all add: handle_value_def res_simps Let_def gathered_def\<close>)
        qed
      qed
    qed
  qed
qed

lemma handle_write_proc_cases:
  assumes "handle_write_proc hdr t w d s = Ok (s', es)"
  obtains (newer) "(t, w) > (ar_ts s, ar_wr s)" "s' = s\<lparr>ar_ts := t, ar_wr := w, ar_val := d\<rparr>"
      "es = [Store (sector_idx s) (d, t, w), Send (process_identifier hdr) (msg s (msg_ident hdr) (s_sector_idx hdr) Ack)]"
  | (older) "(t, w) \<le> (ar_ts s, ar_wr s)" "s' = s"
      "es = [Send (process_identifier hdr) (msg s (msg_ident hdr) (s_sector_idx hdr) Ack)]"
proof (cases "(t, w) > (ar_ts s, ar_wr s)")
  case True
  with assms show ?thesis
    by (intro newer) (simp_all add: handle_write_proc_def Let_def del: less_prod_simp less_eq_prod_simp)
next
  case False
  with assms show ?thesis
    by (intro older) (auto simp: handle_write_proc_def Let_def not_less simp del: less_prod_simp less_eq_prod_simp)
qed

definition finished :: "'cb AtomicRegisterState \<Rightarrow> OperationReturn" where
  "finished s = (if reading s then OpRead \<lparr>read_data_ret = readval s\<rparr> else OpWrite)"

definition completed :: "'cb AtomicRegisterState \<Rightarrow> 'cb AtomicRegisterState" where
  "completed s = (if reading s then s\<lparr>acklist := {}, write_phase := False, reading := False, callback := None\<rparr>
                  else s\<lparr>acklist := {}, write_phase := False, writing := False, callback := None\<rparr>)"

lemma handle_ack_cases:
  assumes "handle_ack hdr s = Ok (s', es)"
  obtains (ignored) "s' = s" "es = []" "op_id s \<noteq> None" "op_id s \<noteq> Some (msg_ident hdr) \<or> \<not> write_phase s"
  | (waiting) "op_id s = Some (msg_ident hdr)" "write_phase s"
      "\<not> (majority s (card (insert (process_identifier hdr) (acklist s))) \<and> (reading s \<or> writing s))"
      "s' = s\<lparr>acklist := insert (process_identifier hdr) (acklist s)\<rparr>" "es = []"
  | (quorum) "op_id s = Some (msg_ident hdr)" "write_phase s"
      "majority s (card (insert (process_identifier hdr) (acklist s)))" "reading s \<or> writing s"
      "s' = completed s" "callback s \<noteq> None \<longrightarrow> rid s \<noteq> None"
      "es = (case callback s of None \<Rightarrow> []
             | Some cb \<Rightarrow> [Callback cb \<lparr>op_request_identifier = the (rid s), op_return = finished s\<rparr>])"
proof -
  consider (none) "op_id s = None" | (other) op where "op_id s = Some op" "op \<noteq> msg_ident hdr \<or> \<not> write_phase s"
    | (mine) "op_id s = Some (msg_ident hdr)" "write_phase s"
    by (cases "op_id s") auto
  then show thesis
  proof cases
    case none
    with assms show ?thesis by (simp add: handle_ack_def res_simps)
  next
    case other
    with assms show ?thesis by (intro ignored) (auto simp: handle_ack_def res_simps)
  next
    case mine
    show ?thesis
    proof (cases "majority s (card (insert (process_identifier hdr) (acklist s))) \<and> (reading s \<or> writing s)")
      case False
      then have "s' = s\<lparr>acklist := insert (process_identifier hdr) (acklist s)\<rparr> \<and> es = []"
        using assms mine by (simp add: handle_ack_def res_simps Let_def del: de_Morgan_conj)
      with mine False show ?thesis by (intro waiting) blast+
    next
      case True
      then have m: "(unat (processes_count s) div 2 < card (insert (process_identifier hdr) (acklist s))) = True"
          "(reading s \<or> writing s) = True" by blast+
      have "handle_ack hdr s =
        (case callback s of None \<Rightarrow> Ok (completed s, [])
         | Some cb \<Rightarrow> res_bind (unwrap_opt UnwrapNone (rid s)) (\<lambda>r.
             Ok (completed s, [Callback cb \<lparr>op_request_identifier = r, op_return = finished s\<rparr>])))"
        unfolding handle_ack_def mine option.case finished_def completed_def Let_def
        by (simp add: m mine res_simps del: card_insert_disjoint split: option.split)
      then have "s' = completed s \<and> (callback s \<noteq> None \<longrightarrow> rid s \<noteq> None) \<and>
        es = (case callback s of None \<Rightarrow> []
              | Some cb \<Rightarrow> [Callback cb \<lparr>op_request_identifier = the (rid s), op_return = finished s\<rparr>])"
        using assms by (cases "callback s"; cases "rid s") (auto simp: res_simps)
      with mine True show ?thesis by (intro quorum) blast+
    qed
  qed
qed

lemmas handler_cases = handle_value_cases handle_write_proc_cases handle_ack_cases

lemma handle_read_proc_eq:
  "handle_read_proc hdr s = Ok (s, [Send (process_identifier hdr)
     (msg s (msg_ident hdr) (s_sector_idx hdr) (Value (ar_ts s) (ar_wr s) (ar_val s)))])"
  by (simp add: handle_read_proc_def)

lemma system_command_content [simp]:
  "s_content cmd = ReadProc \<Longrightarrow> system_command iter chk cmd s = handle_read_proc (s_header cmd) s"
  "s_content cmd = Value t w d \<Longrightarrow> system_command iter chk cmd s = handle_value iter chk (s_header cmd) t w d s"
  "s_content cmd = WriteProc t w d \<Longrightarrow> system_command iter chk cmd s = handle_write_proc (s_header cmd) t w d s"
  "s_content cmd = Ack \<Longrightarrow> system_command iter chk cmd s = handle_ack (s_header cmd) s"
  by (simp_all add: system_command_def)

section \<open>The chosen entry\<close>

text \<open>What the code relies on from \<open>HashMap::iter\<close>: every entry is visited exactly once.\<close>

definition iterates :: "(readlist_map \<Rightarrow> readlist_map) \<Rightarrow> bool" where
  "iterates iter \<longleftrightarrow> (\<forall>l. mset (iter l) = mset l)"

lemma iterates_set: "iterates iter \<Longrightarrow> set (iter l) = set l"
  unfolding iterates_def by (metis set_mset_mset)

lemma max_by_from_max:
  assumes "\<And>a b. gt a b \<longleftrightarrow> f a > (f b :: 'k :: linorder)"
  shows "max_by_from gt x xs \<in> set (x # xs) \<and> (\<forall>y \<in> set (x # xs). f y \<le> f (max_by_from gt x xs))"
proof (induction xs arbitrary: x)
  case (Cons y ys)
  let ?z = "if gt x y then x else y"
  have "f x \<le> f ?z" "f y \<le> f ?z" using assms by auto
  then show ?case using Cons[of ?z] by (auto intro: order_trans)
qed simp

lemma highest_max:
  assumes "iterates iter" and "l \<noteq> []"
  obtains q e where "highest iter l = Some e" "(q, e) \<in> set l"
    "\<And>q' e'. (q', e') \<in> set l \<Longrightarrow> fst (snd e') \<le> fst (snd e)"
proof -
  have set: "set (iter l) = set l" by (rule iterates_set[OF assms(1)])
  with assms(2) obtain x xs where l: "iter l = x # xs" by (cases "iter l") auto
  note m = max_by_from_max[of rank_greater "\<lambda>a. fst (snd (snd a))" x xs, OF rank_greater_def, folded l, unfolded set]
  show thesis
    by (rule that[of "snd (max_by_from rank_greater x xs)" "fst (max_by_from rank_greater x xs)"])
      (use m l in \<open>auto simp: highest_def\<close>)
qed

lemma gathered_nonempty [simp]: "gathered hdr e s \<noteq> []"
  by (simp add: gathered_def)

lemma update_values: "snd ` set (AList.update k v al) \<subseteq> insert v (snd ` set al)"
  by (induction al) auto

lemma gathered_set: "snd ` set (gathered hdr e s) \<subseteq> {(ar_ts s, ar_wr s, ar_val s), e} \<union> snd ` set (readlist s)"
  unfolding gathered_def
  by (rule order_trans[OF update_values], unfold Un_insert_left, rule insert_mono) (simp add: update_values)

section \<open>Invariant\<close>

abbreviation idle :: "'cb AtomicRegisterState \<Rightarrow> bool" where
  "idle s \<equiv> \<not> reading s \<and> \<not> writing s"

text \<open>
  Outside a write phase no acknowledgement is kept, inside it no value is; a pending operation has
  not yet collected a majority of whatever it waits for, has a callback and a request identifier,
  and an idle register has no callback left.
\<close>

definition reg_inv :: "'cb AtomicRegisterState \<Rightarrow> bool" where
  "reg_inv s \<longleftrightarrow>
     distinct (map fst (readlist s)) \<and>
     (op_id s = None \<longleftrightarrow> rid s = None) \<and>
     (op_id s = None \<longrightarrow> idle s) \<and>
     (callback s = None \<longleftrightarrow> idle s) \<and>
     \<not> (reading s \<and> writing s) \<and>
     (if write_phase s then \<not> idle s \<and> readlist s = [] \<and> \<not> majority s (card (acklist s))
      else acklist s = {} \<and> (\<not> idle s \<longrightarrow> \<not> majority s (length (readlist s))))"

lemma ar_new_inv: "reg_inv (ar_new self sidx n t w v)"
  by (simp add: reg_inv_def ar_new_def)

lemma client_command_eq:
  "client_command uuid cmd cb s =
     ((case c_content cmd of
         Read \<Rightarrow> s\<lparr>op_id := Some uuid, callback := Some cb, rid := Some (request_identifier (c_header cmd)),
                   readlist := [], acklist := {}, reading := True\<rparr>
       | Write data \<Rightarrow> s\<lparr>op_id := Some uuid, callback := Some cb, rid := Some (request_identifier (c_header cmd)),
                   writeval := data, acklist := {}, readlist := [], writing := True\<rparr>),
      [Broadcast (msg s uuid (c_sector_idx (c_header cmd)) ReadProc)])"
  by (simp add: client_command_def Let_def split: ClientRegisterCommandContent.split)

lemma client_command_inv:
  assumes "reg_inv s" "idle s" "client_command uuid cmd cb s = (s', es)"
  shows "reg_inv s'"
proof -
  have "\<not> write_phase s" using assms(1,2) by (simp add: reg_inv_def split: if_splits)
  with assms(2,3) show ?thesis
    by (cases "c_content cmd") (auto simp: client_command_eq reg_inv_def)
qed

lemma reg_inv_update: "reg_inv s \<Longrightarrow> distinct (map fst (AList.update q e (readlist s)))"
  by (simp add: reg_inv_def distinct_update)

lemma handle_value_inv:
  assumes "reg_inv s" and "handle_value iter chk hdr t w d s = Ok (s', es)"
  shows "reg_inv s'"
  using assms(2)
proof (cases rule: handle_value_cases)
  case waiting
  with assms(1) show ?thesis using reg_inv_update[OF assms(1)] by (auto simp: reg_inv_def)
qed (use assms(1) in \<open>auto simp: reg_inv_def\<close>)

lemma handle_ack_inv:
  assumes "reg_inv s" and "handle_ack hdr s = Ok (s', es)"
  shows "reg_inv s'"
  using assms(2)
proof (cases rule: handle_ack_cases)
  case waiting
  with assms(1) show ?thesis unfolding reg_inv_def by simp
qed (use assms(1) in \<open>auto simp: reg_inv_def completed_def\<close>)

lemma handle_write_proc_inv:
  assumes "reg_inv s" and "handle_write_proc hdr t w d s = Ok (s', es)"
  shows "reg_inv s'"
  using assms(2) by (cases rule: handle_write_proc_cases) (use assms(1) in \<open>auto simp: reg_inv_def\<close>)

lemma system_command_inv:
  assumes "reg_inv s" and "system_command iter chk cmd s = Ok (s', es)"
  shows "reg_inv s'"
  using assms
  by (cases "s_content cmd")
    (auto simp: handle_read_proc_eq dest: handle_value_inv handle_ack_inv handle_write_proc_inv)

section \<open>Runs of a register\<close>

text \<open>
  A register is driven by its worker: client commands arrive only while no operation is pending
  (the semaphore of the sector), system commands at any time. A run records the events and the
  effects in order; a panic ends the worker, so only handlers that return extend a run.
\<close>

datatype 'cb ar_event = ClientEv Uuid ClientRegisterCommand 'cb | SystemEv SystemRegisterCommand

inductive ar_run ::
    "(readlist_map \<Rightarrow> readlist_map) \<Rightarrow> bool \<Rightarrow> 'cb AtomicRegisterState \<Rightarrow> 'cb ar_event list \<Rightarrow>
     'cb ar_effect list \<Rightarrow> 'cb AtomicRegisterState \<Rightarrow> bool"
  for iter chk s0 where
  start: "ar_run iter chk s0 [] [] s0"
| client: "ar_run iter chk s0 evs es s \<Longrightarrow> idle s \<Longrightarrow> client_command uuid cmd cb s = (s', es') \<Longrightarrow>
    ar_run iter chk s0 (evs @ [ClientEv uuid cmd cb]) (es @ es') s'"
| system: "ar_run iter chk s0 evs es s \<Longrightarrow> system_command iter chk cmd s = Ok (s', es') \<Longrightarrow>
    ar_run iter chk s0 (evs @ [SystemEv cmd]) (es @ es') s'"

lemma ar_run_inv: "ar_run iter chk s0 evs es s \<Longrightarrow> reg_inv s0 \<Longrightarrow> reg_inv s"
  by (induction rule: ar_run.induct) (auto intro: client_command_inv system_command_inv)

text \<open>The operations issued to a register and those it answered: callback, request, is it a read.\<close>

fun issued :: "'cb ar_event list \<Rightarrow> ('cb \<times> u64 \<times> bool) list" where
  "issued [] = []"
| "issued (ClientEv _ cmd cb # evs) =
     (cb, request_identifier (c_header cmd), c_content cmd = Read) # issued evs"
| "issued (SystemEv _ # evs) = issued evs"

fun answered :: "'cb ar_effect list \<Rightarrow> ('cb \<times> u64 \<times> bool) list" where
  "answered [] = []"
| "answered (Callback cb r # es) = (cb, op_request_identifier r, op_return r \<noteq> OpWrite) # answered es"
| "answered (_ # es) = answered es"

definition pending :: "'cb AtomicRegisterState \<Rightarrow> ('cb \<times> u64 \<times> bool) list" where
  "pending s = (case callback s of None \<Rightarrow> [] | Some cb \<Rightarrow> [(cb, the (rid s), reading s)])"

lemma issued_append [simp]: "issued (xs @ ys) = issued xs @ issued ys"
  by (induction xs rule: issued.induct) auto

lemma answered_append [simp]: "answered (xs @ ys) = answered xs @ answered ys"
  by (induction xs rule: answered.induct) auto

lemma client_command_pending:
  "reg_inv s \<Longrightarrow> idle s \<Longrightarrow> client_command uuid cmd cb s = (s', es) \<Longrightarrow>
     pending s = [] \<and> answered es = [] \<and>
     pending s' = [(cb, request_identifier (c_header cmd), c_content cmd = Read)]"
  by (cases "c_content cmd") (auto simp: client_command_eq pending_def reg_inv_def)

lemma system_command_pending:
  assumes "reg_inv s" and "system_command iter chk cmd s = Ok (s', es)"
  shows "answered es @ pending s' = pending s"
proof (cases "s_content cmd")
  case ReadProc
  with assms show ?thesis by (auto simp: handle_read_proc_eq)
next
  case (Value t w d)
  with assms(2) have "handle_value iter chk (s_header cmd) t w d s = Ok (s', es)" by simp
  then show ?thesis by (cases rule: handle_value_cases) (auto simp: pending_def split: option.split)
next
  case (WriteProc t w d)
  with assms(2) have "handle_write_proc (s_header cmd) t w d s = Ok (s', es)" by simp
  then show ?thesis by (cases rule: handle_write_proc_cases) (auto simp: pending_def split: option.split)
next
  case Ack
  with assms(2) have "handle_ack (s_header cmd) s = Ok (s', es)" by simp
  then show ?thesis
  proof (cases rule: handle_ack_cases)
    case quorum
    with assms(1) show ?thesis
      by (auto simp: pending_def completed_def finished_def split: option.split)
  qed (auto simp: pending_def split: option.split)
qed

lemma ar_run_answers:
  assumes "ar_run iter chk s0 evs es s" and "reg_inv s0" and "pending s0 = []"
  shows "answered es @ pending s = issued evs"
  using assms
proof (induction rule: ar_run.induct)
  case (client evs es s uuid cmd cb s' es')
  then show ?case
    using client_command_pending[OF ar_run_inv[OF client.hyps(1)]] by fastforce
next
  case (system evs es s cmd s' es')
  then show ?case
    using system_command_pending[OF ar_run_inv[OF system.hyps(1)]] by simp
qed simp

section \<open>Storage discipline\<close>

abbreviation current :: "'cb AtomicRegisterState \<Rightarrow> SectorVec \<times> u64 \<times> u8" where
  "current s \<equiv> (ar_val s, ar_ts s, ar_wr s)"

fun is_store :: "'cb ar_effect \<Rightarrow> bool" where
  "is_store (Store _ _) = True"
| "is_store _ = False"

lemma system_command_stores:
  assumes "system_command iter chk cmd s = Ok (s', es)"
  obtains (unchanged) "current s' = current s" "\<And>e. e \<in> set es \<Longrightarrow> \<not> is_store e"
  | (stored) rest where "es = Store (sector_idx s) (current s') # rest" "\<And>e. e \<in> set rest \<Longrightarrow> \<not> is_store e"
proof (cases "s_content cmd")
  case ReadProc
  with assms show ?thesis by (intro unchanged) (auto simp: handle_read_proc_eq)
next
  case (Value t w d)
  with assms have "handle_value iter chk (s_header cmd) t w d s = Ok (s', es)" by simp
  then show ?thesis by (cases rule: handle_value_cases) (auto intro: that)
next
  case (WriteProc t w d)
  with assms have "handle_write_proc (s_header cmd) t w d s = Ok (s', es)" by simp
  then show ?thesis by (cases rule: handle_write_proc_cases) (auto intro: that)
next
  case Ack
  with assms have "handle_ack (s_header cmd) s = Ok (s', es)" by simp
  then show ?thesis
    by (cases rule: handle_ack_cases) (auto simp: completed_def split: option.splits intro!: unchanged)
qed

lemma system_command_static:
  assumes "system_command iter chk cmd s = Ok (s', es)"
  shows "self_ident s' = self_ident s \<and> sector_idx s' = sector_idx s \<and> processes_count s' = processes_count s"
proof (cases "s_content cmd")
  case (Value t w d)
  with assms have "handle_value iter chk (s_header cmd) t w d s = Ok (s', es)" by simp
  then show ?thesis by (cases rule: handle_value_cases) auto
next
  case (WriteProc t w d)
  with assms have "handle_write_proc (s_header cmd) t w d s = Ok (s', es)" by simp
  then show ?thesis by (cases rule: handle_write_proc_cases) auto
next
  case Ack
  with assms have "handle_ack (s_header cmd) s = Ok (s', es)" by simp
  then show ?thesis by (cases rule: handle_ack_cases) (auto simp: completed_def)
qed (use assms in \<open>auto simp: handle_read_proc_eq\<close>)

section \<open>Panics\<close>

text \<open>The quorum step of a write whose chosen timestamp is the greatest one.\<close>

definition write_overflows ::
    "(readlist_map \<Rightarrow> readlist_map) \<Rightarrow> SystemRegisterCommand \<Rightarrow> 'cb AtomicRegisterState \<Rightarrow> bool" where
  "write_overflows iter cmd s \<longleftrightarrow>
     (case s_content cmd of
        Value t w d \<Rightarrow>
          op_id s = Some (msg_ident (s_header cmd)) \<and> \<not> write_phase s \<and> writing s \<and> \<not> reading s \<and>
          majority s (length (collected (s_header cmd) (t, w, d) s)) \<and>
          map_option fst (highest iter (gathered (s_header cmd) (t, w, d) s)) = Some (- 1)
      | _ \<Rightarrow> False)"

lemma checked_add_one:
  "checked_add chk (t :: u64) 1 = (if chk \<and> t = - 1 then Panic ArithmeticOverflow else Ok (t + 1))"
proof -
  have "unat t < 2 ^ 64" by (rule order_less_le_trans, rule unsigned_less) simp
  then have "2 ^ 64 \<le> unat t + 1 \<longleftrightarrow> t = - 1"
    by (auto simp: word_unat_eq_iff unsigned_minus_1_eq_mask mask_eq_exp_minus_1)
  then show ?thesis by (simp add: checked_add_def)
qed

lemma handle_value_result:
  assumes "iterates iter" and "s_content cmd = Value t w d"
  shows "case system_command iter chk cmd s of
           Ok _ \<Rightarrow> op_id s \<noteq> None \<and> \<not> (chk \<and> write_overflows iter cmd s)
         | Err _ \<Rightarrow> False
         | Panic p \<Rightarrow> op_id s = None \<and> p = UnwrapNone \<or> chk \<and> write_overflows iter cmd s \<and> p = ArithmeticOverflow"
proof -
  obtain x where "highest iter (gathered (s_header cmd) (t, w, d) s) = Some x"
    by (rule highest_max[OF assms(1) gathered_nonempty[of "s_header cmd" "(t, w, d)" s]])
  then obtain maxts rr rv where h: "highest iter (gathered (s_header cmd) (t, w, d) s) = Some (maxts, rr, rv)"
    by (cases x) auto
  show ?thesis
    using assms(2) h
    by (cases "op_id s")
      (simp_all add: handle_value_def write_overflows_def res_simps Let_def checked_add_one gathered_def)
qed

lemma handle_ack_result:
  assumes "reg_inv s" and "s_content cmd = Ack"
  shows "case system_command iter chk cmd s of
           Ok _ \<Rightarrow> op_id s \<noteq> None | Err _ \<Rightarrow> False | Panic p \<Rightarrow> op_id s = None \<and> p = UnwrapNone"
proof (cases "op_id s")
  case (Some op)
  with assms(1) obtain r where "rid s = Some r" by (auto simp: reg_inv_def)
  with Some assms(2) show ?thesis
    by (simp add: handle_ack_def res_simps Let_def split: option.split)
qed (use assms in \<open>simp add: handle_ack_def res_simps\<close>)

lemma handle_write_proc_result:
  "s_content cmd = WriteProc t w d \<Longrightarrow> \<exists>s' es. system_command iter chk cmd s = Ok (s', es)"
  by (simp add: handle_write_proc_def Let_def)

section \<open>Repeated delivery\<close>

lemma update_again: "AList.update k v (AList.update k v al) = AList.update k v al"
  by (induction al) auto

lemma handle_value_again:
  assumes "handle_value iter chk hdr t w d s = Ok (s', es)"
  shows "handle_value iter chk hdr t w d s' = Ok (s', [])"
  using assms
proof (cases rule: handle_value_cases)
  case waiting
  then have "\<not> (majority s' (length (collected hdr (t, w, d) s')) \<and> (reading s' \<or> writing s'))"
    and "s'\<lparr>readlist := collected hdr (t, w, d) s'\<rparr> = s'" by (simp_all add: update_again)
  with waiting(1,2,4) show ?thesis by (auto simp: handle_value_def res_simps Let_def update_again)
qed (auto simp: handle_value_def res_simps)

lemma handle_ack_again:
  assumes "handle_ack hdr s = Ok (s', es)"
  shows "handle_ack hdr s' = Ok (s', [])"
  using assms
proof (cases rule: handle_ack_cases)
  case waiting
  then show ?thesis by (auto simp: handle_ack_def res_simps Let_def insert_absorb)
next
  case quorum
  then show ?thesis by (auto simp: handle_ack_def res_simps completed_def)
qed (auto simp: handle_ack_def res_simps)

lemma handle_write_proc_again:
  assumes "handle_write_proc hdr t w d s = Ok (s', es)"
  shows "handle_write_proc hdr t w d s' =
    Ok (s', [Send (process_identifier hdr) (msg s' (msg_ident hdr) (s_sector_idx hdr) Ack)])"
  using assms by (cases rule: handle_write_proc_cases) (auto simp: handle_write_proc_def Let_def)

section \<open>Which commands complete or change the phase\<close>

lemma system_command_no_callback:
  assumes "system_command iter chk cmd s = Ok (s', es)" and "s_content cmd \<noteq> Ack"
  shows "Callback cb r \<notin> set es"
proof (cases "s_content cmd")
  case (Value t w d)
  with assms have "handle_value iter chk (s_header cmd) t w d s = Ok (s', es)" by simp
  then show ?thesis by (cases rule: handle_value_cases) auto
next
  case (WriteProc t w d)
  with assms have "handle_write_proc (s_header cmd) t w d s = Ok (s', es)" by simp
  then show ?thesis by (cases rule: handle_write_proc_cases) auto
qed (use assms in \<open>auto simp: handle_read_proc_eq\<close>)

lemma system_command_phase:
  assumes "system_command iter chk cmd s = Ok (s', es)" and "\<nexists>t w d. s_content cmd = Value t w d"
  shows "write_phase s' \<Longrightarrow> write_phase s"
proof (cases "s_content cmd")
  case (WriteProc t w d)
  with assms have "handle_write_proc (s_header cmd) t w d s = Ok (s', es)" by simp
  then show "write_phase s' \<Longrightarrow> write_phase s" by (cases rule: handle_write_proc_cases) auto
next
  case Ack
  with assms have "handle_ack (s_header cmd) s = Ok (s', es)" by simp
  then show "write_phase s' \<Longrightarrow> write_phase s" by (cases rule: handle_ack_cases) (auto simp: completed_def split: if_splits)
qed (use assms in \<open>auto simp: handle_read_proc_eq\<close>)


section \<open>Executing a run\<close>

text \<open>The worker as a function of the events, for evaluating concrete runs.\<close>

fun ar_exec ::
    "(readlist_map \<Rightarrow> readlist_map) \<Rightarrow> bool \<Rightarrow> 'cb ar_event list \<Rightarrow> 'cb AtomicRegisterState \<Rightarrow>
     ('cb AtomicRegisterState \<times> 'cb ar_effect list) option" where
  "ar_exec iter chk [] s = Some (s, [])"
| "ar_exec iter chk (ClientEv uuid cmd cb # evs) s =
     (if idle s then
        case client_command uuid cmd cb s of (s', es) \<Rightarrow>
          map_option (apsnd ((@) es)) (ar_exec iter chk evs s')
      else None)"
| "ar_exec iter chk (SystemEv cmd # evs) s =
     (case system_command iter chk cmd s of
        Ok (s', es) \<Rightarrow> map_option (apsnd ((@) es)) (ar_exec iter chk evs s')
      | _ \<Rightarrow> None)"

lemma ar_exec_run_append:
  "ar_run iter chk s0 evs0 es0 s \<Longrightarrow> ar_exec iter chk evs s = Some (s', es) \<Longrightarrow>
     ar_run iter chk s0 (evs0 @ evs) (es0 @ es) s'"
proof (induction iter chk evs s arbitrary: evs0 es0 es rule: ar_exec.induct)
  case (2 iter chk uuid cmd cb evs s)
  obtain s1 es1 where c: "client_command uuid cmd cb s = (s1, es1)" by fastforce
  with 2(3) obtain es2 where "idle s" "ar_exec iter chk evs s1 = Some (s', es2)" "es = es1 @ es2"
    by (auto split: if_splits)
  then show ?case using 2(1)[OF _ c[symmetric] ar_run.client[OF 2(2) _ c]] by simp
next
  case (3 iter chk cmd evs s)
  then obtain s1 es1 es2 where c: "system_command iter chk cmd s = Ok (s1, es1)"
      "ar_exec iter chk evs s1 = Some (s', es2)" "es = es1 @ es2"
    by (auto split: res.splits)
  then show ?case using 3(1)[OF c(1) refl ar_run.system[OF 3(2) c(1)] c(2)] by simp
qed auto

lemmas ar_exec_run = ar_exec_run_append[OF ar_run.start, simplified]

text \<open>A write of one process alone, from the request to the answer.\<close>

abbreviation lone_header :: SystemCommandHeader where
  "lone_header \<equiv> \<lparr>process_identifier = 1, msg_ident = 7, s_sector_idx = 3\<rparr>"

abbreviation lone_events :: "nat ar_event list" where
  "lone_events \<equiv>
     [ClientEv 7 \<lparr>c_header = \<lparr>request_identifier = 11, c_sector_idx = 3\<rparr>, c_content = Write (SectorVec [5])\<rparr> 0,
      SystemEv \<lparr>s_header = lone_header, s_content = ReadProc\<rparr>,
      SystemEv \<lparr>s_header = lone_header, s_content = Value 4 2 (SectorVec [9])\<rparr>,
      SystemEv \<lparr>s_header = lone_header, s_content = WriteProc 5 1 (SectorVec [5])\<rparr>,
      SystemEv \<lparr>s_header = lone_header, s_content = Ack\<rparr>]"

lemmas exec_simps = client_command_eq system_command_def handle_read_proc_def handle_value_def
  handle_write_proc_def handle_ack_def highest_def checked_add_one ar_new_def

lemma lone_exec:
  "\<exists>s. ar_exec id True lone_events (ar_new 1 3 1 4 2 (SectorVec [9])) =
     Some (s, [Broadcast \<lparr>s_header = lone_header, s_content = ReadProc\<rparr>,
               Send 1 \<lparr>s_header = lone_header, s_content = Value 4 2 (SectorVec [9])\<rparr>,
               Store 3 (SectorVec [5], 5, 1),
               Broadcast \<lparr>s_header = lone_header, s_content = WriteProc 5 1 (SectorVec [5])\<rparr>,
               Send 1 \<lparr>s_header = lone_header, s_content = Ack\<rparr>,
               Callback 0 \<lparr>op_request_identifier = 11, op_return = OpWrite\<rparr>]) \<and> pending s = []"
  by (simp add: exec_simps pending_def res_simps)

text \<open>A reader among three processes that has one value and waits for a second one.\<close>

definition reader_of_3 :: "nat AtomicRegisterState" where
  "reader_of_3 = (ar_new 2 0 3 4 2 (SectorVec [4]))
     \<lparr>readlist := [(1, (5, 1, SectorVec [5]))], reading := True,
      callback := Some 0, rid := Some 4, op_id := Some 9\<rparr>"

definition writer_of_3 :: "u64 \<Rightarrow> nat AtomicRegisterState" where
  "writer_of_3 t = reader_of_3\<lparr>reading := False, writing := True, writeval := SectorVec [7],
     readlist := [(1, (t, 3, SectorVec [5]))]\<rparr>"

abbreviation to_2 :: "u8 \<Rightarrow> SystemRegisterCommandContent \<Rightarrow> SystemRegisterCommand" where
  "to_2 from_rank c \<equiv>
     \<lparr>s_header = \<lparr>process_identifier = from_rank, msg_ident = 9, s_sector_idx = 0\<rparr>, s_content = c\<rparr>"

lemma of_3_inv: "reg_inv reader_of_3" "reg_inv (writer_of_3 t)"
  by (simp_all add: reader_of_3_def writer_of_3_def reg_inv_def ar_new_def)

lemma iterates_id: "iterates id" "iterates rev"
  by (simp_all add: iterates_def)

lemmas of_3_simps = reader_of_3_def writer_of_3_def exec_simps res_simps gathered_def rank_greater_def

section \<open>Properties\<close>

text \<open>
  C22. In every run of a newly built register the answers given so far, followed by the operation
  still pending, are exactly the operations issued, in order: each client command is answered at
  most once, through its own callback, with its own request identifier and with a read result
  exactly for a read; nothing else is ever answered.
\<close>

theorem answers_are_the_requests:
  assumes "ar_run iter chk (ar_new self sidx n t w v) evs es s"
  shows "answered es @ pending s = issued evs"
  by (rule ar_run_answers[OF assms ar_new_inv]) (simp add: pending_def ar_new_def)

theorem answers_are_the_requests_witness:
  "\<exists>es s. ar_run id True (ar_new 1 3 1 4 2 (SectorVec [9])) lone_events es s \<and> pending s = [] \<and>
          answered es = [(0 :: nat, 11, False)]"
proof -
  obtain s es where r: "ar_exec id True lone_events (ar_new 1 3 1 4 2 (SectorVec [9])) = Some (s, es)"
    and p: "pending s = []"
    using lone_exec by blast
  note run = ar_exec_run[OF r]
  show ?thesis using run p answers_are_the_requests[OF run] by auto
qed

text \<open>
  In every run of a newly built register the invariant of the register holds: acknowledgements
  are kept only during the write phase and values only outside it, each sender counted once, and
  an operation in progress has a callback and has not collected a majority yet.
\<close>

theorem register_invariant:
  assumes "ar_run iter chk (ar_new self sidx n t w v) evs es s"
  shows "reg_inv s"
  by (rule ar_run_inv[OF assms ar_new_inv])

theorem register_invariant_witness:
  "\<exists>es s. ar_run id True (ar_new 1 3 1 4 2 (SectorVec [9])) lone_events es s \<and> reg_inv s"
proof -
  obtain s es where "ar_exec id True lone_events (ar_new 1 3 1 4 2 (SectorVec [9])) = Some (s, es)"
    using lone_exec by blast
  from ar_exec_run[OF this] show ?thesis using register_invariant by blast
qed

text \<open>
  C16. A system command calls a completion callback exactly when it is an acknowledgement of the
  current operation in its write phase and, with its sender, strictly more than half of all
  processes have acknowledged; the callback is the one of the pending client command, its argument
  carries that command's request identifier and, for a read, the value chosen in the read phase.
  The register is idle afterwards.
\<close>

theorem completion_needs_majority:
  assumes "reg_inv s" and "system_command iter chk cmd s = Ok (s', es)"
  shows "(Callback cb r \<in> set es \<longleftrightarrow>
            s_content cmd = Ack \<and> op_id s = Some (msg_ident (s_header cmd)) \<and> write_phase s \<and>
            card (insert (process_identifier (s_header cmd)) (acklist s)) > unat (processes_count s) div 2 \<and>
            callback s = Some cb \<and> rid s = Some (op_request_identifier r) \<and>
            op_return r = (if reading s then OpRead \<lparr>read_data_ret = readval s\<rparr> else OpWrite)) \<and>
         (Callback cb r \<in> set es \<longrightarrow> idle s' \<and> callback s' = None \<and> \<not> write_phase s')"
proof (cases "s_content cmd = Ack")
  case True
  with assms(2) have "handle_ack (s_header cmd) s = Ok (s', es)" by simp
  then show ?thesis
  proof (cases rule: handle_ack_cases)
    case quorum
    with assms(1) True show ?thesis
      by (cases r) (auto simp: reg_inv_def finished_def completed_def split: option.splits if_splits)
  next
    case waiting
    with assms(1) True show ?thesis unfolding reg_inv_def by auto
  qed (use True in auto)
next
  case False
  with system_command_no_callback[OF assms(2)] show ?thesis by blast
qed

theorem completion_needs_majority_witness:
  "let s = (ar_new 2 0 3 6 2 (SectorVec [8]) :: nat AtomicRegisterState)
           \<lparr>acklist := {1}, reading := True, readval := SectorVec [8], write_phase := True,
            callback := Some 0, rid := Some 4, op_id := Some 9\<rparr>;
       cmd = \<lparr>s_header = \<lparr>process_identifier = 3, msg_ident = 9, s_sector_idx = 0\<rparr>, s_content = Ack\<rparr>
   in \<exists>s' es. system_command id True cmd s = Ok (s', es) \<and> idle s' \<and>
        Callback 0 \<lparr>op_request_identifier = 4, op_return = OpRead \<lparr>read_data_ret = SectorVec [8]\<rparr>\<rparr> \<in> set es"
proof -
  define s where "s = (ar_new 2 0 3 6 2 (SectorVec [8]) :: nat AtomicRegisterState)
           \<lparr>acklist := {1}, reading := True, readval := SectorVec [8], write_phase := True,
            callback := Some 0, rid := Some 4, op_id := Some 9\<rparr>"
  define cmd where "cmd = \<lparr>s_header = \<lparr>process_identifier = 3, msg_ident = 9, s_sector_idx = 0\<rparr>, s_content = Ack\<rparr>"
  have inv: "reg_inv s" by (simp add: s_def reg_inv_def ar_new_def)
  have "\<exists>s' es. system_command id True cmd s = Ok (s', es)"
    by (simp add: s_def cmd_def exec_simps res_simps)
  then obtain s' es where r: "system_command id True cmd s = Ok (s', es)" by blast
  have "Callback 0 \<lparr>op_request_identifier = 4, op_return = OpRead \<lparr>read_data_ret = SectorVec [8]\<rparr>\<rparr> \<in> set es"
    using completion_needs_majority[OF inv r] by (simp add: s_def cmd_def ar_new_def)
  then show ?thesis
    unfolding Let_def s_def[symmetric] cmd_def[symmetric]
    using r completion_needs_majority[OF inv r] by blast
qed



text \<open>
  C23. A system command changes the register's timestamp, rank or value only together with a write
  of the new triple to the sectors manager, under the register's own sector index, and that write
  comes before every message the command sends and every callback it calls.
\<close>

theorem stores_before_sending:
  assumes "system_command iter chk cmd s = Ok (s', es)"
  shows "(current s' = current s \<and> (\<forall>e \<in> set es. \<not> is_store e)) \<or>
         (\<exists>rest. es = Store (sector_idx s) (current s') # rest \<and> (\<forall>e \<in> set rest. \<not> is_store e))"
  using assms by (cases rule: system_command_stores) blast+

theorem stores_before_sending_witness:
  "\<exists>s' es. system_command id True (to_2 3 (WriteProc 6 3 (SectorVec [6]))) reader_of_3 = Ok (s', es) \<and>
     es \<noteq> [] \<and> hd es = Store 0 (SectorVec [6], 6, 3)"
proof -
  have "\<exists>s' es. system_command id True (to_2 3 (WriteProc 6 3 (SectorVec [6]))) reader_of_3 = Ok (s', es) \<and>
      current s' = (SectorVec [6], 6, 3)"
    by (simp add: of_3_simps)
  then obtain s' es where
    r: "system_command id True (to_2 3 (WriteProc 6 3 (SectorVec [6]))) reader_of_3 = Ok (s', es)"
       "current s' = (SectorVec [6], 6, 3)" by blast
  then show ?thesis
    using stores_before_sending[OF r(1)] by (auto simp: reader_of_3_def ar_new_def)
qed

text \<open>
  A \<open>WriteProc\<close> leaves the register with the lexicographically greater of the two
  versions (timestamp, rank) and the value that belongs to it, changes nothing else, and is always
  acknowledged to its sender, under the identifier it came with.
\<close>

theorem write_proc_keeps_newest:
  assumes "s_content cmd = WriteProc t w d"
  shows "\<exists>s' es. system_command iter chk cmd s = Ok (s', es) \<and>
     (ar_ts s', ar_wr s') = max (ar_ts s, ar_wr s) (t, w) \<and>
     ar_val s' = (if (t, w) > (ar_ts s, ar_wr s) then d else ar_val s) \<and>
     s' = s\<lparr>ar_ts := ar_ts s', ar_wr := ar_wr s', ar_val := ar_val s'\<rparr> \<and>
     filter (\<lambda>e. \<not> is_store e) es =
       [Send (process_identifier (s_header cmd))
          (msg s (msg_ident (s_header cmd)) (s_sector_idx (s_header cmd)) Ack)]"
proof -
  obtain s' es where r: "system_command iter chk cmd s = Ok (s', es)"
    using handle_write_proc_result[OF assms] by blast
  with assms have "handle_write_proc (s_header cmd) t w d s = Ok (s', es)" by simp
  then have "(ar_ts s', ar_wr s') = max (ar_ts s, ar_wr s) (t, w) \<and>
     ar_val s' = (if (t, w) > (ar_ts s, ar_wr s) then d else ar_val s) \<and>
     s' = s\<lparr>ar_ts := ar_ts s', ar_wr := ar_wr s', ar_val := ar_val s'\<rparr> \<and>
     filter (\<lambda>e. \<not> is_store e) es =
       [Send (process_identifier (s_header cmd))
          (msg s (msg_ident (s_header cmd)) (s_sector_idx (s_header cmd)) Ack)]"
    by (cases rule: handle_write_proc_cases) (auto simp: max_def)
  with r show ?thesis by blast
qed

theorem write_proc_keeps_newest_witness:
  "\<exists>s' es. system_command id True (to_2 3 (WriteProc 4 3 (SectorVec [6]))) reader_of_3 = Ok (s', es) \<and>
     (ar_ts s', ar_wr s') = (4, 3) \<and> ar_val s' = SectorVec [6]"
  using write_proc_keeps_newest[of "to_2 3 (WriteProc 4 3 (SectorVec [6]))" 4 3 "SectorVec [6]" id True reader_of_3]
  by (auto simp: reader_of_3_def ar_new_def max_def)

text \<open>
  C25. When a system command panics. A \<open>Value\<close> or an \<open>Ack\<close> panics on a register that has had no
  client command since it was built (\<open>self.op_id.unwrap()\<close>), a \<open>Value\<close> also, in a build with
  overflow checks, when it makes a write choose the timestamp \<open>2^64 - 1\<close>. In every other case,
  and for every \<open>ReadProc\<close> and \<open>WriteProc\<close>, the handler returns.
\<close>

theorem system_command_panics:
  assumes "reg_inv s" and "iterates iter"
  shows "case system_command iter chk cmd s of
           Ok _ \<Rightarrow> (s_content cmd = ReadProc \<or> (\<exists>t w d. s_content cmd = WriteProc t w d) \<or> op_id s \<noteq> None) \<and>
                   \<not> (chk \<and> write_overflows iter cmd s)
         | Err _ \<Rightarrow> False
         | Panic p \<Rightarrow>
             op_id s = None \<and> p = UnwrapNone \<and> (s_content cmd = Ack \<or> (\<exists>t w d. s_content cmd = Value t w d)) \<or>
             chk \<and> write_overflows iter cmd s \<and> p = ArithmeticOverflow"
proof (cases "s_content cmd")
  case ReadProc
  then show ?thesis by (simp add: handle_read_proc_eq write_overflows_def)
next
  case (Value t w d)
  then show ?thesis using handle_value_result[OF assms(2) Value, where chk = chk and s = s] by (auto split: res.splits)
next
  case (WriteProc t w d)
  then obtain s' es where "system_command iter chk cmd s = Ok (s', es)"
    using handle_write_proc_result by blast
  with WriteProc show ?thesis by (simp add: write_overflows_def)
next
  case Ack
  then show ?thesis
    using handle_ack_result[OF assms(1) Ack, where iter = iter and chk = chk] by (auto simp: write_overflows_def split: res.splits)
qed

theorem system_command_panics_witness:
  "system_command id True (to_2 3 Ack) (ar_new 2 0 3 0 0 zero_sector :: nat AtomicRegisterState) = Panic UnwrapNone \<and>
   system_command id True (to_2 3 (Value 6 2 (SectorVec [6]))) (writer_of_3 (- 1)) = Panic ArithmeticOverflow \<and>
   (\<exists>x. system_command id False (to_2 3 (Value 6 2 (SectorVec [6]))) (writer_of_3 (- 1)) = Ok x)"
proof (intro conjI)
  show "system_command id True (to_2 3 Ack) (ar_new 2 0 3 0 0 zero_sector :: nat AtomicRegisterState) = Panic UnwrapNone"
    using system_command_panics[OF ar_new_inv[of 2 0 3 0 0 zero_sector] iterates_id(1), where chk = True and cmd = "to_2 3 Ack"]
    by (simp add: ar_new_def write_overflows_def split: res.splits)
  have o: "write_overflows id (to_2 3 (Value 6 2 (SectorVec [6]))) (writer_of_3 (- 1))"
    by (simp add: write_overflows_def of_3_simps)
  show "system_command id True (to_2 3 (Value 6 2 (SectorVec [6]))) (writer_of_3 (- 1)) = Panic ArithmeticOverflow"
    using system_command_panics[OF of_3_inv(2)[of "- 1"] iterates_id(1), where chk = True and cmd = "to_2 3 (Value 6 2 (SectorVec [6]))"] o
    by (auto simp: writer_of_3_def reader_of_3_def split: res.splits)
  show "\<exists>x. system_command id False (to_2 3 (Value 6 2 (SectorVec [6]))) (writer_of_3 (- 1)) = Ok x"
    using system_command_panics[OF of_3_inv(2)[of "- 1"] iterates_id(1), where chk = False and cmd = "to_2 3 (Value 6 2 (SectorVec [6]))"]
    by (auto simp: writer_of_3_def reader_of_3_def split: res.splits)
qed

text \<open>
  Delivering a system command twice in a row is the same as delivering it once: the second
  delivery leaves the register unchanged, writes nothing, broadcasts nothing and calls no callback;
  at most the reply to the sender is repeated.
\<close>

theorem redelivery_is_idempotent:
  assumes "system_command iter chk cmd s = Ok (s', es)"
  shows "\<exists>replies. system_command iter chk cmd s' = Ok (s', replies) \<and>
           (\<forall>e \<in> set replies. \<exists>m. e = Send (process_identifier (s_header cmd)) m)"
proof (cases "s_content cmd")
  case ReadProc
  then show ?thesis by (simp add: handle_read_proc_eq)
next
  case (Value t w d)
  with assms show ?thesis using handle_value_again[of iter chk "s_header cmd" t w d s s' es] by simp
next
  case (WriteProc t w d)
  with assms show ?thesis using handle_write_proc_again[of "s_header cmd" t w d s s' es] by simp
next
  case Ack
  with assms show ?thesis using handle_ack_again[of "s_header cmd" s s' es] by simp
qed

theorem redelivery_is_idempotent_witness:
  "\<exists>s' es. system_command id True (to_2 3 (Value 6 2 (SectorVec [6]))) (writer_of_3 5) = Ok (s', es) \<and>
     length es = 2 \<and>
     (\<exists>replies. system_command id True (to_2 3 (Value 6 2 (SectorVec [6]))) s' = Ok (s', replies))"
proof -
  have "\<exists>s' es. system_command id True (to_2 3 (Value 6 2 (SectorVec [6]))) (writer_of_3 5) = Ok (s', es) \<and> length es = 2"
    by (simp add: of_3_simps)
  then show ?thesis using redelivery_is_idempotent by blast
qed

text \<open>
  The entry chosen from the collected values is the lexicographically highest one by
  (timestamp, rank), as the algorithm asks, whenever the collected versions are ordered the same
  way by rank alone.
\<close>

theorem highest_is_lexicographic:
  assumes "iterates iter" and "l \<noteq> []"
    and "\<And>q e q' e'. (q, e) \<in> set l \<Longrightarrow> (q', e') \<in> set l \<Longrightarrow>
           fst (snd e) \<le> fst (snd e') \<Longrightarrow> (fst e, fst (snd e)) \<le> (fst e', fst (snd e'))"
  shows "\<exists>e \<in> snd ` set l. highest iter l = Some e \<and>
           (\<forall>e' \<in> snd ` set l. (fst e', fst (snd e')) \<le> (fst e, fst (snd e)))"
proof -
  obtain q e where h: "highest iter l = Some e" "(q, e) \<in> set l"
      "\<And>q' e'. (q', e') \<in> set l \<Longrightarrow> fst (snd e') \<le> fst (snd e)"
    by (rule highest_max[OF assms(1,2)]) (rule that)
  have "(fst e', fst (snd e')) \<le> (fst e, fst (snd e))" if "e' \<in> snd ` set l" for e'
  proof -
    from that obtain q' where "(q', e') \<in> set l" by auto
    then show ?thesis using assms(3)[OF _ h(2)] h(3) by blast
  qed
  moreover have "e \<in> snd ` set l" using h(2) by (rule image_eqI[rotated]) simp
  ultimately show ?thesis using h(1) by blast
qed

theorem highest_is_lexicographic_witness:
  "let l = [(1, (5, 1, SectorVec [5])), (2, (6, 2, SectorVec [6]))]
   in \<exists>e \<in> snd ` set l. highest rev l = Some e \<and> e = (6, 2, SectorVec [6])"
proof -
  let ?l = "[(1, (5, 1, SectorVec [5])), (2, (6, 2, SectorVec [6]))] :: readlist_map"
  have "(fst e, fst (snd e)) \<le> (fst e', fst (snd e'))"
    if "(q, e) \<in> set ?l" "(q', e') \<in> set ?l" "fst (snd e) \<le> fst (snd e')" for q e q' e'
    using that by (auto simp: word_le_nat_alt)
  from highest_is_lexicographic[OF iterates_id(2) _ this, of ?l]
  show ?thesis by (auto simp: word_le_nat_alt)
qed

text \<open>
  In general it is not: the comparison ignores the timestamp, so that of the two versions
  (1, 2) and (2, 1) the older one is chosen, in whatever order the map is visited.
\<close>

theorem highest_ignores_timestamp:
  assumes "iterates iter" and "fst (snd e) < fst (snd e')" and "(q, e) \<in> set l" and "(q', e') \<in> set l"
  shows "highest iter l \<noteq> Some e"
proof -
  have "l \<noteq> []" using assms(3) by auto
  then show ?thesis
  proof (rule highest_max[OF assms(1)])
    fix q0 e0 assume h: "highest iter l = Some e0" and
      "\<And>q' e'. (q', e') \<in> set l \<Longrightarrow> fst (snd e') \<le> fst (snd e0)"
    from this(2)[OF assms(4)] assms(2) have "e \<noteq> e0" by auto
    with h show ?thesis by simp
  qed
qed

theorem highest_ignores_timestamp_witness:
  "let l = [(1, (2, 1, SectorVec [2])), (2, (1, 2, SectorVec [1]))]
   in highest id l \<noteq> Some (2, 1, SectorVec [2]) \<and> highest rev l \<noteq> Some (2, 1, SectorVec [2])"
proof -
  note h = highest_ignores_timestamp[where e = "(2, 1, SectorVec [2])" and e' = "(1, 2, SectorVec [1])" and
      q = 1 and q' = 2 and l = "[(1, (2, 1, SectorVec [2])), (2, (1, 2, SectorVec [1]))]"]
  show ?thesis using h[OF iterates_id(1)] h[OF iterates_id(2)] by simp
qed

end
