(* ===== verification/Register_Client.thy ===== *)
theory Register_Client
  imports Transfer_Operations Atomic_Register
begin

text \<open>
  The component that carries messages between processes: \<^verbatim>\<open>src/solution/src/register_client.rs\<close>,
  and \<open>BufferClient\<close> of \<^verbatim>\<open>src/test-utils/atomic_register.rs\<close>, the other provider of the
  \<open>RegisterClient\<close> trait.

  An unbounded channel is a queue. Every peer has a channel to its writing task and one to its
  retransmission task, the process itself has one channel that stands in both maps. Whether a
  TCP connection can be made is a parameter. A channel whose receiving task is gone is closed, and
  sending on it fails.
\<close>

section \<open>Channels\<close>

datatype channel = SelfChannel | ConnectionChannel u8 | RetransmissionChannel u8

record channels =
  chan_queue :: "channel \<Rightarrow> SystemRegisterCommand list"
  chan_closed :: "channel set"

definition ch_send :: "panic \<Rightarrow> channel \<Rightarrow> SystemRegisterCommand \<Rightarrow> channels \<Rightarrow> channels res" where
  "ch_send p ch m env =
     (if ch \<in> chan_closed env then Panic p
      else Ok (env\<lparr>chan_queue := (chan_queue env)(ch := chan_queue env ch @ [m])\<rparr>))"

section \<open>The client of the solution\<close>

record RegisterClientState =
  rc_processes_count :: u8
  processes_txs :: "u8 \<rightharpoonup> channel"
  retransmission_txs :: "u8 \<rightharpoonup> channel"

type_synonym location = "string \<times> 16 word"

text \<open>
  The connecting loop of \<open>new\<close>. It also returns the ranks of the peers for which a writing and a
  retransmission task were spawned, in order.
\<close>

fun rc_connect ::
    "bool \<Rightarrow> (location \<Rightarrow> bool) \<Rightarrow> (location \<Rightarrow> bool) \<Rightarrow> u8 \<Rightarrow> location list \<Rightarrow> u8 list \<Rightarrow>
     (u8 \<rightharpoonup> channel) \<Rightarrow> (u8 \<rightharpoonup> channel) \<Rightarrow> u8 list \<Rightarrow> ((u8 \<rightharpoonup> channel) \<times> (u8 \<rightharpoonup> channel) \<times> u8 list) res" where
  "rc_connect chk connect nodelay self_id locs [] ptxs rtxs tasks = Ok (ptxs, rtxs, tasks)"
| "rc_connect chk connect nodelay self_id locs (i # is) ptxs rtxs tasks =
     res_bind (checked_sub chk self_id 1) (\<lambda>me.
     if i \<noteq> me then
       if unat i < length locs then
         if connect (locs ! unat i) then
           if nodelay (locs ! unat i) then
             res_bind (checked_add chk i 1) (\<lambda>process_ident.
             rc_connect chk connect nodelay self_id locs is
               (ptxs(process_ident \<mapsto> ConnectionChannel process_ident))
               (rtxs(process_ident \<mapsto> RetransmissionChannel process_ident))
               (tasks @ [process_ident]))
           else Panic (Expect ''Failed to set nodelay'')
         else Panic (Expect ''Failed to connect to process'')
       else Panic IndexOutOfBounds
     else rc_connect chk connect nodelay self_id locs is ptxs rtxs tasks)"

definition rc_new ::
    "bool \<Rightarrow> (location \<Rightarrow> bool) \<Rightarrow> (location \<Rightarrow> bool) \<Rightarrow> u8 \<Rightarrow> u8 \<Rightarrow> location list \<Rightarrow>
     (RegisterClientState \<times> u8 list) res" where
  "rc_new chk connect nodelay self_id n locs =
     res_bind (rc_connect chk connect nodelay self_id locs (map of_nat [0..<unat n])
                 [self_id \<mapsto> SelfChannel] [self_id \<mapsto> SelfChannel] []) (\<lambda>(ptxs, rtxs, tasks).
     Ok (\<lparr>rc_processes_count = n, processes_txs = ptxs, retransmission_txs = rtxs\<rparr>, tasks))"

definition rc_send ::
    "RegisterClientState \<Rightarrow> u8 \<Rightarrow> SystemRegisterCommand \<Rightarrow> channels \<Rightarrow> channels res" where
  "rc_send st target cmd env =
     res_bind (unwrap_opt (Expect ''No such process'') (processes_txs st target)) (\<lambda>channel.
     res_bind (ch_send (Expect ''Failed to pass the message to sender task'') channel cmd env) (\<lambda>env.
     res_bind (unwrap_opt (Expect ''No such process'') (retransmission_txs st target)) (\<lambda>retransmission_channel.
     ch_send (Expect ''Failed to pass the message to retransmission task'') retransmission_channel cmd env)))"

fun rc_broadcast_to ::
    "RegisterClientState \<Rightarrow> SystemRegisterCommand \<Rightarrow> u8 list \<Rightarrow> channels \<Rightarrow> channels res" where
  "rc_broadcast_to st cmd [] env = Ok env"
| "rc_broadcast_to st cmd (target # targets) env =
     res_bind (unwrap_opt (Expect ''No such process'') (processes_txs st target)) (\<lambda>channel.
     res_bind (ch_send (Expect ''Failed to pass the message to sender task'') channel cmd env) (\<lambda>env.
     res_bind (unwrap_opt (Expect ''No such process'') (retransmission_txs st target)) (\<lambda>retransmission_channel.
     res_bind (ch_send (Expect ''Failed to pass the message to retransmission task'')
                 retransmission_channel cmd env)
       (rc_broadcast_to st cmd targets))))"

definition ranks :: "u8 \<Rightarrow> u8 list" where
  "ranks n = map of_nat [1..<Suc (unat n)]"

definition rc_broadcast ::
    "RegisterClientState \<Rightarrow> SystemRegisterCommand \<Rightarrow> channels \<Rightarrow> channels res" where
  "rc_broadcast st cmd env = rc_broadcast_to st cmd (ranks (rc_processes_count st)) env"

text \<open>
  The writing task of a peer, fed with the messages it takes from its channel: each one is
  serialized to the socket, and the result of that is ignored, unless it is a panic.
\<close>

fun handle_writing ::
    "'m mac_api \<Rightarrow> 'w writer \<Rightarrow> bytes \<Rightarrow> SystemRegisterCommand list \<Rightarrow> 'w \<Rightarrow> unit res \<times> 'w" where
  "handle_writing M wr hmac_system_key [] w = (Ok (), w)"
| "handle_writing M wr hmac_system_key (m # ms) w =
     (case serialize_rc M wr (System m) hmac_system_key w of
        (Panic p, w') \<Rightarrow> (Panic p, w')
      | (_, w') \<Rightarrow> handle_writing M wr hmac_system_key ms w')"

section \<open>Retransmission\<close>

text \<open>
  The retransmission task of a peer. Time is in milliseconds. \<open>tick_at\<close> is the next instant at which
  the interval completes; it stays on its grid of \<open>DELAY\<close> when a tick is late. The select is
  biased: a due tick is taken before a waiting message.
\<close>

definition DELAY :: nat where
  "DELAY = 500"

record retransmission =
  rt_cmd :: "SystemRegisterCommand option"
  tick_at :: nat

definition rt_start :: "nat \<Rightarrow> retransmission" where
  "rt_start now = \<lparr>rt_cmd = None, tick_at = now + DELAY\<rparr>"

definition handle_retransmission ::
    "nat \<Rightarrow> bool \<Rightarrow> SystemRegisterCommand list \<Rightarrow> retransmission \<Rightarrow>
     retransmission \<times> SystemRegisterCommand list \<times> SystemRegisterCommand list" where
  "handle_retransmission now closed rx s =
     (if tick_at s \<le> now then
        (s\<lparr>tick_at := tick_at s + DELAY\<rparr>, rx, case rt_cmd s of Some command \<Rightarrow> [command] | None \<Rightarrow> [])
      else case rx of
             m # ms \<Rightarrow> (s\<lparr>rt_cmd := Some m, tick_at := now + DELAY\<rparr>, ms, [])
           | [] \<Rightarrow> if closed then (s\<lparr>rt_cmd := None, tick_at := now + DELAY\<rparr>, [], []) else (s, [], []))"

section \<open>The client of the tests\<close>

record BufferClient =
  bc_processes_count :: u8
  buffer :: "(u8 \<times> SystemRegisterCommand) list"

definition bc_send :: "u8 \<Rightarrow> SystemRegisterCommand \<Rightarrow> BufferClient \<Rightarrow> BufferClient res" where
  "bc_send target cmd s = Ok (s\<lparr>buffer := buffer s @ [(target, cmd)]\<rparr>)"

fun bc_broadcast_to :: "bool \<Rightarrow> SystemRegisterCommand \<Rightarrow> u8 list \<Rightarrow> BufferClient \<Rightarrow> BufferClient res" where
  "bc_broadcast_to chk cmd [] s = Ok s"
| "bc_broadcast_to chk cmd (target # targets) s =
     res_bind (checked_add chk target 1) (\<lambda>t.
     res_bind (bc_send t cmd s) (bc_broadcast_to chk cmd targets))"

definition bc_broadcast :: "bool \<Rightarrow> SystemRegisterCommand \<Rightarrow> BufferClient \<Rightarrow> BufferClient res" where
  "bc_broadcast chk cmd s = bc_broadcast_to chk cmd (map of_nat [0..<unat (bc_processes_count s)]) s"

section \<open>Building the client\<close>

lemma unat_u8_less: "unat (x :: u8) < 256"
  by (rule order_less_le_trans, rule unsigned_less) simp

lemma unat_of_nat_u8: "k < 256 \<Longrightarrow> unat (of_nat k :: u8) = k"
  by (simp add: unat_of_nat take_bit_nat_eq_self)

lemma checked_add_u8: "unat (i :: u8) < 255 \<Longrightarrow> checked_add chk i 1 = Ok (i + 1)"
  by (simp add: checked_add_def)

lemma checked_sub_one: "(x :: u8) \<noteq> 0 \<Longrightarrow> checked_sub chk x 1 = Ok (x - 1)"
  by (simp add: checked_sub_def word_less_nat_alt unat_eq_zero)

definition reachable_peers :: "(location \<Rightarrow> bool) \<Rightarrow> u8 \<Rightarrow> location list \<Rightarrow> u8 list \<Rightarrow> bool" where
  "reachable_peers connect self_id locs is \<longleftrightarrow>
     (\<forall>i \<in> set is. i \<noteq> self_id - 1 \<longrightarrow> unat i < length locs \<and> connect (locs ! unat i))"

lemma rc_connect_eq:
  assumes "self_id \<noteq> 0" and "\<forall>i \<in> set is. unat i < 255"
    and "reachable_peers connect self_id locs is" and "reachable_peers nodelay self_id locs is"
  shows "rc_connect chk connect nodelay self_id locs is ptxs rtxs tasks =
    Ok ((\<lambda>p. if p \<noteq> self_id \<and> p - 1 \<in> set is then Some (ConnectionChannel p) else ptxs p),
        (\<lambda>p. if p \<noteq> self_id \<and> p - 1 \<in> set is then Some (RetransmissionChannel p) else rtxs p),
        tasks @ map (\<lambda>i. i + 1) (filter (\<lambda>i. i \<noteq> self_id - 1) is))"
  using assms(2-4)
proof (induction "is" arbitrary: ptxs rtxs tasks)
  case (Cons i "is")
  show ?case
  proof (cases "i = self_id - 1")
    case True
    then have *: "p \<noteq> self_id \<and> (p = self_id \<or> p - 1 \<in> A) \<longleftrightarrow> p \<noteq> self_id \<and> p - 1 \<in> A" for p A by blast
    have "p - 1 = i \<longleftrightarrow> p = self_id" for p using True by auto
    then show ?thesis
      using True Cons.prems Cons.IH[of ptxs rtxs tasks]
      by (simp add: checked_sub_one[OF assms(1)] reachable_peers_def * cong: if_cong)
  next
    case False
    then have "i + 1 \<noteq> self_id" by auto
    then have upd: "(\<lambda>p. if p \<noteq> self_id \<and> p - 1 \<in> set is then Some (c p) else (m(i + 1 \<mapsto> c (i + 1))) p) =
        (\<lambda>p. if p \<noteq> self_id \<and> p - 1 \<in> set (i # is) then Some (c p) else m p)" for c :: "u8 \<Rightarrow> channel" and m
      by (auto simp: fun_eq_iff)
    note IH = Cons.IH[of "ptxs(i + 1 \<mapsto> ConnectionChannel (i + 1))" "rtxs(i + 1 \<mapsto> RetransmissionChannel (i + 1))" "tasks @ [i + 1]",
        unfolded upd]
    have i: "unat i < 255" "unat i < length locs" "connect (locs ! unat i)" "nodelay (locs ! unat i)"
      using Cons.prems False by (auto simp: reachable_peers_def)
    have p: "\<forall>i \<in> set is. unat i < 255" "reachable_peers connect self_id locs is" "reachable_peers nodelay self_id locs is"
      using Cons.prems by (auto simp: reachable_peers_def)
    show ?thesis
      unfolding rc_connect.simps checked_sub_one[OF assms(1)] checked_add_u8[OF i(1)] res_bind.simps
      using False i by (simp add: IH[OF p] del: list.set fun_upd_apply)
  qed
qed simp

text \<open>The maps of a client in a system of \<open>n\<close> processes.\<close>

definition rc_ok :: "u8 \<Rightarrow> RegisterClientState \<Rightarrow> bool" where
  "rc_ok self_id st \<longleftrightarrow>
     self_id \<in> set (ranks (rc_processes_count st)) \<and>
     processes_txs st = (\<lambda>p. if p = self_id then Some SelfChannel
        else if p \<in> set (ranks (rc_processes_count st)) then Some (ConnectionChannel p) else None) \<and>
     retransmission_txs st = (\<lambda>p. if p = self_id then Some SelfChannel
        else if p \<in> set (ranks (rc_processes_count st)) then Some (RetransmissionChannel p) else None)"

lemma set_ranks: "p \<in> set (ranks n) \<longleftrightarrow> 1 \<le> unat p \<and> unat p \<le> unat n"
proof
  assume "1 \<le> unat p \<and> unat p \<le> unat n"
  then have "unat p \<in> set [1..<Suc (unat n)]" by (simp only: set_upt atLeastLessThan_iff less_Suc_eq_le)
  then show "p \<in> set (ranks n)"
    unfolding ranks_def set_map by (rule image_eqI[rotated]) simp
next
  assume "p \<in> set (ranks n)"
  then obtain k where k: "p = of_nat k" "1 \<le> k" "k \<le> unat n" by (auto simp: ranks_def)
  have "unat p = k" unfolding k(1) by (rule unat_of_nat_u8[OF le_less_trans[OF k(3) unat_u8_less]])
  with k show "1 \<le> unat p \<and> unat p \<le> unat n" by simp
qed

lemma distinct_ranks: "distinct (ranks n)"
proof -
  have "x = y" if "of_nat x = (of_nat y :: u8)" "x \<le> unat n" "y \<le> unat n" for x y
  proof -
    have "unat (of_nat x :: u8) = x" "unat (of_nat y :: u8) = y"
      using le_less_trans[OF _ unat_u8_less] that(2,3) by (blast intro: unat_of_nat_u8)+
    with that(1) show ?thesis by metis
  qed
  then show ?thesis by (auto simp: ranks_def distinct_map inj_on_def)
qed

lemma ranks_shift: "ranks n = map (\<lambda>i. i + 1) (map of_nat [0..<unat n])"
  unfolding ranks_def map_Suc_upt[symmetric] One_nat_def by (simp add: add.commute)

lemma shifted_index: "p - 1 \<in> set (map of_nat [0..<unat n]) \<longleftrightarrow> p \<in> set (ranks n)"
  unfolding ranks_shift set_map by (metis (no_types, lifting) diff_add_cancel add_diff_cancel_right' image_iff)

lemma rc_new_ok:
  assumes "self_id \<in> set (ranks n)"
    and "reachable_peers connect self_id locs (map of_nat [0..<unat n])"
    and "reachable_peers nodelay self_id locs (map of_nat [0..<unat n])"
  shows "\<exists>st. rc_new chk connect nodelay self_id n locs = Ok (st, filter (\<lambda>p. p \<noteq> self_id) (ranks n)) \<and>
              rc_processes_count st = n \<and> rc_ok self_id st"
proof -
  have nz: "self_id \<noteq> 0" using assms(1) by (auto simp: set_ranks)
  have b: "\<forall>i \<in> set (map of_nat [0..<unat n]). unat (i :: u8) < 255"
    using unat_u8_less[of n] by (auto simp: unat_of_nat_u8)
  have t: "map (\<lambda>i. i + 1) (filter (\<lambda>i. i \<noteq> self_id - 1) xs) = filter (\<lambda>p. p \<noteq> self_id) (map (\<lambda>i. i + 1) xs)" for xs
    by (induction xs) auto
  show ?thesis
    unfolding rc_new_def rc_connect_eq[OF nz b assms(2,3)] t ranks_shift[symmetric] append_Nil
    using assms(1) by (auto simp only: shifted_index rc_ok_def res_bind.simps prod.case RegisterClientState.simps
        fun_upd_apply split: if_splits intro!: exI)
qed

section \<open>Sending\<close>

definition copies :: "u8 \<Rightarrow> u8 set \<Rightarrow> SystemRegisterCommand \<Rightarrow> channel \<Rightarrow> SystemRegisterCommand list" where
  "copies self_id T m ch =
     (case ch of
        SelfChannel \<Rightarrow> if self_id \<in> T then [m, m] else []
      | ConnectionChannel p \<Rightarrow> if p \<in> T \<and> p \<noteq> self_id then [m] else []
      | RetransmissionChannel p \<Rightarrow> if p \<in> T \<and> p \<noteq> self_id then [m] else [])"

lemma rc_send_eq:
  assumes "rc_ok self_id st" and "p \<in> set (ranks (rc_processes_count st))" and "chan_closed env = {}"
  shows "rc_send st p m env = Ok (env\<lparr>chan_queue := \<lambda>ch. chan_queue env ch @ copies self_id {p} m ch\<rparr>)"
  using assms
  by (auto simp: rc_send_def rc_ok_def ch_send_def copies_def fun_eq_iff split: channel.split)

lemma rc_broadcast_to_Cons:
  "rc_broadcast_to st m (t # ts) env = res_bind (rc_send st t m env) (rc_broadcast_to st m ts)"
  by (simp add: rc_send_def res_bind_assoc)

lemma copies_insert:
  "t \<notin> T \<Longrightarrow> copies self_id {t} m ch @ copies self_id T m ch = copies self_id (insert t T) m ch"
  by (auto simp: copies_def split: channel.split)

lemma rc_broadcast_to_eq:
  assumes "rc_ok self_id st"
  shows "set ts \<subseteq> set (ranks (rc_processes_count st)) \<Longrightarrow> distinct ts \<Longrightarrow> chan_closed env = {} \<Longrightarrow>
    rc_broadcast_to st m ts env = Ok (env\<lparr>chan_queue := \<lambda>ch. chan_queue env ch @ copies self_id (set ts) m ch\<rparr>)"
proof (induction ts arbitrary: env)
  case Nil
  have "copies self_id {} m ch = []" for ch by (simp add: copies_def split: channel.split)
  then show ?case by simp
next
  case (Cons t ts)
  then show ?case
    unfolding rc_broadcast_to_Cons
    by (simp add: rc_send_eq[OF assms] copies_insert del: rc_broadcast_to.simps)
qed

lemma rc_broadcast_eq:
  assumes "rc_ok self_id st" and "chan_closed env = {}"
  shows "rc_broadcast st m env =
    Ok (env\<lparr>chan_queue := \<lambda>ch. chan_queue env ch @ copies self_id (set (ranks (rc_processes_count st))) m ch\<rparr>)"
  unfolding rc_broadcast_def by (rule rc_broadcast_to_eq[OF assms(1) _ distinct_ranks assms(2)]) simp

section \<open>The contract of the trait\<close>

text \<open>
  What an atomic register relies on: a message is handed over to its destination at least once,
  behind everything handed over to it before, and to nobody else; a broadcast reaches every
  process of the system. \<open>handed s p\<close> is the sequence of messages under way to process \<open>p\<close>.
\<close>

locale register_links =
  fixes inv :: "'s \<Rightarrow> bool"
    and procs :: "'s \<Rightarrow> u8 set"
    and handed :: "'s \<Rightarrow> u8 \<Rightarrow> SystemRegisterCommand list"
    and send :: "u8 \<Rightarrow> SystemRegisterCommand \<Rightarrow> 's \<Rightarrow> 's res"
    and broadcast :: "SystemRegisterCommand \<Rightarrow> 's \<Rightarrow> 's res"
  assumes send_ok: "inv s \<Longrightarrow> p \<in> procs s \<Longrightarrow>
      \<exists>s' k. send p m s = Ok s' \<and> inv s' \<and> procs s' = procs s \<and> 0 < k \<and>
             (\<forall>q. handed s' q = handed s q @ (if q = p then replicate k m else []))"
    and broadcast_ok: "inv s \<Longrightarrow>
      \<exists>s' k. broadcast m s = Ok s' \<and> inv s' \<and> procs s' = procs s \<and>
             (\<forall>q. (q \<in> procs s \<longrightarrow> 0 < k q) \<and>
                  handed s' q = handed s q @ (if q \<in> procs s then replicate (k q) m else []))"

text \<open>The messages of a list of effects that go to process \<open>p\<close>, and repeating them.\<close>

fun sent_to :: "u8 \<Rightarrow> 'cb ar_effect list \<Rightarrow> SystemRegisterCommand list" where
  "sent_to p [] = []"
| "sent_to p (Send q m # es) = (if q = p then m # sent_to p es else sent_to p es)"
| "sent_to p (Broadcast m # es) = m # sent_to p es"
| "sent_to p (_ # es) = sent_to p es"

fun send_targets :: "'cb ar_effect list \<Rightarrow> u8 set" where
  "send_targets [] = {}"
| "send_targets (Send q m # es) = insert q (send_targets es)"
| "send_targets (Broadcast m # es) = send_targets es"
| "send_targets (Store i x # es) = send_targets es"
| "send_targets (Callback cb r # es) = send_targets es"

inductive stutters :: "'a list \<Rightarrow> 'a list \<Rightarrow> bool" where
  stutters_Nil: "stutters [] []"
| stutters_Cons: "stutters xs ys \<Longrightarrow> 0 < k \<Longrightarrow> stutters (x # xs) (replicate k x @ ys)"

inductive_simps stutters_Nil_simp [simp]: "stutters [] ys"

lemma stutters_set: "stutters xs ys \<Longrightarrow> set ys = set xs"
  by (induction rule: stutters.induct) auto

fun perform_sends ::
    "(u8 \<Rightarrow> SystemRegisterCommand \<Rightarrow> 's \<Rightarrow> 's res) \<Rightarrow> (SystemRegisterCommand \<Rightarrow> 's \<Rightarrow> 's res) \<Rightarrow>
     'cb ar_effect list \<Rightarrow> 's \<Rightarrow> 's res" where
  "perform_sends send broadcast [] s = Ok s"
| "perform_sends send broadcast (Send p m # es) s = res_bind (send p m s) (perform_sends send broadcast es)"
| "perform_sends send broadcast (Broadcast m # es) s = res_bind (broadcast m s) (perform_sends send broadcast es)"
| "perform_sends send broadcast (_ # es) s = perform_sends send broadcast es s"

context register_links
begin

lemma effects_handed:
  "inv s \<Longrightarrow> send_targets es \<subseteq> procs s \<Longrightarrow>
     \<exists>s'. perform_sends send broadcast es s = Ok s' \<and> inv s' \<and> procs s' = procs s \<and>
          (\<forall>p. \<exists>ys. handed s' p = handed s p @ ys \<and>
                  (if p \<in> procs s then stutters (sent_to p es) ys else ys = []))"
proof (induction es arbitrary: s rule: send_targets.induct)
  case (2 q m es)
  obtain s1 k where s1: "send q m s = Ok s1" "inv s1" "procs s1 = procs s" "0 < k"
      "\<And>p. handed s1 p = handed s p @ (if p = q then replicate k m else [])"
    using send_ok[OF 2(2), of q m] 2(3) by auto
  obtain s' where s': "perform_sends send broadcast es s1 = Ok s'" "inv s'" "procs s' = procs s"
      "\<And>p. \<exists>ys. handed s' p = handed s1 p @ ys \<and> (if p \<in> procs s then stutters (sent_to p es) ys else ys = [])"
    using 2(1)[OF s1(2)] 2(3) s1(3) by auto
  have "\<exists>ys. handed s' p = handed s p @ ys \<and>
      (if p \<in> procs s then stutters (sent_to p (Send q m # es)) ys else ys = [])" for p
    using s'(4)[of p] s1(4,5) 2(3) by (auto intro: stutters_Cons)
  with s1 s' show ?case by auto
next
  case (3 m es)
  obtain s1 k where s1: "broadcast m s = Ok s1" "inv s1" "procs s1 = procs s"
      "\<And>p. p \<in> procs s \<Longrightarrow> 0 < k p"
      "\<And>p. handed s1 p = handed s p @ (if p \<in> procs s then replicate (k p) m else [])"
    using broadcast_ok[OF 3(2), of m] by auto
  obtain s' where s': "perform_sends send broadcast es s1 = Ok s'" "inv s'" "procs s' = procs s"
      "\<And>p. \<exists>ys. handed s' p = handed s1 p @ ys \<and> (if p \<in> procs s then stutters (sent_to p es) ys else ys = [])"
    using 3(1)[OF s1(2)] 3(3) s1(3) by auto
  have "\<exists>ys. handed s' p = handed s p @ ys \<and>
      (if p \<in> procs s then stutters (sent_to p (Broadcast m # es)) ys else ys = [])" for p
    using s'(4)[of p] s1(4,5) by (cases "p \<in> procs s") (auto intro: stutters_Cons)
  with s1 s' show ?case by auto
next
  case (4 i x es)
  from 4(1)[OF 4(2)] 4(3) show ?case by (simp only: send_targets.simps sent_to.simps perform_sends.simps)
next
  case (5 cb r es)
  from 5(1)[OF 5(2)] 5(3) show ?case by (simp only: send_targets.simps sent_to.simps perform_sends.simps)
qed auto

end

text \<open>The client of the solution, with its channels.\<close>

definition rc_inv :: "RegisterClientState \<times> channels \<Rightarrow> bool" where
  "rc_inv s \<longleftrightarrow> (\<exists>self_id. rc_ok self_id (fst s)) \<and> chan_closed (snd s) = {}"

definition rc_procs :: "RegisterClientState \<times> channels \<Rightarrow> u8 set" where
  "rc_procs s = set (ranks (rc_processes_count (fst s)))"

definition rc_handed :: "RegisterClientState \<times> channels \<Rightarrow> u8 \<Rightarrow> SystemRegisterCommand list" where
  "rc_handed s p = (case processes_txs (fst s) p of None \<Rightarrow> [] | Some ch \<Rightarrow> chan_queue (snd s) ch)"

definition rc_send_in ::
    "u8 \<Rightarrow> SystemRegisterCommand \<Rightarrow> RegisterClientState \<times> channels \<Rightarrow> (RegisterClientState \<times> channels) res" where
  "rc_send_in p m s = res_bind (rc_send (fst s) p m (snd s)) (\<lambda>env. Ok (fst s, env))"

definition rc_broadcast_in ::
    "SystemRegisterCommand \<Rightarrow> RegisterClientState \<times> channels \<Rightarrow> (RegisterClientState \<times> channels) res" where
  "rc_broadcast_in m s = res_bind (rc_broadcast (fst s) m (snd s)) (\<lambda>env. Ok (fst s, env))"

lemma rc_handed_copies:
  assumes "rc_ok self_id st" and "T \<subseteq> set (ranks (rc_processes_count st))"
  shows "rc_handed (st, env\<lparr>chan_queue := \<lambda>ch. chan_queue env ch @ copies self_id T m ch\<rparr>) q =
    rc_handed (st, env) q @ (if q \<in> T then replicate (if q = self_id then 2 else 1) m else [])"
  using assms by (auto simp: rc_handed_def rc_ok_def copies_def numeral_2_eq_2)

interpretation tcp_links: register_links rc_inv rc_procs rc_handed rc_send_in rc_broadcast_in
proof (unfold_locales, goal_cases)
  case (1 s p m)
  then obtain self_id where ok: "rc_ok self_id (fst s)" "chan_closed (snd s) = {}" by (auto simp: rc_inv_def)
  let ?env = "(snd s)\<lparr>chan_queue := \<lambda>ch. chan_queue (snd s) ch @ copies self_id {p} m ch\<rparr>"
  have "rc_send_in p m s = Ok (fst s, ?env)"
    using 1(2) by (simp add: rc_send_in_def rc_send_eq[OF ok(1) _ ok(2)] rc_procs_def)
  moreover have "rc_inv (fst s, ?env)" using ok by (auto simp: rc_inv_def)
  moreover have "rc_handed (fst s, ?env) q = rc_handed s q @ (if q = p then replicate (if p = self_id then 2 else 1) m else [])" for q
    using rc_handed_copies[OF ok(1), of "{p}" "snd s" m q] 1(2) by (auto simp: rc_procs_def)
  ultimately show ?case
    by (intro exI[of _ "(fst s, ?env)"] exI[of _ "if p = self_id then 2 else 1"]) (simp add: rc_procs_def)
next
  case (2 s m)
  then obtain self_id where ok: "rc_ok self_id (fst s)" "chan_closed (snd s) = {}" by (auto simp: rc_inv_def)
  let ?env = "(snd s)\<lparr>chan_queue := \<lambda>ch. chan_queue (snd s) ch @ copies self_id (rc_procs s) m ch\<rparr>"
  have "rc_broadcast_in m s = Ok (fst s, ?env)"
    by (simp add: rc_broadcast_in_def rc_broadcast_eq[OF ok] rc_procs_def)
  moreover have "rc_inv (fst s, ?env)" using ok by (auto simp: rc_inv_def)
  moreover have "rc_handed (fst s, ?env) q =
      rc_handed s q @ (if q \<in> rc_procs s then replicate (if q = self_id then 2 else 1) m else [])" for q
    using rc_handed_copies[OF ok(1), of "rc_procs s" "snd s" m q] by (simp add: rc_procs_def)
  ultimately show ?case
    by (intro exI[of _ "(fst s, ?env)"] exI[of _ "\<lambda>q. if q = self_id then 2 else 1"]) (simp add: rc_procs_def)
qed

text \<open>The buffer of the tests hands over exactly one copy.\<close>

definition bc_procs :: "BufferClient \<Rightarrow> u8 set" where
  "bc_procs s = set (ranks (bc_processes_count s))"

definition bc_handed :: "BufferClient \<Rightarrow> u8 \<Rightarrow> SystemRegisterCommand list" where
  "bc_handed s p = map snd (filter (\<lambda>x. fst x = p) (buffer s))"

lemma bc_broadcast_to_eq:
  "\<forall>t \<in> set ts. unat t < 255 \<Longrightarrow>
     bc_broadcast_to chk m ts s = Ok (s\<lparr>buffer := buffer s @ map (\<lambda>t. (t + 1, m)) ts\<rparr>)"
  by (induction ts arbitrary: s) (simp_all add: bc_send_def checked_add_u8)

lemma bc_broadcast_eq:
  "bc_broadcast chk m s = Ok (s\<lparr>buffer := buffer s @ map (\<lambda>t. (t, m)) (ranks (bc_processes_count s))\<rparr>)"
proof -
  have "\<forall>t \<in> set (map of_nat [0..<unat (bc_processes_count s)]). unat (t :: u8) < 255"
    using unat_u8_less[of "bc_processes_count s"] by (auto simp: unat_of_nat_u8)
  from bc_broadcast_to_eq[OF this] show ?thesis
    unfolding bc_broadcast_def ranks_shift by (simp add: comp_def)
qed

lemma filter_once: "distinct xs \<Longrightarrow> filter (\<lambda>x. x = p) xs = (if p \<in> set xs then [p] else [])"
  by (induction xs) auto

interpretation buffer_links: register_links "\<lambda>_. True" bc_procs bc_handed bc_send "bc_broadcast chk" for chk
proof (unfold_locales, goal_cases)
  case (1 s p m)
  show ?case
    by (intro exI[of _ "s\<lparr>buffer := buffer s @ [(p, m)]\<rparr>"] exI[of _ 1])
      (simp add: bc_send_def bc_procs_def bc_handed_def)
next
  case (2 s m)
  show ?case
    by (intro exI[of _ "s\<lparr>buffer := buffer s @ map (\<lambda>t. (t, m)) (ranks (bc_processes_count s))\<rparr>"] exI[of _ "\<lambda>_. 1"])
      (simp add: bc_broadcast_eq bc_procs_def bc_handed_def filter_map comp_def filter_once distinct_ranks)
qed

section \<open>What travels over a connection\<close>

text \<open>Taking the next \<open>k\<close> commands from a connection, as its reading loop does.\<close>

fun receive_commands ::
    "'r reader \<Rightarrow> 'm mac_api \<Rightarrow> bytes \<Rightarrow> bytes \<Rightarrow> nat \<Rightarrow> 'r \<Rightarrow> ((RegisterCommand \<times> bool) list \<times> 'r) res option" where
  "receive_commands rd M sk ck 0 r = Some (Ok ([], r))"
| "receive_commands rd M sk ck (Suc k) r =
     (case deserialize_rc rd M sk ck r of
        None \<Rightarrow> None
      | Some (Ok (c, r')) \<Rightarrow>
          map_option (\<lambda>m. res_bind m (\<lambda>(cs, r''). Ok (c # cs, r''))) (receive_commands rd M sk ck k r')
      | Some (Err e) \<Rightarrow> Some (Err e)
      | Some (Panic p) \<Rightarrow> Some (Panic p))"

definition on_wire :: "(bytes \<Rightarrow> bytes \<Rightarrow> bytes) \<Rightarrow> bytes \<Rightarrow> SystemRegisterCommand \<Rightarrow> bytes" where
  "on_wire tag k m = serialize_unsigned (System m) @ tag k (serialize_unsigned (System m))"

lemma handle_writing_eq:
  assumes "hmac_spec M tag fed"
  shows "handle_writing M vec_write k ms w = (Ok (), w @ concat (map (on_wire tag k) ms))"
  by (induction ms arbitrary: w) (simp_all add: serialize_rc_eq[OF assms] on_wire_def)

lemma receive_on_wire:
  assumes "hmac_spec M tag fed"
  shows "\<forall>m \<in> set ms. wf_command (System m) \<Longrightarrow>
    receive_commands slice_read M sk ck (length ms) (concat (map (on_wire tag sk) ms) @ rest) =
      Some (Ok (map (\<lambda>m. (System m, True)) ms, rest))"
proof (induction ms)
  case (Cons m ms)
  have "deserialize_rc slice_read M sk ck (on_wire tag sk m @ xs) = Some (Ok ((System m, True), xs))" for xs
    using decode_serialized[of "System m" "tag sk (serialize_unsigned (System m))" "[]" tag sk ck UnexpectedEof xs]
      Cons.prems hmac_specD(5)[OF assms] find_magic_nil[of "[]"]
    by (simp add: on_wire_def slice_reader.deserialize_rc_eq[OF assms] command_key_def)
  with Cons show ?case by simp
qed simp

section \<open>Runs of the retransmission task\<close>

text \<open>
  A run polls the task at given times; before each poll some messages may have arrived on its
  channel. The result has the messages it passed on to the writing task, in order.
\<close>

fun rt_run ::
    "(nat \<times> SystemRegisterCommand list) list \<Rightarrow> SystemRegisterCommand list \<Rightarrow> retransmission \<Rightarrow>
     retransmission \<times> SystemRegisterCommand list \<times> SystemRegisterCommand list" where
  "rt_run [] rx s = (s, rx, [])"
| "rt_run ((now, arrived) # polls) rx s =
     (case handle_retransmission now False (rx @ arrived) s of (s', rx', sent) \<Rightarrow>
      case rt_run polls rx' s' of (s'', rx'', sent') \<Rightarrow> (s'', rx'', sent @ sent'))"

lemma rt_run_due:
  assumes "rt_cmd s = Some m"
  shows "\<forall>i < length ts. tick_at s + i * DELAY \<le> ts ! i \<Longrightarrow>
    snd (snd (rt_run (map (\<lambda>t. (t, [])) ts) [] s)) = replicate (length ts) m"
  using assms
proof (induction ts arbitrary: s)
  case (Cons t ts)
  have "tick_at s \<le> t" using Cons.prems(1) by force
  moreover have "\<forall>i < length ts. tick_at s + DELAY + i * DELAY \<le> ts ! i"
  proof (intro allI impI)
    fix i assume "i < length ts"
    then show "tick_at s + DELAY + i * DELAY \<le> ts ! i" using Cons.prems(1)[rule_format, of "Suc i"] by simp
  qed
  ultimately show ?case
    using Cons.IH[of "s\<lparr>tick_at := tick_at s + DELAY\<rparr>"] Cons.prems(2)
    by (auto simp: handle_retransmission_def split: prod.splits)
qed simp

lemma rt_step_rate:
  assumes "handle_retransmission now False rx s = (s', rx', sent)" and "tick_at s \<le> now + DELAY"
  shows "tick_at s + length sent * DELAY \<le> tick_at s' \<and> tick_at s' \<le> now + DELAY"
  using assms by (auto simp: handle_retransmission_def split: if_splits list.splits option.splits)

lemma rt_run_rate:
  "rt_run polls rx s = (s', rx', sent) \<Longrightarrow> sorted (map fst polls) \<Longrightarrow> \<forall>x \<in> set polls. tick_at s \<le> fst x + DELAY \<Longrightarrow>
     tick_at s + length sent * DELAY \<le> tick_at s' \<and> (\<forall>T. (\<forall>x \<in> set polls. fst x \<le> T) \<longrightarrow> polls \<noteq> [] \<longrightarrow> tick_at s' \<le> T + DELAY)"
proof (induction polls rx s arbitrary: sent rule: rt_run.induct)
  case (2 now arrived polls rx s)
  obtain s1 rx1 sent1 where r1: "handle_retransmission now False (rx @ arrived) s = (s1, rx1, sent1)"
    by (cases "handle_retransmission now False (rx @ arrived) s") auto
  obtain sent2 where r2: "rt_run polls rx1 s1 = (s', rx', sent2)" "sent = sent1 @ sent2"
    using 2(2) r1 by (auto split: prod.splits)
  have st: "tick_at s + length sent1 * DELAY \<le> tick_at s1" "tick_at s1 \<le> now + DELAY"
    using rt_step_rate[OF r1] 2(4) by auto
  have "\<forall>x \<in> set polls. tick_at s1 \<le> fst x + DELAY" using st(2) 2(3) by force
  from 2(1)[OF r1[symmetric] refl r2(1) _ this] 2(3) st r2
  show ?case by (cases "polls = []") (auto simp: add_mult_distrib)
qed simp

lemma rt_run_sources:
  "rt_run polls rx s = (s', rx', sent) \<Longrightarrow>
     set sent \<subseteq> set_option (rt_cmd s) \<union> set rx \<union> (\<Union>x \<in> set polls. set (snd x))"
proof (induction polls rx s arbitrary: sent rule: rt_run.induct)
  case (2 now arrived polls rx s)
  obtain s1 rx1 sent1 where r1: "handle_retransmission now False (rx @ arrived) s = (s1, rx1, sent1)"
    by (cases "handle_retransmission now False (rx @ arrived) s") auto
  obtain sent2 where r2: "rt_run polls rx1 s1 = (s', rx', sent2)" "sent = sent1 @ sent2"
    using 2(2) r1 by (auto split: prod.splits)
  have "set sent1 \<union> set_option (rt_cmd s1) \<union> set rx1 \<subseteq> set_option (rt_cmd s) \<union> set rx \<union> set arrived"
    using r1 by (cases "rx @ arrived")
      (auto simp: handle_retransmission_def split: if_splits option.splits dest!: arg_cong[of _ _ set])
  with 2(1)[OF r1[symmetric] refl r2(1)] r2(2) show ?case by auto
qed simp

section \<open>Properties\<close>

lemma rc_connect_reachable:
  assumes "self_id \<noteq> 0"
  shows "rc_connect chk connect nodelay self_id locs is ptxs rtxs tasks = Ok x \<Longrightarrow>
    reachable_peers connect self_id locs is \<and> reachable_peers nodelay self_id locs is"
proof (induction "is" arbitrary: ptxs rtxs tasks)
  case (Cons i "is")
  then show ?case
    by (auto simp: checked_sub_one[OF assms] reachable_peers_def res_simps split: if_splits)
qed (simp add: reachable_peers_def)

text \<open>
  A process of rank 1 to n starts its client exactly if the address of every other process is
  configured and a connection to it can be made and set up; then a writing and a retransmission
  task run for exactly the other processes.
\<close>

theorem client_starts_iff_peers_reachable:
  assumes "self_id \<in> set (ranks n)"
  shows "(\<exists>st tasks. rc_new chk connect nodelay self_id n locs = Ok (st, tasks)) \<longleftrightarrow>
           (\<forall>p \<in> set (ranks n). p \<noteq> self_id \<longrightarrow> unat (p - 1) < length locs \<and>
              connect (locs ! unat (p - 1)) \<and> nodelay (locs ! unat (p - 1)))"
    (is "?ok \<longleftrightarrow> ?peers")
proof -
  let ?is = "map of_nat [0..<unat n] :: u8 list"
  have nz: "self_id \<noteq> 0" using assms by (auto simp: set_ranks)
  have "?peers \<longleftrightarrow> reachable_peers connect self_id locs ?is \<and> reachable_peers nodelay self_id locs ?is"
    unfolding ranks_shift reachable_peers_def by (auto simp: diff_eq_eq)
  moreover have "?ok \<Longrightarrow> reachable_peers connect self_id locs ?is \<and> reachable_peers nodelay self_id locs ?is"
    unfolding rc_new_def res_bind_Ok_iff using rc_connect_reachable[OF nz] by blast
  ultimately show ?thesis using rc_new_ok[OF assms] by blast
qed

theorem client_starts_iff_peers_reachable_witness:
  "\<exists>st tasks. rc_new True (\<lambda>_. True) (\<lambda>_. True) 2 3 [(''a'', 1), (''b'', 2), (''c'', 3)] = Ok (st, tasks)"
proof -
  have r: "ranks 3 = [1, 2, 3]" by (simp add: ranks_def upt_rec)
  show ?thesis
    using client_starts_iff_peers_reachable[of 2 3 True "\<lambda>_. True" "\<lambda>_. True" "[(''a'', 1), (''b'', 2), (''c'', 3)]"]
    by (simp add: r)
qed

text \<open>
  C38. A broadcast of a started client puts one copy of the message on the connection channel and
  one on the retransmission channel of every other process. On the channel to the process itself
  it puts two copies, since this channel stands in both maps. Nothing else changes.
\<close>

theorem broadcast_copies:
  assumes "rc_new chk connect nodelay self_id n locs = Ok (st, tasks)" and "self_id \<in> set (ranks n)"
    and "chan_closed env = {}"
  shows "\<exists>env'. rc_broadcast st m env = Ok env' \<and> chan_closed env' = {} \<and>
           chan_queue env' SelfChannel = chan_queue env SelfChannel @ [m, m] \<and>
           (\<forall>p. let c = (if p \<in> set (ranks n) \<and> p \<noteq> self_id then [m] else []) in
              chan_queue env' (ConnectionChannel p) = chan_queue env (ConnectionChannel p) @ c \<and>
              chan_queue env' (RetransmissionChannel p) = chan_queue env (RetransmissionChannel p) @ c)"
proof -
  have nz: "self_id \<noteq> 0" using assms(2) by (auto simp: set_ranks)
  obtain ptxs rtxs where "rc_connect chk connect nodelay self_id locs (map of_nat [0..<unat n])
      [self_id \<mapsto> SelfChannel] [self_id \<mapsto> SelfChannel] [] = Ok (ptxs, rtxs, tasks)"
    using assms(1) by (auto simp: rc_new_def res_simps)
  note r = rc_connect_reachable[OF nz this]
  have "rc_ok self_id st" "rc_processes_count st = n"
    using rc_new_ok[OF assms(2) conjunct1[OF r] conjunct2[OF r], of chk] assms(1) by auto
  then show ?thesis
    using rc_broadcast_eq[of self_id st env m] assms(2,3) by (simp add: copies_def)
qed

theorem broadcast_copies_witness:
  "\<exists>st tasks env'. rc_new True (\<lambda>_. True) (\<lambda>_. True) 2 3 [(''a'', 1), (''b'', 2), (''c'', 3)] = Ok (st, tasks) \<and>
     rc_broadcast st (to_2 2 ReadProc) \<lparr>chan_queue = \<lambda>_. [], chan_closed = {}\<rparr> = Ok env' \<and>
     length (chan_queue env' SelfChannel) = 2 \<and> length (chan_queue env' (ConnectionChannel 3)) = 1 \<and>
     length (chan_queue env' (ConnectionChannel 4)) = 0"
proof -
  have r: "ranks 3 = [1, 2, 3]" by (simp add: ranks_def upt_rec)
  obtain st tasks where n: "rc_new True (\<lambda>_. True) (\<lambda>_. True) 2 3 [(''a'', 1), (''b'', 2), (''c'', 3)] = Ok (st, tasks)"
    using rc_new_ok[of 2 3 "\<lambda>_. True" "[(''a'', 1), (''b'', 2), (''c'', 3)]" "\<lambda>_. True" True]
    by (auto simp: r reachable_peers_def upt_rec)
  obtain env' where e: "rc_broadcast st (to_2 2 ReadProc) \<lparr>chan_queue = \<lambda>_. [], chan_closed = {}\<rparr> = Ok env'"
      "chan_queue env' SelfChannel = [to_2 2 ReadProc, to_2 2 ReadProc]"
      "\<forall>p. chan_queue env' (ConnectionChannel p) = (if p \<in> set (ranks 3) \<and> p \<noteq> 2 then [to_2 2 ReadProc] else [])"
    using broadcast_copies[OF n, of "\<lparr>chan_queue = \<lambda>_. [], chan_closed = {}\<rparr>" "to_2 2 ReadProc"] by (auto simp: r Let_def)
  show ?thesis using n e by (auto simp: r)
qed

text \<open>
  Performing the effects of a register's handler on a client with open channels succeeds if
  every target of a single send is a process of the system, and then every process of the system
  has, behind what was already under way to it, the messages for it in program order, each at
  least once; a process outside of the system gets nothing.
\<close>

theorem effects_reach_destinations:
  assumes "rc_inv s" and "send_targets es \<subseteq> rc_procs s"
  shows "\<exists>s'. perform_sends rc_send_in rc_broadcast_in es s = Ok s' \<and> rc_inv s' \<and>
           (\<forall>p. \<exists>ys. rc_handed s' p = rc_handed s p @ ys \<and>
                   (if p \<in> rc_procs s then stutters (sent_to p es) ys else ys = []))"
  using tcp_links.effects_handed[OF assms] by blast

theorem effects_reach_destinations_witness:
  "\<exists>s s'. rc_inv s \<and> rc_procs s = {1, 2, 3} \<and>
     perform_sends rc_send_in rc_broadcast_in
       ([Send 3 (to_2 2 Ack), Broadcast (to_2 2 ReadProc)] :: nat ar_effect list) s = Ok s' \<and>
     (\<exists>ys. rc_handed s' 3 = rc_handed s 3 @ ys \<and> stutters [to_2 2 Ack, to_2 2 ReadProc] ys)"
proof -
  have r: "ranks 3 = [1, 2, 3]" by (simp add: ranks_def upt_rec)
  obtain st where st: "rc_ok 2 st" "rc_processes_count st = 3"
    using rc_new_ok[of 2 3 "\<lambda>_. True" "[(''a'', 1), (''b'', 2), (''c'', 3)]" "\<lambda>_. True" True]
    by (auto simp: r reachable_peers_def upt_rec)
  let ?s = "(st, \<lparr>chan_queue = \<lambda>_. [], chan_closed = {}\<rparr>)"
  have s: "rc_inv ?s" "rc_procs ?s = {1, 2, 3}" using st by (auto simp: rc_inv_def rc_procs_def r)
  have "send_targets ([Send 3 (to_2 2 Ack), Broadcast (to_2 2 ReadProc)] :: nat ar_effect list) \<subseteq> rc_procs ?s"
    using s(2) by simp
  from effects_reach_destinations[OF s(1) this] obtain s' where
    s': "perform_sends rc_send_in rc_broadcast_in
       ([Send 3 (to_2 2 Ack), Broadcast (to_2 2 ReadProc)] :: nat ar_effect list) ?s = Ok s'"
    "\<forall>p. \<exists>ys. rc_handed s' p = rc_handed ?s p @ ys \<and> (if p \<in> rc_procs ?s
       then stutters (sent_to p ([Send 3 (to_2 2 Ack), Broadcast (to_2 2 ReadProc)] :: nat ar_effect list)) ys else ys = [])"
    by blast
  have "\<exists>ys. rc_handed s' 3 = rc_handed ?s 3 @ ys \<and> stutters [to_2 2 Ack, to_2 2 ReadProc] ys"
    using s'(2)[rule_format, of 3] s(2) by auto
  with s s'(1) show ?thesis by blast
qed

text \<open>
  A connection is a FIFO link: whatever sequence of well-formed messages the writing task
  takes from its channel, the reading loop of the receiver gets exactly this sequence, every
  message authenticated, and nothing of the following bytes is lost.
\<close>

theorem link_delivers_in_order:
  assumes "hmac_spec M tag fed" and "\<forall>m \<in> set ms. wf_command (System m)"
  shows "\<exists>wire. handle_writing M vec_write hmac_system_key ms w = (Ok (), w @ wire) \<and>
           receive_commands slice_read M hmac_system_key hmac_client_key (length ms) (wire @ rest) =
             Some (Ok (map (\<lambda>m. (System m, True)) ms, rest))"
  using handle_writing_eq[OF assms(1)] receive_on_wire[OF assms] by blast

theorem link_delivers_in_order_witness:
  "\<exists>wire. handle_writing sum_mac vec_write [1] [to_2 2 ReadProc, to_2 2 Ack] [] = (Ok (), [] @ wire) \<and>
     receive_commands slice_read sum_mac [1] [2] 2 (wire @ [9]) =
       Some (Ok ([(System (to_2 2 ReadProc), True), (System (to_2 2 Ack), True)], [9]))"
  using link_delivers_in_order[OF sum_mac_spec, of "[to_2 2 ReadProc, to_2 2 Ack]" "[1]" "[]" "[2]" "[9]"]
  by (simp add: numeral_2_eq_2)

text \<open>
  Liveness of retransmission: the last message handed to the retransmission task of a peer
  is passed on again at every due tick, as long as no newer one arrives, once per 500 ms.
\<close>

theorem last_message_is_retransmitted:
  assumes "rt_cmd s = Some m" and "\<forall>i < length ts. tick_at s + i * DELAY \<le> ts ! i"
  shows "snd (snd (rt_run (map (\<lambda>t. (t, [])) ts) [] s)) = replicate (length ts) m"
  using rt_run_due[OF assms(1)] assms(2) by blast

theorem last_message_is_retransmitted_witness:
  "snd (snd (rt_run (map (\<lambda>t. (t, [])) [500, 1003, 1500]) [] \<lparr>rt_cmd = Some (to_2 1 ReadProc), tick_at = 500\<rparr>)) =
     replicate 3 (to_2 1 ReadProc)"
proof -
  have "i < 3 \<Longrightarrow> 500 + i * DELAY \<le> [500, 1003, 1500] ! i" for i
    by (cases i; cases "i - 1"; cases "i - 2") (auto simp: DELAY_def)
  then show ?thesis
    using last_message_is_retransmitted[of "\<lparr>rt_cmd = Some (to_2 1 ReadProc), tick_at = 500\<rparr>" "to_2 1 ReadProc" "[500, 1003, 1500]"]
    by (simp only: retransmission.simps list.size One_nat_def) (simp add: numeral_3_eq_3)
qed

text \<open>
  Retransmission is rate limited: whatever arrives, a task started at time \<open>t0\<close> has passed on
  at most one message per 500 ms up to time \<open>T\<close>.
\<close>

theorem retransmission_rate:
  assumes "rt_run polls [] (rt_start t0) = (s', rx', sent)" and "sorted (map fst polls)"
    and "\<forall>x \<in> set polls. t0 \<le> fst x \<and> fst x \<le> T"
  shows "length sent * DELAY \<le> T - t0"
proof (cases "polls = []")
  case False
  then have "t0 \<le> T" using assms(3) by (cases polls) auto
  from rt_run_rate[OF assms(1,2)] False assms(3)
  have "tick_at (rt_start t0) + length sent * DELAY \<le> T + DELAY"
    by (force simp: rt_start_def)
  with \<open>t0 \<le> T\<close> show ?thesis by (simp add: rt_start_def)
qed (use assms in auto)

theorem retransmission_rate_witness:
  "\<exists>s' rx' sent. rt_run [(100, [to_2 1 ReadProc]), (600, []), (700, [to_2 1 Ack]), (1200, [])] [] (rt_start 0) = (s', rx', sent) \<and>
     sent \<noteq> [] \<and> length sent * DELAY \<le> 1200 - 0"
proof -
  obtain s' rx' sent where r:
    "rt_run [(100, [to_2 1 ReadProc]), (600, []), (700, [to_2 1 Ack]), (1200, [])] [] (rt_start 0) = (s', rx', sent)"
    by (metis prod_cases3)
  moreover have "sent \<noteq> []" using r by (auto simp: handle_retransmission_def rt_start_def DELAY_def)
  moreover have "length sent * DELAY \<le> 1200 - 0" by (rule retransmission_rate[OF r]) auto
  ultimately show ?thesis by blast
qed

text \<open>
  Retransmission is not a stubborn link: once a newer message for the same process has been
  taken over, the older one is never passed on again, whether or not it was received.
\<close>

theorem older_message_is_forgotten:
  assumes "handle_retransmission now False (m' # rx) s = (s', rx, [])" and "now < tick_at s"
    and "rt_run polls rx s' = (s'', rx'', sent)"
    and "m \<noteq> m'" and "m \<notin> set rx" and "\<forall>x \<in> set polls. m \<notin> set (snd x)"
  shows "m \<notin> set sent"
proof -
  have "rt_cmd s' = Some m'" using assms(1,2) by (auto simp: handle_retransmission_def)
  with rt_run_sources[OF assms(3)] assms(4-6) show ?thesis by auto
qed

theorem older_message_is_forgotten_witness:
  "\<exists>s'. handle_retransmission 100 False [to_2 1 Ack] \<lparr>rt_cmd = Some (to_2 1 ReadProc), tick_at = 500\<rparr> = (s', [], []) \<and>
     to_2 1 ReadProc \<notin> set (snd (snd (rt_run [(600, []), (1100, [])] [] s')))"
proof -
  let ?s' = "\<lparr>rt_cmd = Some (to_2 1 Ack), tick_at = 600\<rparr>"
  have h: "handle_retransmission 100 False [to_2 1 Ack] \<lparr>rt_cmd = Some (to_2 1 ReadProc), tick_at = 500\<rparr> = (?s', [], [])"
    by (simp add: handle_retransmission_def DELAY_def)
  obtain a b c where r: "rt_run [(600, []), (1100, [])] [] ?s' = (a, b, c)" by (metis prod_cases3)
  have "to_2 1 ReadProc \<notin> set c"
    by (rule older_message_is_forgotten[OF h _ r]) auto
  with h r show ?thesis by auto
qed

end
