(* ===== verification/Sectors_Manager.thy ===== *)
theory Sectors_Manager
  imports Domain
begin

text \<open>
  Stable storage of sectors: \<^verbatim>\<open>src/solution/src/sectors_manager.rs\<close> and the trait
  \<open>SectorsManager\<close> of \<^verbatim>\<open>src/solution/src/lib.rs\<close>.

  The storage directory is a map from file names (relative to the directory) to contents;
  file operations are steps on it that fail as the system calls do. A crash stops the
  sequence of file operations of a write after any of them, or in the middle of writing the
  temporary file, and loses the map in memory; the order in which \<open>read_dir\<close> lists a
  directory is arbitrary, so recovery is stated for every listing.

  The contract that the atomic registers rely on is the locale \<open>sector_store\<close>; it is
  interpreted on the file-based manager here, and on the in-memory drive of the tests.
\<close>

section \<open>The storage directory\<close>

type_synonym fs = "string \<rightharpoonup> bytes"
type_synonym version = "u64 \<times> u8"

datatype fs_op =
    Create string
  | WriteAll string bytes
  | SyncData string
  | Rename string string
  | Open string
  | RemoveFile string

text \<open>\<open>None\<close> is an error returned by the system call.\<close>

fun fs_step :: "fs_op \<Rightarrow> fs \<Rightarrow> fs option" where
  "fs_step (Create f) d = Some (d(f \<mapsto> []))"
| "fs_step (WriteAll f b) d = (case d f of None \<Rightarrow> None | Some c \<Rightarrow> Some (d(f \<mapsto> c @ b)))"
| "fs_step (SyncData f) d = Some d"
| "fs_step (Rename a b) d = (case d a of None \<Rightarrow> None | Some c \<Rightarrow> Some ((d(a := None))(b \<mapsto> c)))"
| "fs_step (Open f) d = (case d f of None \<Rightarrow> None | Some c \<Rightarrow> Some d)"
| "fs_step (RemoveFile f) d = (case d f of None \<Rightarrow> None | Some c \<Rightarrow> Some (d(f := None)))"

text \<open>A sequence of operations, each with the panic that its failure causes.\<close>

fun fs_run :: "(fs_op \<times> panic) list \<Rightarrow> fs \<Rightarrow> fs res" where
  "fs_run [] d = Ok d"
| "fs_run ((op, p) # ops) d = (case fs_step op d of None \<Rightarrow> Panic p | Some d' \<Rightarrow> fs_run ops d')"

section \<open>The manager\<close>

record SectorsManagerState =
  path :: string
  data_access :: "SectorIdx \<rightharpoonup> version"

definition sectoridx_file_path :: "SectorIdx \<Rightarrow> u64 \<Rightarrow> u8 \<Rightarrow> string" where
  "sectoridx_file_path idx ts wr =
     dec (unat idx) @ ''_'' @ dec (unat ts) @ ''_'' @ dec (unat wr)"

definition sectoridx_tmp_file_path :: "SectorIdx \<Rightarrow> u64 \<Rightarrow> u8 \<Rightarrow> string" where
  "sectoridx_tmp_file_path idx ts wr =
     ''tmp_'' @ dec (unat idx) @ ''_'' @ dec (unat ts) @ ''_'' @ dec (unat wr)"

text \<open>The loop over the directory entries; a name is parsed as \<open>index_timestamp_rank\<close>.\<close>

fun sectors_crash_recovery ::
    "string list \<Rightarrow> (SectorIdx \<rightharpoonup> version) \<Rightarrow> fs \<Rightarrow> ((SectorIdx \<rightharpoonup> version) \<times> fs) res" where
  "sectors_crash_recovery [] acc d = Ok (acc, d)"
| "sectors_crash_recovery (file_name # entries) acc d =
     (let parts = split_on (CHR ''_'') file_name in
      if length parts \<noteq> 3 then
        res_bind (fs_run [(RemoveFile file_name, Expect ''Failed to remove invalid file'')] d) (\<lambda>d.
        sectors_crash_recovery entries acc d)
      else
        res_bind (unwrap_opt (Expect ''Failed to parse sector index'') (parse_uint 64 (parts ! 0))) (\<lambda>n.
        res_bind (unwrap_opt (Expect ''Failed to parse timestamp'') (parse_uint 64 (parts ! 1))) (\<lambda>t.
        res_bind (unwrap_opt (Expect ''Failed to parse write rank'') (parse_uint 8 (parts ! 2))) (\<lambda>w.
        let sidx = of_nat n; ts = of_nat t; wr = of_nat w;
            old = (case acc sidx of Some v \<Rightarrow> v | None \<Rightarrow> (0, 0)) in
        if old = (0, 0) then
          sectors_crash_recovery entries (acc(sidx \<mapsto> (ts, wr))) d
        else if (ts, wr) > old then
          res_bind (fs_run [(RemoveFile (sectoridx_file_path sidx (fst old) (snd old)),
                             Expect ''Failed to remove old sector file'')] d) (\<lambda>d.
          sectors_crash_recovery entries (acc(sidx \<mapsto> (ts, wr))) d)
        else
          res_bind (fs_run [(RemoveFile file_name, Expect ''Failed to remove invalid file'')] d) (\<lambda>d.
          sectors_crash_recovery entries acc d)))))"

text \<open>
  \<open>SectorsManagerState::new\<close>: the directory is created when \<open>read_dir\<close> fails (\<open>None\<close>), then
  recovered; \<open>listing\<close> is the order in which its entries are returned.
\<close>

definition sm_new ::
    "(fs \<Rightarrow> string list) \<Rightarrow> string \<Rightarrow> fs option \<Rightarrow> (SectorsManagerState \<times> fs) res" where
  "sm_new listing p dir =
     (let d = (case dir of Some d \<Rightarrow> d | None \<Rightarrow> Map.empty) in
      res_bind (sectors_crash_recovery (listing d) Map.empty d) (\<lambda>(acc, d).
      Ok (\<lparr>path = p, data_access = acc\<rparr>, d)))"

definition sm_read_data :: "SectorIdx \<Rightarrow> SectorsManagerState \<times> fs \<Rightarrow> SectorVec res" where
  "sm_read_data idx s =
     (case data_access (fst s) idx of
        Some (ts, wr) \<Rightarrow>
          (case snd s (sectoridx_file_path idx ts wr) of
             None \<Rightarrow> Panic (Expect ''Failed to open sector file'')
           | Some c \<Rightarrow>
               if 4096 \<le> length c then Ok (SectorVec (take 4096 c))
               else Panic (Expect ''Failed to read sector data''))
      | None \<Rightarrow> Ok zero_sector)"

definition sm_read_metadata :: "SectorIdx \<Rightarrow> SectorsManagerState \<times> fs \<Rightarrow> version" where
  "sm_read_metadata idx s = (case data_access (fst s) idx of Some v \<Rightarrow> v | None \<Rightarrow> (0, 0))"

text \<open>The file operations of a write, in order; \<open>old\<close> is the version it replaces.\<close>

definition write_ops ::
    "SectorIdx \<Rightarrow> SectorVec \<Rightarrow> u64 \<Rightarrow> u8 \<Rightarrow> version \<Rightarrow> (fs_op \<times> panic) list" where
  "write_ops idx data ts wr old =
     (let file_path = sectoridx_file_path idx ts wr;
          tmp_file_path = sectoridx_tmp_file_path idx ts wr in
      [(Create tmp_file_path, UnwrapErr),
       (WriteAll tmp_file_path (sector_bytes data),
          Expect ''Failed to write sector data to temporary file''),
       (SyncData tmp_file_path, Expect ''Failed to sync temporary sector file''),
       (Rename tmp_file_path file_path, Expect ''Failed to rename temporary sector file''),
       (Open file_path, Expect ''Failed to open sector file''),
       (SyncData file_path, Expect ''Failed to sync sector file'')] @
      (if old \<noteq> (0, 0)
       then [(RemoveFile (sectoridx_file_path idx (fst old) (snd old)),
              Expect ''Failed to remove old sector file'')]
       else []))"

definition sm_write ::
    "SectorIdx \<Rightarrow> SectorVec \<times> u64 \<times> u8 \<Rightarrow> SectorsManagerState \<times> fs \<Rightarrow> (SectorsManagerState \<times> fs) res" where
  "sm_write idx sector s =
     (case sector of (data, ts, wr) \<Rightarrow>
        let old = (case data_access (fst s) idx of Some v \<Rightarrow> v | None \<Rightarrow> (0, 0)) in
        res_bind (fs_run (write_ops idx data ts wr old) (snd s)) (\<lambda>d.
        Ok ((fst s)\<lparr>data_access := (data_access (fst s))(idx \<mapsto> (ts, wr))\<rparr>, d)))"

text \<open>
  The directory that a crash leaves behind: the first \<open>k\<close> operations are done, and if the
  next one writes a file, the first \<open>j\<close> bytes of it may have been written.
\<close>

fun interrupted :: "(fs_op \<times> panic) list \<Rightarrow> nat \<Rightarrow> nat \<Rightarrow> fs \<Rightarrow> fs res" where
  "interrupted [] k j d = Ok d"
| "interrupted ((op, p) # ops) k j d =
     (case k of
        0 \<Rightarrow> (case op of WriteAll f b \<Rightarrow> fs_run [(WriteAll f (take j b), p)] d | _ \<Rightarrow> Ok d)
      | Suc k' \<Rightarrow>
          (case fs_step op d of None \<Rightarrow> Panic p | Some d' \<Rightarrow> interrupted ops k' j d'))"

section \<open>File names\<close>

abbreviation file_of :: "SectorIdx \<Rightarrow> version \<Rightarrow> string" where
  "file_of idx v \<equiv> sectoridx_file_path idx (fst v) (snd v)"

abbreviation tmp_of :: "SectorIdx \<Rightarrow> version \<Rightarrow> string" where
  "tmp_of idx v \<equiv> sectoridx_tmp_file_path idx (fst v) (snd v)"

lemma split_file_path:
  "split_on (CHR ''_'') (sectoridx_file_path idx ts wr) =
     [dec (unat idx), dec (unat ts), dec (unat wr)]"
  by (simp add: sectoridx_file_path_def split_on_append split_on_single dec_no_underscore)

lemma split_tmp_file_path:
  "length (split_on (CHR ''_'') (sectoridx_tmp_file_path idx ts wr)) = 4"
  using split_file_path[of idx ts wr]
  by (simp add: sectoridx_tmp_file_path_def sectoridx_file_path_def)

lemma parse_u64 [simp]: "parse_uint 64 (dec (unat (x :: u64))) = Some (unat x)"
  by (rule parse_uint_dec, rule order_less_le_trans, rule unsigned_less) simp

lemma parse_u8 [simp]: "parse_uint 8 (dec (unat (x :: u8))) = Some (unat x)"
  by (rule parse_uint_dec, rule order_less_le_trans, rule unsigned_less) simp

lemma file_path_inject:
  "sectoridx_file_path i t w = sectoridx_file_path i' t' w' \<longleftrightarrow> i = i' \<and> t = t' \<and> w = w'"
proof
  assume "sectoridx_file_path i t w = sectoridx_file_path i' t' w'"
  then have "[dec (unat i), dec (unat t), dec (unat w)] = [dec (unat i'), dec (unat t'), dec (unat w')]"
    using split_file_path by metis
  then show "i = i' \<and> t = t' \<and> w = w'" by (simp add: word_unat_eq_iff)
qed simp

lemma file_of_eq [simp]: "file_of i v = file_of j w \<longleftrightarrow> i = j \<and> v = w"
  by (auto simp: prod_eq_iff file_path_inject)

lemma tmp_not_file [simp]:
  "sectoridx_tmp_file_path i t w \<noteq> sectoridx_file_path i' t' w'"
  "sectoridx_file_path i' t' w' \<noteq> sectoridx_tmp_file_path i t w"
proof -
  show "sectoridx_tmp_file_path i t w \<noteq> sectoridx_file_path i' t' w'"
  proof
    assume "sectoridx_tmp_file_path i t w = sectoridx_file_path i' t' w'"
    then have "length (split_on (CHR ''_'') (sectoridx_file_path i' t' w')) = 4"
      using split_tmp_file_path by metis
    then show False by (simp add: split_file_path)
  qed
  then show "sectoridx_file_path i' t' w' \<noteq> sectoridx_tmp_file_path i t w" by metis
qed

section \<open>Recovery\<close>

text \<open>
  The directories that can occur: sector files of 4096 bytes with a nonzero version, and
  temporary files. The newest version of a sector is the largest one with a file.
\<close>

definition dir_ok :: "fs \<Rightarrow> bool" where
  "dir_ok d \<longleftrightarrow> (\<forall>n c. d n = Some c \<longrightarrow>
     (\<exists>i v. n = tmp_of i v) \<or> (\<exists>i v. n = file_of i v \<and> v \<noteq> (0, 0) \<and> length c = 4096))"

lemma dir_ok_file: "dir_ok d \<Longrightarrow> d (file_of i v) = Some c \<Longrightarrow> v \<noteq> (0, 0) \<and> length c = 4096"
  unfolding dir_ok_def by (metis file_of_eq tmp_not_file(2))

definition versions :: "fs \<Rightarrow> SectorIdx \<Rightarrow> version set" where
  "versions d i = {v. d (file_of i v) \<noteq> None}"

definition newest :: "version set \<Rightarrow> version option" where
  "newest V = (if V = {} then None else Some (Max V))"

lemma newest_insert:
  "newest (insert v V) = Some (case newest V of None \<Rightarrow> v | Some u \<Rightarrow> max v u)"
  by (simp add: newest_def)

lemma newest_SomeD: "newest V = Some v \<Longrightarrow> v \<in> V \<and> (\<forall>u \<in> V. u \<le> v)"
  using Max_in[of V] Max_ge[of V] by (auto simp: newest_def simp del: Max_in split: if_splits)

lemma recovery_file:
  "sectors_crash_recovery (file_of i v # es) acc d =
     (let old = (case acc i of Some u \<Rightarrow> u | None \<Rightarrow> (0, 0)) in
      if old = (0, 0) then sectors_crash_recovery es (acc(i \<mapsto> v)) d
      else if v > old then
        (case d (file_of i old) of
           None \<Rightarrow> Panic (Expect ''Failed to remove old sector file'')
         | Some _ \<Rightarrow> sectors_crash_recovery es (acc(i \<mapsto> v)) (d(file_of i old := None)))
      else
        (case d (file_of i v) of
           None \<Rightarrow> Panic (Expect ''Failed to remove invalid file'')
         | Some _ \<Rightarrow> sectors_crash_recovery es acc (d(file_of i v := None))))"
  by (simp add: split_file_path Let_def split: option.split)

lemma recovery_tmp:
  "d (tmp_of i v) = Some c \<Longrightarrow>
     sectors_crash_recovery (tmp_of i v # es) acc d = sectors_crash_recovery es acc (d(tmp_of i v := None))"
  by (simp add: split_tmp_file_path)

declare sectors_crash_recovery.simps(2) [simp del]

text \<open>The versions among the listed names, and what is left of the directory after these names.\<close>

definition seen :: "string list \<Rightarrow> SectorIdx \<Rightarrow> version set" where
  "seen ns i = {v. file_of i v \<in> set ns}"

definition kept :: "string list \<Rightarrow> string set" where
  "kept ns = {file_of i v | i v. newest (seen ns i) = Some v}"

definition swept :: "string list \<Rightarrow> fs \<Rightarrow> fs" where
  "swept ns d n = (if n \<in> set ns \<and> n \<notin> kept ns then None else d n)"

lemma kept_file [simp]: "file_of i v \<in> kept ns \<longleftrightarrow> newest (seen ns i) = Some v"
  by (auto simp: kept_def prod_eq_iff file_path_inject)

lemma kept_tmp [simp]: "tmp_of i v \<notin> kept ns"
  by (auto simp: kept_def)

lemma seen_snoc_file: "seen (ns @ [file_of i v]) = (seen ns)(i := insert v (seen ns i))"
  by (auto simp: seen_def fun_eq_iff prod_eq_iff)

lemma seen_snoc_tmp: "seen (ns @ [tmp_of i v]) = seen ns"
  by (auto simp: seen_def fun_eq_iff)

lemma swept_snoc_tmp: "swept (ns @ [tmp_of i v]) d = (swept ns d)(tmp_of i v := None)"
  by (auto simp: swept_def fun_eq_iff kept_def seen_snoc_tmp)

lemma swept_unseen: "n \<notin> set ns \<Longrightarrow> swept ns d n = d n"
  by (simp add: swept_def)

lemma swept_newest: "newest (seen ns i) = Some v \<Longrightarrow> swept ns d (file_of i v) = d (file_of i v)"
  by (simp add: swept_def)

lemma seen_iff: "file_of i v \<in> set ns \<longleftrightarrow> v \<in> seen ns i"
  by (simp add: seen_def)

lemma max_min_less:
  fixes u v :: version
  shows "u < v \<Longrightarrow> max v u = v \<and> min u v = u" "v < u \<Longrightarrow> max v u = u \<and> min u v = v \<and> \<not> u < v"
  by (auto intro: max_absorb1 min_absorb1 max_absorb2 min_absorb2 less_imp_le)

lemma swept_snoc_file:
  assumes "file_of i v \<notin> set ns"
  shows "swept (ns @ [file_of i v]) d =
     (case newest (seen ns i) of
        None \<Rightarrow> swept ns d
      | Some u \<Rightarrow> (swept ns d)(file_of i (min u v) := None))"
proof (rule ext)
  fix n
  show "swept (ns @ [file_of i v]) d n =
     (case newest (seen ns i) of
        None \<Rightarrow> swept ns d
      | Some u \<Rightarrow> (swept ns d)(file_of i (min u v) := None)) n"
  proof (cases "\<exists>j w. n = file_of j w")
    case True
    then obtain j w where n: "n = file_of j w" by blast
    have v: "v \<notin> seen ns i" using assms by (simp add: seen_def)
    show ?thesis
    proof (cases "newest (seen ns i)")
      case None
      then have "seen ns i = {}" by (auto simp: newest_def split: if_splits)
      with None show ?thesis
        unfolding n swept_def kept_file seen_snoc_file set_append
        by (auto simp: newest_insert seen_iff)
    next
      case (Some u)
      from v newest_SomeD[OF Some] have "u \<noteq> v" "u \<in> seen ns i" by auto
      with Some v show ?thesis
        unfolding n swept_def kept_file seen_snoc_file set_append fun_upd_apply
        by (cases "j = i"; cases "w = v"; cases "w = u"; cases "u < v")
          (simp_all add: newest_insert seen_iff max_min_less not_less_iff_gr_or_eq)
    qed
  next
    case False
    then have "n \<noteq> file_of i v" "n \<notin> kept ns" "n \<notin> kept (ns @ [file_of i v])" for v ns
      by (auto simp: kept_def)
    then show ?thesis by (simp add: swept_def split: option.split)
  qed
qed

lemma recovery_loop:
  assumes "dir_ok d0"
  shows "distinct (ns @ es) \<Longrightarrow> set (ns @ es) \<subseteq> dom d0 \<Longrightarrow>
     sectors_crash_recovery es (\<lambda>i. newest (seen ns i)) (swept ns d0) =
       Ok (\<lambda>i. newest (seen (ns @ es) i), swept (ns @ es) d0)"
proof (induction es arbitrary: ns)
  case Nil
  then show ?case by simp
next
  case (Cons e es)
  have IH: "sectors_crash_recovery es (\<lambda>i. newest (seen (ns @ [e]) i)) (swept (ns @ [e]) d0) =
      Ok (\<lambda>i. newest (seen (ns @ e # es) i), swept (ns @ e # es) d0)"
    using Cons.IH[of "ns @ [e]"] Cons.prems by simp
  have e: "e \<notin> set ns" "d0 e \<noteq> None" using Cons.prems by auto
  then consider (tmp) i v where "e = tmp_of i v"
    | (sector) i v where "e = file_of i v" "v \<noteq> (0, 0)"
    using assms unfolding dir_ok_def by blast
  then show ?case
  proof cases
    case tmp
    then show ?thesis
      using IH e by (auto simp: recovery_tmp swept_unseen seen_snoc_tmp swept_snoc_tmp)
  next
    case sector
    have e': "file_of i v \<notin> set ns" using e sector by simp
    show ?thesis
    proof (cases "newest (seen ns i)")
      case None
      have "(\<lambda>i. newest (seen ns i))(i \<mapsto> v) = (\<lambda>j. newest (seen (ns @ [e]) j))"
        using None by (auto simp: sector(1) seen_snoc_file newest_insert fun_eq_iff)
      with IH None show ?thesis
        by (simp add: sector(1) recovery_file swept_snoc_file[OF e'])
    next
      case (Some u)
      then have u: "u \<in> seen ns i" by (rule newest_SomeD[THEN conjunct1])
      then have "file_of i u \<in> dom d0" using Cons.prems(2) by (auto simp: seen_def)
      then obtain c where c: "d0 (file_of i u) = Some c" by auto
      have u0: "u \<noteq> (0, 0)" using dir_ok_file[OF assms c] by simp
      have uv: "u \<noteq> v" using u e' by (auto simp: seen_def)
      have acc: "(\<lambda>j. newest (seen (ns @ [e]) j)) = (\<lambda>j. newest (seen ns j))(i \<mapsto> max v u)"
        using Some by (auto simp: sector(1) seen_snoc_file newest_insert fun_eq_iff)
      have noop: "(\<lambda>j. newest (seen ns j))(i \<mapsto> u) = (\<lambda>j. newest (seen ns j))"
        using Some by auto
      from uv consider "u < v" | "v < u" by (meson linorder_neqE)
      then show ?thesis
      proof cases
        case 1
        with max_min_less(1)[OF 1] IH Some c u0 show ?thesis
          by (simp add: sector(1) recovery_file swept_snoc_file[OF e'] acc[unfolded sector(1)] swept_newest)
      next
        case 2
        with max_min_less(2)[OF 2] IH Some u0 e show ?thesis
          by (auto simp: sector(1) recovery_file swept_snoc_file[OF e'] acc[unfolded sector(1)] noop
              swept_unseen)
      qed
    qed
  qed
qed

section \<open>The invariant of the manager\<close>

text \<open>Every known sector has exactly one file, of its recorded version, and there is no other file.\<close>

definition sm_inv :: "SectorsManagerState \<times> fs \<Rightarrow> bool" where
  "sm_inv s \<longleftrightarrow>
     finite (dom (snd s)) \<and>
     (\<forall>i v. data_access (fst s) i = Some v \<longrightarrow>
        v \<noteq> (0, 0) \<and> (\<exists>c. snd s (file_of i v) = Some c \<and> length c = 4096)) \<and>
     (\<forall>n c. snd s n = Some c \<longrightarrow> (\<exists>i v. n = file_of i v \<and> data_access (fst s) i = Some v))"

lemma sm_inv_known:
  "sm_inv s \<Longrightarrow> data_access (fst s) i = Some v \<Longrightarrow>
     v \<noteq> (0, 0) \<and> (\<exists>c. snd s (file_of i v) = Some c \<and> length c = 4096)"
  unfolding sm_inv_def by blast

lemma sm_inv_file:
  "sm_inv s \<Longrightarrow> snd s n = Some c \<Longrightarrow> \<exists>i v. n = file_of i v \<and> data_access (fst s) i = Some v"
  unfolding sm_inv_def by blast

text \<open>What a directory stores for a sector: the newest version with its contents.\<close>

definition stored :: "fs \<Rightarrow> SectorIdx \<Rightarrow> version \<times> SectorVec" where
  "stored d i =
     (case newest (versions d i) of
        None \<Rightarrow> ((0, 0), zero_sector)
      | Some v \<Rightarrow> (v, SectorVec (the (d (file_of i v)))))"

lemma newest_set_option [simp]: "newest (set_option x) = x"
  by (cases x) (simp_all add: newest_def)

lemma stored_cong:
  "(\<And>v. c (file_of i v) = d (file_of i v)) \<Longrightarrow> stored c i = stored d i"
  by (simp add: stored_def versions_def split: option.split)

lemma sm_inv_versions:
  assumes "sm_inv s"
  shows "versions (snd s) i = set_option (data_access (fst s) i)"
proof (intro set_eqI iffI)
  fix v assume "v \<in> versions (snd s) i"
  then obtain c where "snd s (file_of i v) = Some c" by (auto simp: versions_def)
  then obtain j u where "file_of i v = file_of j u" "data_access (fst s) j = Some u"
    using assms unfolding sm_inv_def by meson
  then show "v \<in> set_option (data_access (fst s) i)" by simp
next
  fix v assume "v \<in> set_option (data_access (fst s) i)"
  then have "data_access (fst s) i = Some v" by simp
  then show "v \<in> versions (snd s) i"
    using assms unfolding sm_inv_def versions_def by blast
qed

lemma sm_inv_dir_ok: "sm_inv s \<Longrightarrow> dir_ok (snd s)"
  unfolding sm_inv_def dir_ok_def by (metis option.inject)

lemma sm_inv_reads:
  assumes "sm_inv s"
  shows "sm_read_metadata i s = fst (stored (snd s) i)"
    and "sm_read_data i s = Ok (snd (stored (snd s) i))"
    and "wf_sector (snd (stored (snd s) i))"
proof -
  have "sm_read_metadata i s = fst (stored (snd s) i) \<and>
      sm_read_data i s = Ok (snd (stored (snd s) i)) \<and> wf_sector (snd (stored (snd s) i))"
  proof (cases "data_access (fst s) i")
    case None
    then show ?thesis
      by (simp add: stored_def sm_inv_versions[OF assms] sm_read_metadata_def sm_read_data_def newest_def)
  next
    case (Some v)
    then obtain c where "snd s (file_of i v) = Some c" "length c = 4096"
      using assms unfolding sm_inv_def by blast
    with Some show ?thesis
      by (simp add: stored_def sm_inv_versions[OF assms] newest_def sm_read_metadata_def sm_read_data_def
          wf_sector_def split_beta)
  qed
  then show "sm_read_metadata i s = fst (stored (snd s) i)"
    and "sm_read_data i s = Ok (snd (stored (snd s) i))"
    and "wf_sector (snd (stored (snd s) i))" by blast+
qed

text \<open>Recovery of any possible directory, in any order of its entries.\<close>

lemma recovery_complete:
  assumes d: "dir_ok d" and es: "distinct es" "set es = dom d"
  obtains s' where "sm_new (\<lambda>_. es) p (Some d) = Ok s'" "sm_inv s'" "\<And>i. stored (snd s') i = stored d i"
proof -
  have seen: "seen es i = versions d i" for i
    using es(2) by (auto simp: seen_def versions_def)
  have e0: "(\<lambda>i. newest (seen [] i)) = Map.empty" "swept [] d = d"
    by (auto simp: seen_def newest_def swept_def)
  have run: "sectors_crash_recovery es Map.empty d = Ok (\<lambda>i. newest (versions d i), swept es d)"
    using recovery_loop[OF d, of "[]" es] es by (simp add: e0 seen)
  have sw: "swept es d (file_of i v) = (if newest (versions d i) = Some v then d (file_of i v) else None)" for i v
    using es(2) by (auto simp: swept_def seen)
  have inv: "sm_inv (\<lparr>path = p, data_access = \<lambda>i. newest (versions d i)\<rparr>, swept es d)"
    unfolding sm_inv_def
  proof (intro conjI allI impI, goal_cases)
    case 1
    have "dom (swept es d) \<subseteq> dom d" by (auto simp: swept_def split: if_splits)
    then show ?case using finite_subset es(2) by (metis List.finite_set snd_conv)
  next
    case (2 i v)
    then have "d (file_of i v) \<noteq> None" by (auto dest: newest_SomeD simp: versions_def)
    then show ?case using dir_ok_file[OF d] by auto
  next
    case (3 i v)
    then have "d (file_of i v) \<noteq> None" by (auto dest: newest_SomeD simp: versions_def)
    with 3 show ?case using dir_ok_file[OF d] by (auto simp: sw)
  next
    case (4 n c)
    then have "n \<in> kept es" using es(2) by (auto simp: swept_def split: if_splits)
    then show ?case by (auto simp: kept_def seen prod_eq_iff)
  qed
  have "versions (swept es d) i = set_option (newest (versions d i))" for i
    using sm_inv_versions[OF inv] by simp
  then have "stored (swept es d) i = stored d i" for i
    by (simp add: stored_def sw split: option.split)
  with that[OF _ inv] run show thesis by (simp add: sm_new_def)
qed

text \<open>A write run to its end, and a write stopped in the middle.\<close>

lemma write_ops_run:
  assumes "d (tmp_of i v) = None" and "old \<noteq> (0, 0) \<Longrightarrow> d (file_of i old) \<noteq> None" and "v \<noteq> old"
  shows "fs_run (write_ops i data (fst v) (snd v) old) d =
     Ok (if old = (0, 0) then d(file_of i v \<mapsto> sector_bytes data)
         else (d(file_of i v \<mapsto> sector_bytes data))(file_of i old := None))"
  using assms by (auto simp: write_ops_def fun_upd_twist fun_upd_idem Let_def)

lemma interrupted_cases:
  assumes "interrupted (write_ops i data (fst v) (snd v) old) k j d = Ok c" and "d (tmp_of i v) = None"
  obtains (before) "c = d" | (during) x where "c = d(tmp_of i v \<mapsto> x)"
    | (renamed) "c = d(file_of i v \<mapsto> sector_bytes data)"
    | (removed) "old \<noteq> (0, 0)" "c = (d(file_of i v \<mapsto> sector_bytes data))(file_of i old := None)"
  using assms that
  by (cases "d (file_of i old)")
    (auto simp: write_ops_def Let_def fun_upd_idem split: nat.splits if_splits)

lemma sm_inv_no_tmp: "sm_inv s \<Longrightarrow> snd s (tmp_of i v) = None"
  unfolding sm_inv_def by (metis option.exhaust tmp_not_file(1))

lemma sm_inv_old:
  "sm_inv s \<Longrightarrow> sm_read_metadata i s \<noteq> (0, 0) \<Longrightarrow> snd s (file_of i (sm_read_metadata i s)) \<noteq> None"
  by (cases "data_access (fst s) i") (auto simp: sm_read_metadata_def dest: sm_inv_known)

lemma sm_write_correct:
  assumes inv: "sm_inv s" and wf: "wf_sector data" and v: "v \<noteq> (0, 0)" "v \<noteq> sm_read_metadata i s"
  obtains s' where "sm_write i (data, fst v, snd v) s = Ok s'" "sm_inv s'" "path (fst s') = path (fst s)"
    "stored (snd s') i = (v, data)" "\<And>j. j \<noteq> i \<Longrightarrow> stored (snd s') j = stored (snd s) j"
proof -
  let ?old = "sm_read_metadata i s"
  let ?new = "(snd s)(file_of i v \<mapsto> sector_bytes data)"
  let ?d = "if ?old = (0, 0) then ?new else ?new(file_of i ?old := None)"
  let ?s = "((fst s)\<lparr>data_access := (data_access (fst s))(i \<mapsto> v)\<rparr>, ?d)"
  have old: "data_access (fst s) i = Some u \<longleftrightarrow> u = ?old \<and> ?old \<noteq> (0, 0)" for u
    using sm_inv_known[OF inv, of i]
    by (cases "data_access (fst s) i") (auto simp: sm_read_metadata_def)
  have run: "sm_write i (data, fst v, snd v) s = Ok ?s"
    using write_ops_run[of "snd s" i v ?old data] sm_inv_no_tmp[OF inv] sm_inv_old[OF inv] v
    by (simp add: sm_write_def sm_read_metadata_def[symmetric] Let_def split_beta)
  have invs: "sm_inv ?s"
    unfolding sm_inv_def
  proof (intro conjI allI impI, goal_cases)
    case 1
    have "dom ?d \<subseteq> insert (file_of i v) (dom (snd s))" by auto
    then show ?case using inv finite_subset by (fastforce simp: sm_inv_def)
  next
    case (2 j u)
    then show ?case using sm_inv_known[OF inv, of j u] v by (simp split: if_splits)
  next
    case (3 j u)
    then show ?case
      using sm_inv_known[OF inv, of j u] v wf by (simp add: wf_sector_def split: if_splits)
  next
    case (4 n c)
    show ?case
    proof (cases "n = file_of i v")
      case False
      with 4 have "snd s n = Some c" by (simp split: if_splits)
      then obtain j u where n: "n = file_of j u" "data_access (fst s) j = Some u"
        using sm_inv_file[OF inv] by blast
      have "j \<noteq> i" using n 4 False old[of u] by (auto split: if_splits)
      with n show ?thesis by auto
    qed auto
  qed
  have "versions ?d i = {v}" using sm_inv_versions[OF invs, of i] by simp
  then have "stored ?d i = (v, data)" using v by (simp add: stored_def newest_def)
  moreover have "stored ?d j = stored (snd s) j" if "j \<noteq> i" for j
    using that by (intro stored_cong) simp
  ultimately show thesis using that[OF run invs] by simp
qed

lemma dir_ok_upd_tmp: "dir_ok d \<Longrightarrow> dir_ok (d(tmp_of i v \<mapsto> x))"
  unfolding dir_ok_def by (auto split: if_splits)

lemma dir_ok_upd_file:
  "dir_ok d \<Longrightarrow> v \<noteq> (0, 0) \<Longrightarrow> length x = 4096 \<Longrightarrow> dir_ok (d(file_of i v \<mapsto> x))"
  unfolding dir_ok_def fun_upd_apply by (metis option.inject)

lemma dir_ok_delete: "dir_ok d \<Longrightarrow> dir_ok (d(n := None))"
  unfolding dir_ok_def by auto

lemma sm_write_interrupted:
  assumes inv: "sm_inv s" and wf: "wf_sector data" and v: "v \<noteq> (0, 0)" "v \<noteq> sm_read_metadata i s"
    and c: "interrupted (write_ops i data (fst v) (snd v) (sm_read_metadata i s)) k j (snd s) = Ok c"
  shows "dir_ok c" and "j' \<noteq> i \<Longrightarrow> stored c j' = stored (snd s) j'"
    and "stored c i \<in> {stored (snd s) i, (v, data)}"
proof -
  let ?old = "sm_read_metadata i s"
  have ok: "dir_ok (snd s)" by (rule sm_inv_dir_ok[OF inv])
  have l: "length (sector_bytes data) = 4096" using wf by (simp add: wf_sector_def)
  have vers: "versions (snd s) i = set_option (data_access (fst s) i)" by (rule sm_inv_versions[OF inv])
  have "dir_ok c \<and> (j' \<noteq> i \<longrightarrow> stored c j' = stored (snd s) j') \<and> stored c i \<in> {stored (snd s) i, (v, data)}"
    using c sm_inv_no_tmp[OF inv]
  proof (cases rule: interrupted_cases)
    case before
    then show ?thesis using ok by simp
  next
    case (during x)
    then have "stored c m = stored (snd s) m" for m by (intro stored_cong) simp
    with during show ?thesis by (simp add: dir_ok_upd_tmp ok)
  next
    case renamed
    then have "stored c m = stored (snd s) m" if "m \<noteq> i" for m
      using that by (intro stored_cong) simp
    moreover have "versions c i = insert v (versions (snd s) i)"
      using renamed by (auto simp: versions_def)
    then have "newest (versions c i) =
        Some (case data_access (fst s) i of None \<Rightarrow> v | Some u \<Rightarrow> max v u)"
      by (simp add: newest_insert vers)
    then have "stored c i \<in> {stored (snd s) i, (v, data)}"
      using renamed by (auto simp: stored_def vers max_def split: option.splits)
    ultimately show ?thesis using renamed by (simp add: dir_ok_upd_file ok v l)
  next
    case removed
    then have "stored c m = stored (snd s) m" if "m \<noteq> i" for m
      using that by (intro stored_cong) simp
    moreover have "versions (snd s) i = {?old}"
      using removed(1) vers by (auto simp: sm_read_metadata_def split: option.splits)
    then have "versions c i = {v}"
      using v(2) by (intro set_eqI) (auto simp: versions_def removed(2) set_eq_iff)
    then have "stored c i = (v, data)"
      using removed v by (simp add: stored_def newest_def)
    ultimately show ?thesis using removed by (simp add: dir_ok_delete dir_ok_upd_file ok v l)
  qed
  then show "dir_ok c" and "j' \<noteq> i \<Longrightarrow> stored c j' = stored (snd s) j'"
    and "stored c i \<in> {stored (snd s) i, (v, data)}" by blast+
qed

section \<open>The contract of the trait\<close>

text \<open>
  What an atomic register relies on. \<open>reopen\<close> relates a store to the one that a new process
  builds from it, \<open>torn i x\<close> to the one built after a crash in the middle of writing \<open>x\<close>.
  A write needs a version different from the stored one and from \<open>(0, 0)\<close>.
\<close>

locale sector_store =
  fixes inv :: "'s \<Rightarrow> bool"
    and write_sector :: "SectorIdx \<Rightarrow> SectorVec \<times> u64 \<times> u8 \<Rightarrow> 's \<Rightarrow> 's res"
    and read_data :: "SectorIdx \<Rightarrow> 's \<Rightarrow> SectorVec res"
    and read_metadata :: "SectorIdx \<Rightarrow> 's \<Rightarrow> version"
    and reopen :: "'s \<Rightarrow> 's \<Rightarrow> bool"
    and torn :: "SectorIdx \<Rightarrow> SectorVec \<times> u64 \<times> u8 \<Rightarrow> 's \<Rightarrow> 's \<Rightarrow> bool"
  assumes read_ok: "inv s \<Longrightarrow> \<exists>v. read_data i s = Ok v \<and> wf_sector v"
    and write_ok:
      "inv s \<Longrightarrow> wf_sector v \<Longrightarrow> (ts, wr) \<noteq> (0, 0) \<Longrightarrow> (ts, wr) \<noteq> read_metadata i s \<Longrightarrow>
         \<exists>s'. write_sector i (v, ts, wr) s = Ok s' \<and> inv s' \<and>
              read_data i s' = Ok v \<and> read_metadata i s' = (ts, wr) \<and>
              (\<forall>j. j \<noteq> i \<longrightarrow> read_data j s' = read_data j s \<and> read_metadata j s' = read_metadata j s)"
    and reopen_ok:
      "inv s \<Longrightarrow> reopen s s' \<Longrightarrow>
         inv s' \<and> read_data i s' = read_data i s \<and> read_metadata i s' = read_metadata i s"
    and torn_ok:
      "inv s \<Longrightarrow> wf_sector v \<Longrightarrow> (ts, wr) \<noteq> (0, 0) \<Longrightarrow> (ts, wr) \<noteq> read_metadata i s \<Longrightarrow>
       torn i (v, ts, wr) s s' \<Longrightarrow>
         inv s' \<and>
         (read_data i s' = read_data i s \<and> read_metadata i s' = read_metadata i s \<or>
          read_data i s' = Ok v \<and> read_metadata i s' = (ts, wr)) \<and>
         (\<forall>j. j \<noteq> i \<longrightarrow> read_data j s' = read_data j s \<and> read_metadata j s' = read_metadata j s)"

text \<open>The file-based manager: a new process lists the directory in some order and recovers it.\<close>

definition sm_reopen :: "SectorsManagerState \<times> fs \<Rightarrow> SectorsManagerState \<times> fs \<Rightarrow> bool" where
  "sm_reopen s s' \<longleftrightarrow>
     (\<exists>es. distinct es \<and> set es = dom (snd s) \<and> sm_new (\<lambda>_. es) (path (fst s)) (Some (snd s)) = Ok s')"

definition sm_torn ::
    "SectorIdx \<Rightarrow> SectorVec \<times> u64 \<times> u8 \<Rightarrow> SectorsManagerState \<times> fs \<Rightarrow> SectorsManagerState \<times> fs \<Rightarrow> bool" where
  "sm_torn i sector s s' \<longleftrightarrow>
     (\<exists>k j c. interrupted (write_ops i (fst sector) (fst (snd sector)) (snd (snd sector))
                (sm_read_metadata i s)) k j (snd s) = Ok c \<and> sm_reopen (fst s, c) s')"

lemma sm_reopen_dir:
  assumes d: "dir_ok (snd s)" and r: "sm_reopen s s'"
  shows "sm_inv s' \<and> (\<forall>i. stored (snd s') i = stored (snd s) i)"
proof -
  obtain es where es: "distinct es" "set es = dom (snd s)"
      "sm_new (\<lambda>_. es) (path (fst s)) (Some (snd s)) = Ok s'"
    using r by (auto simp: sm_reopen_def)
  then show ?thesis
    using recovery_complete[OF d es(1,2), of "path (fst s)"] by (metis res.inject(1))
qed

interpretation file_store: sector_store sm_inv sm_write sm_read_data sm_read_metadata sm_reopen sm_torn
proof (unfold_locales, goal_cases)
  case (1 s i)
  then show ?case using sm_inv_reads by blast
next
  case (2 s v ts wr i)
  obtain s' where s': "sm_write i (v, ts, wr) s = Ok s'" "sm_inv s'" "stored (snd s') i = ((ts, wr), v)"
      "\<And>j. j \<noteq> i \<Longrightarrow> stored (snd s') j = stored (snd s) j"
    by (rule sm_write_correct[OF 2(1-4)], unfold fst_conv snd_conv) blast
  then show ?case
    by (intro exI[of _ s']) (simp add: sm_inv_reads[OF s'(2)] sm_inv_reads[OF 2(1)])
next
  case (3 s s' i)
  then have "sm_inv s'" "stored (snd s') i = stored (snd s) i"
    using sm_reopen_dir[OF sm_inv_dir_ok] by blast+
  with 3(1) show ?case by (simp add: sm_inv_reads)
next
  case (4 s v ts wr i s')
  then obtain k j c where c: "interrupted (write_ops i v ts wr (sm_read_metadata i s)) k j (snd s) = Ok c"
      and r: "sm_reopen (fst s, c) s'"
    by (auto simp: sm_torn_def)
  note w = sm_write_interrupted[OF 4(1-4), unfolded fst_conv snd_conv, OF c]
  have s': "sm_inv s'" "\<And>i. stored (snd s') i = stored c i"
    using sm_reopen_dir[OF _ r] w(1) by simp_all
  show ?case
    using w(2,3) s'(1)
    by (simp add: sm_inv_reads[OF s'(1)] sm_inv_reads[OF 4(1)] s'(2)) (elim disjE; simp)
qed

section \<open>The in-memory drive of the tests\<close>

text \<open>\<open>RamDrive\<close> of \<^verbatim>\<open>src/test-utils/atomic_register.rs\<close>, the other provider of the trait: a map
  that outlives the registers, with writes that are never torn.\<close>

type_synonym RamDrive = "SectorIdx \<rightharpoonup> SectorVec \<times> u64 \<times> u8"

definition ram_read_data :: "SectorIdx \<Rightarrow> RamDrive \<Rightarrow> SectorVec res" where
  "ram_read_data idx m =
     (case m idx of Some (sector_data, _, _) \<Rightarrow> Ok sector_data | None \<Rightarrow> Ok (SectorVec (replicate 4096 0)))"

definition ram_read_metadata :: "SectorIdx \<Rightarrow> RamDrive \<Rightarrow> version" where
  "ram_read_metadata idx m =
     (case m idx of Some (_, timestamp, rank) \<Rightarrow> (timestamp, rank) | None \<Rightarrow> (0, 0))"

definition ram_write :: "SectorIdx \<Rightarrow> SectorVec \<times> u64 \<times> u8 \<Rightarrow> RamDrive \<Rightarrow> RamDrive res" where
  "ram_write idx sector m = Ok (m(idx \<mapsto> sector))"

definition ram_inv :: "RamDrive \<Rightarrow> bool" where
  "ram_inv m \<longleftrightarrow> (\<forall>i x. m i = Some x \<longrightarrow> wf_sector (fst x))"

lemma ram_reads_upd [simp]:
  "ram_read_data j (m(i \<mapsto> (v, ts, wr))) = (if j = i then Ok v else ram_read_data j m)"
  "ram_read_metadata j (m(i \<mapsto> (v, ts, wr))) = (if j = i then (ts, wr) else ram_read_metadata j m)"
  by (simp_all add: ram_read_data_def ram_read_metadata_def)

lemma ram_inv_upd: "ram_inv m \<Longrightarrow> wf_sector v \<Longrightarrow> ram_inv (m(i \<mapsto> (v, ts, wr)))"
  unfolding ram_inv_def fun_upd_apply by (metis fst_conv option.inject)

lemma ram_read_ok: "ram_inv m \<Longrightarrow> \<exists>v. ram_read_data i m = Ok v \<and> wf_sector v"
proof (cases "m i")
  case (Some x)
  moreover assume "ram_inv m"
  ultimately have "wf_sector (fst x)" unfolding ram_inv_def by blast
  with Some show ?thesis by (cases x) (simp add: ram_read_data_def)
qed (simp add: ram_read_data_def wf_sector_def)

interpretation ram_store: sector_store ram_inv ram_write ram_read_data ram_read_metadata "(=)"
    "\<lambda>i x s s'. s' = s \<or> ram_write i x s = Ok s'"
proof (unfold_locales, goal_cases)
  case (1 s i)
  then show ?case by (rule ram_read_ok)
next
  case (2 s v ts wr i)
  then show ?case by (simp add: ram_write_def ram_inv_upd)
next
  case (3 s s' i)
  then show ?case by simp
next
  case (4 s v ts wr i s')
  then have "s' = s \<or> s' = s(i \<mapsto> (v, ts, wr))" by (simp add: ram_write_def) blast
  with 4(1,2) show ?case by (elim disjE) (simp_all add: ram_inv_upd)
qed

lemma sm_write_same_version:
  assumes "sm_inv s" and "sm_read_metadata idx s = (ts, wr)" and "(ts, wr) \<noteq> (0, 0)"
  shows "\<exists>s'. sm_write idx (data, ts, wr) s = Ok s' \<and>
           sm_read_data idx s' = Panic (Expect ''Failed to open sector file'')"
proof -
  have "fs_run (write_ops idx data ts wr (ts, wr)) (snd s) = Ok ((snd s)(file_of idx (ts, wr) := None))"
    using assms(3) sm_inv_no_tmp[OF assms(1), of idx "(ts, wr)"]
    by (auto simp: write_ops_def Let_def fun_upd_twist fun_upd_idem)
  then show ?thesis
    using assms(2) by (simp add: sm_write_def sm_read_metadata_def[symmetric] sm_read_data_def)
qed

section \<open>Properties\<close>

definition empty_store :: "SectorsManagerState \<times> fs" where
  "empty_store = (\<lparr>path = ''storage'', data_access = Map.empty\<rparr>, Map.empty)"

lemma empty_store_inv: "sm_inv empty_store"
  by (simp add: sm_inv_def empty_store_def)

text \<open>
  C27. A write of a sector with a new, nonzero version succeeds, keeps the manager's
  invariant, and is what reading the sector and its metadata returns afterwards; every other
  sector reads as before.
\<close>

theorem sm_write_read:
  assumes "sm_inv s" and "wf_sector data"
    and "(ts, wr) \<noteq> (0, 0)" and "(ts, wr) \<noteq> sm_read_metadata idx s"
  shows "\<exists>s'. sm_write idx (data, ts, wr) s = Ok s' \<and> sm_inv s' \<and>
           sm_read_data idx s' = Ok data \<and> sm_read_metadata idx s' = (ts, wr) \<and>
           (\<forall>j. j \<noteq> idx \<longrightarrow> sm_read_data j s' = sm_read_data j s \<and>
                              sm_read_metadata j s' = sm_read_metadata j s)"
  by (rule file_store.write_ok[OF assms])

theorem sm_write_read_witness:
  "\<exists>s'. sm_write 0 (zero_sector, 1, 1) empty_store = Ok s' \<and> sm_inv s' \<and>
     sm_read_data 0 s' = Ok zero_sector \<and> sm_read_metadata 0 s' = (1, 1) \<and>
     (\<forall>j. j \<noteq> 0 \<longrightarrow> sm_read_data j s' = sm_read_data j empty_store \<and>
                      sm_read_metadata j s' = sm_read_metadata j empty_store)"
  by (rule sm_write_read[OF empty_store_inv])
    (simp_all add: sm_read_metadata_def empty_store_def)



text \<open>
  C26. Recovery of any directory of sector files and temporary files, listed in any order,
  succeeds; it keeps for every sector exactly the file with the largest (timestamp, rank)
  pair, with its contents, and removes everything else.
\<close>

theorem recovery_keeps_newest:
  assumes "dir_ok d" and "distinct entries" and "set entries = dom d"
  shows "\<exists>s'. sm_new (\<lambda>_. entries) p (Some d) = Ok s' \<and>
           data_access (fst s') = (\<lambda>i. newest (versions d i)) \<and>
           dom (snd s') = {file_of i v | i v. newest (versions d i) = Some v} \<and>
           (\<forall>n \<in> dom (snd s'). snd s' n = d n)"
proof -
  have seen: "seen entries i = versions d i" for i
    using assms(3) by (auto simp: seen_def versions_def)
  have e0: "(\<lambda>i. newest (seen [] i)) = Map.empty" "swept [] d = d"
    by (auto simp: seen_def newest_def swept_def)
  have "sectors_crash_recovery entries Map.empty d = Ok (\<lambda>i. newest (versions d i), swept entries d)"
    using recovery_loop[OF assms(1), of "[]" entries] assms(2,3) by (simp add: e0 seen)
  moreover have "kept entries \<subseteq> dom d"
    using newest_SomeD by (fastforce simp: kept_def seen versions_def)
  then have "dom (swept entries d) = kept entries"
    using assms(3) by (auto simp: swept_def dom_def)
  ultimately show ?thesis
    using assms(3) by (auto simp: sm_new_def kept_def seen swept_def split: if_splits)
qed

definition two_versions :: fs where
  "two_versions = [sectoridx_file_path 0 1 1 \<mapsto> replicate 4096 5, sectoridx_file_path 0 2 1 \<mapsto> replicate 4096 6,
     sectoridx_tmp_file_path 0 3 1 \<mapsto> [7]]"

lemma two_versions_ok: "dir_ok two_versions"
  unfolding two_versions_def
  using dir_ok_upd_tmp[OF dir_ok_upd_file[OF dir_ok_upd_file], of Map.empty "(1, 1)" "replicate 4096 5"
      "(2, 1)" "replicate 4096 6" 0 0 0 "(3, 1)" "[7]"]
  by (simp add: dir_ok_def)

theorem recovery_keeps_newest_witness:
  "\<exists>s'. sm_new (\<lambda>_. [sectoridx_file_path 0 2 1, sectoridx_tmp_file_path 0 3 1, sectoridx_file_path 0 1 1])
            ''storage'' (Some two_versions) = Ok s' \<and>
     data_access (fst s') = (\<lambda>i. newest (versions two_versions i)) \<and>
     dom (snd s') = {file_of i v | i v. newest (versions two_versions i) = Some v} \<and>
     (\<forall>n \<in> dom (snd s'). snd s' n = two_versions n)"
  by (rule recovery_keeps_newest[OF two_versions_ok]) (auto simp: two_versions_def file_path_inject)



text \<open>
  Rewriting a sector with the version it already has loses it: the renamed file is the
  one that is then removed as the old file, and the next read of the sector panics.
\<close>

theorem sm_rewrite_same_version_loses_sector:
  assumes "sm_inv s" and "sm_read_metadata idx s = (ts, wr)" and "(ts, wr) \<noteq> (0, 0)"
  shows "\<exists>s'. sm_write idx (data, ts, wr) s = Ok s' \<and>
           sm_read_data idx s' = Panic (Expect ''Failed to open sector file'')"
  by (rule sm_write_same_version[OF assms])

theorem sm_rewrite_same_version_loses_sector_witness:
  "\<exists>s s'. sm_inv s \<and> sm_write 0 (zero_sector, 1, 1) s = Ok s' \<and>
     sm_read_data 0 s' = Panic (Expect ''Failed to open sector file'')"
proof -
  obtain s where s: "sm_inv s" "sm_read_metadata 0 s = (1, 1)"
    using file_store.write_ok[OF empty_store_inv, of zero_sector 1 1 0]
    by (auto simp: sm_read_metadata_def empty_store_def)
  then show ?thesis
    using sm_rewrite_same_version_loses_sector[OF s, of zero_sector] by (metis prod.inject zero_neq_one)
qed

end
