(* ===== verification/Register_Storage.thy ===== *)
theory Register_Storage
  imports Atomic_Register Sectors_Manager
begin

text \<open>
  Atomic registers over their stable storage. A register hands every new version to its sectors
  manager before it sends anything (\<^verbatim>\<open>atomic_register.rs\<close>), the manager keeps it across crashes
  (\<^verbatim>\<open>sectors_manager.rs\<close>), and \<open>build_atomic_register\<close> of \<^verbatim>\<open>lib.rs\<close> starts from what it reads
  there. This theory puts the three together, once for every provider of the
  \<open>SectorsManager\<close> trait, and states the outcome for the file-based one.
\<close>

section \<open>Well-formed registers\<close>

text \<open>The sectors in a register, in a message, and in what a handler emits.\<close>

definition reg_sectors :: "'cb AtomicRegisterState \<Rightarrow> SectorVec set" where
  "reg_sectors s = {ar_val s, writeval s, readval s} \<union> (\<lambda>e. snd (snd e)) ` snd ` set (readlist s)"

fun msg_sectors :: "SystemRegisterCommandContent \<Rightarrow> SectorVec set" where
  "msg_sectors (Value _ _ d) = {d}"
| "msg_sectors (WriteProc _ _ d) = {d}"
| "msg_sectors _ = {}"

fun request_sectors :: "ClientRegisterCommandContent \<Rightarrow> SectorVec set" where
  "request_sectors Read = {}"
| "request_sectors (Write d) = {d}"

fun return_sectors :: "OperationReturn \<Rightarrow> SectorVec set" where
  "return_sectors (OpRead d) = {read_data_ret d}"
| "return_sectors OpWrite = {}"

fun effect_sectors :: "'cb ar_effect \<Rightarrow> SectorVec set" where
  "effect_sectors (Store _ x) = {fst x}"
| "effect_sectors (Send _ m) = msg_sectors (s_content m)"
| "effect_sectors (Broadcast m) = msg_sectors (s_content m)"
| "effect_sectors (Callback _ r) = return_sectors (op_return r)"

text \<open>A handler makes up no sector: what it holds and emits afterwards it held before or received.\<close>

lemma client_command_sectors:
  "client_command uuid cmd cb s = (s', es) \<Longrightarrow>
     reg_sectors s' \<union> (\<Union> (effect_sectors ` set es)) \<subseteq> reg_sectors s \<union> request_sectors (c_content cmd)"
  by (cases "c_content cmd") (auto simp: client_command_eq reg_sectors_def)

lemma chosen_sector:
  assumes "iterates iter" and "highest iter (gathered hdr (t, w, d) s) = Some (t', w', d')"
  shows "d' \<in> insert d (reg_sectors s)"
proof (rule highest_max[OF assms(1) gathered_nonempty[of hdr "(t, w, d)" s]])
  fix q e assume "highest iter (gathered hdr (t, w, d) s) = Some e" "(q, e) \<in> set (gathered hdr (t, w, d) s)"
  with assms(2) have "(t', w', d') \<in> snd ` set (gathered hdr (t, w, d) s)" by force
  then have "(t', w', d') \<in> {(ar_ts s, ar_wr s, ar_val s), (t, w, d)} \<union> snd ` set (readlist s)"
    using gathered_set[of hdr "(t, w, d)" s] by blast
  then show ?thesis unfolding reg_sectors_def by force
qed

lemma collected_sectors:
  "(\<lambda>e. snd (snd e)) ` snd ` set (collected hdr (t, w, d) s) \<subseteq> insert d (reg_sectors s)"
  using image_mono[OF update_values[of "process_identifier hdr" "(t, w, d)" "readlist s"], of "\<lambda>e. snd (snd e)"]
  unfolding reg_sectors_def by auto

lemma system_command_sectors:
  assumes "iterates iter" and "system_command iter chk cmd s = Ok (s', es)"
  shows "reg_sectors s' \<union> (\<Union> (effect_sectors ` set es)) \<subseteq> reg_sectors s \<union> msg_sectors (s_content cmd)"
proof (cases "s_content cmd")
  case ReadProc
  with assms show ?thesis by (auto simp: handle_read_proc_eq reg_sectors_def)
next
  case (Value t w d)
  with assms(2) have "handle_value iter chk (s_header cmd) t w d s = Ok (s', es)" by simp
  then show ?thesis
  proof (cases rule: handle_value_cases)
    case waiting
    with Value show ?thesis using collected_sectors[of "s_header cmd" t w d s] unfolding reg_sectors_def by auto
  next
    case (read_quorum maxts rr rv)
    with Value chosen_sector[OF assms(1) read_quorum(5)] show ?thesis unfolding reg_sectors_def by simp
  next
    case (write_quorum maxts rr rv t')
    with Value chosen_sector[OF assms(1) write_quorum(6)] show ?thesis unfolding reg_sectors_def by simp
  qed auto
next
  case (WriteProc t w d)
  with assms(2) have "handle_write_proc (s_header cmd) t w d s = Ok (s', es)" by simp
  then show ?thesis
    by (cases rule: handle_write_proc_cases) (use WriteProc in \<open>auto simp: reg_sectors_def\<close>)
next
  case Ack
  with assms(2) have "handle_ack (s_header cmd) s = Ok (s', es)" by simp
  then show ?thesis
    by (cases rule: handle_ack_cases)
      (auto simp: reg_sectors_def completed_def finished_def split: option.splits)
qed

text \<open>All sectors a register holds have 4096 bytes.\<close>

definition reg_wf :: "'cb AtomicRegisterState \<Rightarrow> bool" where
  "reg_wf s \<longleftrightarrow> wf_sector (ar_val s) \<and> wf_sector (writeval s) \<and> wf_sector (readval s) \<and>
     (\<forall>e \<in> snd ` set (readlist s). wf_sector (snd (snd e)))"

fun wf_effect :: "'cb ar_effect \<Rightarrow> bool" where
  "wf_effect (Store _ x) = wf_sector (fst x)"
| "wf_effect (Send _ m) = wf_command (System m)"
| "wf_effect (Broadcast m) = wf_command (System m)"
| "wf_effect (Callback _ r) = (case op_return r of OpRead d \<Rightarrow> wf_sector (read_data_ret d) | OpWrite \<Rightarrow> True)"

lemma reg_wf_sectors: "reg_wf s \<longleftrightarrow> (\<forall>d \<in> reg_sectors s. wf_sector d)"
  by (auto simp: reg_wf_def reg_sectors_def)

lemma wf_content_sectors:
  "wf_system_content c \<longleftrightarrow> (\<forall>d \<in> msg_sectors c. wf_sector d)"
  "wf_client_content r \<longleftrightarrow> (\<forall>d \<in> request_sectors r. wf_sector d)"
  by ((cases c; simp), (cases r; simp))

lemma wf_effect_sectors: "wf_effect e \<longleftrightarrow> (\<forall>d \<in> effect_sectors e. wf_sector d)"
  by (cases e rule: effect_sectors.cases) (auto simp: wf_content_sectors split: OperationReturn.splits)

lemma ar_new_wf: "wf_sector v \<Longrightarrow> reg_wf (ar_new self i n t w v)"
  by (simp add: reg_wf_def ar_new_def wf_sector_def)

lemma client_command_wf:
  assumes "reg_wf s" and "wf_command (Client cmd)" and "client_command uuid cmd cb s = (s', es)"
  shows "reg_wf s' \<and> (\<forall>e \<in> set es. wf_effect e)"
  using assms client_command_sectors[OF assms(3)] unfolding reg_wf_sectors wf_effect_sectors
  by (simp add: wf_content_sectors) blast

lemma system_command_wf:
  assumes "reg_wf s" and "iterates iter" and "wf_command (System cmd)"
    and "system_command iter chk cmd s = Ok (s', es)"
  shows "reg_wf s' \<and> (\<forall>e \<in> set es. wf_effect e)"
  using assms system_command_sectors[OF assms(2,4)] unfolding reg_wf_sectors wf_effect_sectors
  by (simp add: wf_content_sectors) blast

section \<open>Performing the effects on a store\<close>

fun perform_stores ::
    "(SectorIdx \<Rightarrow> SectorVec \<times> u64 \<times> u8 \<Rightarrow> 's \<Rightarrow> 's res) \<Rightarrow> 'cb ar_effect list \<Rightarrow> 's \<Rightarrow> 's res" where
  "perform_stores store_sector [] st = Ok st"
| "perform_stores store_sector (Store i x # es) st = res_bind (store_sector i x st) (perform_stores store_sector es)"
| "perform_stores store_sector (_ # es) st = perform_stores store_sector es st"

lemma perform_no_stores:
  "(\<And>e. e \<in> set es \<Longrightarrow> \<not> is_store e) \<Longrightarrow> perform_stores f es st = Ok st"
  by (induction f es st rule: perform_stores.induct) (auto, force+)

text \<open>The version a handler is about to store differs from the stored one.\<close>

definition new_versions :: "'cb AtomicRegisterState \<Rightarrow> 'cb ar_effect list \<Rightarrow> bool" where
  "new_versions s es \<longleftrightarrow>
     (\<forall>i x. Store i x \<in> set es \<longrightarrow> snd x \<noteq> (ar_ts s, ar_wr s) \<and> snd x \<noteq> (0, 0))"

text \<open>For \<open>WriteProc\<close> this always holds, for a write if its rank is positive and its version new.\<close>

lemma write_proc_new_versions:
  "s_content cmd = WriteProc t w d \<Longrightarrow> system_command iter chk cmd s = Ok (s', es) \<Longrightarrow> new_versions s es"
  by (simp, erule handle_write_proc_cases) (auto simp: new_versions_def)

text \<open>The register's triple is the one stored under its index.\<close>

definition synced ::
    "(SectorIdx \<Rightarrow> 's \<Rightarrow> u64 \<times> u8) \<Rightarrow> (SectorIdx \<Rightarrow> 's \<Rightarrow> SectorVec res) \<Rightarrow>
     'cb AtomicRegisterState \<Rightarrow> 's \<Rightarrow> bool" where
  "synced read_metadata read_data s st \<longleftrightarrow>
     read_metadata (sector_idx s) st = (ar_ts s, ar_wr s) \<and> read_data (sector_idx s) st = Ok (ar_val s)"

text \<open>
  The store a new process finds when the handler of a command stopped after the effects
  \<open>done\<close>, possibly in the middle of the next one, with \<open>left\<close> still to do.
\<close>

definition crash_store ::
    "(SectorIdx \<Rightarrow> SectorVec \<times> u64 \<times> u8 \<Rightarrow> 's \<Rightarrow> 's res) \<Rightarrow> ('s \<Rightarrow> 's \<Rightarrow> bool) \<Rightarrow>
     (SectorIdx \<Rightarrow> SectorVec \<times> u64 \<times> u8 \<Rightarrow> 's \<Rightarrow> 's \<Rightarrow> bool) \<Rightarrow>
     'cb ar_effect list \<Rightarrow> 'cb ar_effect list \<Rightarrow> 's \<Rightarrow> 's \<Rightarrow> bool" where
  "crash_store write_sector reopen torn performed left st st' \<longleftrightarrow>
     (\<exists>st1. perform_stores write_sector performed st = Ok st1 \<and>
        (reopen st1 st' \<or> (\<exists>i x rest. left = Store i x # rest \<and> torn i x st1 st')))"

context sector_store
begin

abbreviation (input) in_sync :: "'cb AtomicRegisterState \<Rightarrow> 's \<Rightarrow> bool" where
  "in_sync \<equiv> synced read_metadata read_data"

lemma synced_build:
  "in_sync s st \<Longrightarrow>
     build_atomic_register read_metadata read_data self (sector_idx s) n st =
       Ok (ar_new self (sector_idx s) n (ar_ts s) (ar_wr s) (ar_val s))"
  by (simp add: synced_def build_atomic_register_def res_simps)

lemma build_synced:
  "inv st \<Longrightarrow> build_atomic_register read_metadata read_data self i n st = Ok s \<Longrightarrow> in_sync s st \<and> reg_wf s"
  using read_ok[of st i]
  by (auto simp: synced_def build_atomic_register_def res_simps ar_new_wf split: prod.splits)
    (auto simp: ar_new_def)

lemma step_synced:
  assumes "inv st" and "in_sync s st" and "system_command iter chk cmd s = Ok (s', es)"
    and "new_versions s es" and "\<forall>e \<in> set es. wf_effect e"
  shows "\<exists>st'. perform_stores write_sector es st = Ok st' \<and> inv st' \<and> in_sync s' st' \<and>
           (\<forall>j. j \<noteq> sector_idx s \<longrightarrow> read_data j st' = read_data j st \<and> read_metadata j st' = read_metadata j st)"
proof -
  have idx: "sector_idx s' = sector_idx s" using system_command_static[OF assms(3)] by simp
  show ?thesis
    using assms(3)
  proof (cases rule: system_command_stores)
    case unchanged
    then show ?thesis using assms(1,2) idx by (simp add: perform_no_stores synced_def)
  next
    case (stored rest)
    then have x: "wf_sector (ar_val s')" "(ar_ts s', ar_wr s') \<noteq> (ar_ts s, ar_wr s)" "(ar_ts s', ar_wr s') \<noteq> (0, 0)"
      using assms(4,5) unfolding new_versions_def by force+
    then have "(ar_ts s', ar_wr s') \<noteq> read_metadata (sector_idx s) st" using assms(2) by (simp add: synced_def)
    from write_ok[OF assms(1) x(1,3) this] stored idx show ?thesis
      by (auto simp: synced_def res_simps perform_no_stores)
  qed
qed

lemma crash_synced:
  assumes "inv st" and "in_sync s st" and "system_command iter chk cmd s = Ok (s', performed @ left)"
    and "new_versions s (performed @ left)" and "\<forall>e \<in> set (performed @ left). wf_effect e"
    and "crash_store write_sector reopen torn performed left st st'"
  shows "inv st' \<and> (in_sync s' st' \<or> in_sync s st' \<and> performed = [])"
proof -
  have idx: "sector_idx s' = sector_idx s" using system_command_static[OF assms(3)] by simp
  from assms(6) obtain st1 where st1: "perform_stores write_sector performed st = Ok st1"
      and c: "reopen st1 st' \<or> (\<exists>i x rest. left = Store i x # rest \<and> torn i x st1 st')"
    by (auto simp: crash_store_def)
  show ?thesis
    using assms(3)
  proof (cases rule: system_command_stores)
    case unchanged
    then have "\<And>e. e \<in> set performed \<Longrightarrow> \<not> is_store e" by simp
    then have "st1 = st" using st1 by (simp add: perform_no_stores)
    moreover have "\<nexists>i x rest. left = Store i x # rest" using unchanged(2) by force
    ultimately show ?thesis
      using c reopen_ok[OF assms(1)] assms(2) unchanged(1) idx by (auto simp: synced_def)
  next
    case (stored rest)
    then have x: "wf_sector (ar_val s')" "(ar_ts s', ar_wr s') \<noteq> (0, 0)"
        "(ar_ts s', ar_wr s') \<noteq> read_metadata (sector_idx s) st"
      using assms(2,4,5) unfolding new_versions_def synced_def by (force, force, force)
    show ?thesis
    proof (cases performed)
      case Nil
      then have "st1 = st" using st1 by simp
      with c Nil stored assms(2) idx show ?thesis
        using reopen_ok[OF assms(1)] torn_ok[OF assms(1) x] by (auto simp: synced_def)
    next
      case (Cons e es1)
      with stored have e: "e = Store (sector_idx s) (current s')" "es1 @ left = rest" by auto
      then have n: "\<And>e. e \<in> set es1 \<Longrightarrow> \<not> is_store e" "\<nexists>i x r. left = Store i x # r"
        using stored(2) by force+
      from write_ok[OF assms(1) x] Cons e(1) st1 n(1) idx have "inv st1" "in_sync s' st1"
        by (auto simp: synced_def res_simps perform_no_stores)
      with c n(2) idx show ?thesis using reopen_ok[of st1 st'] by (auto simp: synced_def)
    qed
  qed
qed

end

section \<open>Properties\<close>

fun wf_event :: "'cb ar_event \<Rightarrow> bool" where
  "wf_event (ClientEv _ cmd _) = wf_command (Client cmd)"
| "wf_event (SystemEv cmd) = wf_command (System cmd)"

lemma ar_run_wf:
  assumes "ar_run iter chk s0 evs es s" and "iterates iter" and "reg_wf s0"
  shows "\<forall>ev \<in> set evs. wf_event ev \<Longrightarrow> reg_wf s \<and> (\<forall>e \<in> set es. wf_effect e)"
  using assms(1)
proof (induction rule: ar_run.induct)
  case (client evs es s uuid cmd cb s' es')
  then show ?case using client_command_wf[of s cmd uuid cb s' es'] by auto
next
  case (system evs es s cmd s' es')
  then show ?case using system_command_wf[OF _ assms(2) _ system.hyps(2)] by auto
qed (simp add: assms(3))

text \<open>
  C29. Fed with well-formed commands, a register built from a sector of 4096 bytes only ever
  holds, stores, sends and answers with sectors of 4096 bytes.
\<close>

theorem register_sectors_well_formed:
  assumes "ar_run iter chk (ar_new self sidx n t w v) evs es s" and "iterates iter" and "wf_sector v"
    and "\<forall>ev \<in> set evs. wf_event ev"
  shows "reg_wf s \<and> (\<forall>e \<in> set es. wf_effect e)"
  using ar_run_wf[OF assms(1,2) ar_new_wf[OF assms(3)] assms(4)] .

theorem register_sectors_well_formed_witness:
  "\<exists>(s :: nat AtomicRegisterState) es.
     ar_run id True (ar_new 2 0 3 0 0 zero_sector) [SystemEv (to_2 3 (WriteProc 4 3 zero_sector))] es s \<and>
     ar_val s = zero_sector \<and> ar_ts s = 4 \<and> reg_wf s \<and> length es = 2"
proof -
  have "\<exists>s es. ar_exec id True [SystemEv (to_2 3 (WriteProc 4 3 zero_sector))]
      (ar_new 2 0 3 0 0 zero_sector :: nat AtomicRegisterState) = Some (s, es) \<and>
      ar_val s = zero_sector \<and> ar_ts s = 4 \<and> length es = 2"
    by (simp add: exec_simps)
  then obtain s es where r: "ar_exec id True [SystemEv (to_2 3 (WriteProc 4 3 zero_sector))]
      (ar_new 2 0 3 0 0 zero_sector :: nat AtomicRegisterState) = Some (s, es)"
      "ar_val s = zero_sector" "ar_ts s = 4" "length es = 2" by blast
  have "reg_wf s"
    using register_sectors_well_formed[OF ar_exec_run[OF r(1)] iterates_id(1)] by simp
  with ar_exec_run[OF r(1)] r show ?thesis by blast
qed










text \<open>
  C30. The order by rank alone can destroy a sector. Suppose a process completed a write and
  starts another one, and that among the collected values its choice falls on its own previous
  version, which has the same rank and the timestamp one below (two entries of equal rank are
  told apart only by the iteration order). Then the new write gets the very version that is
  stored already, the sectors manager removes the file it has just written, and the next read
  of the sector panics.
\<close>

theorem rank_tie_loses_sector:
  assumes "sm_inv st" and "synced sm_read_metadata sm_read_data s st"
    and "ar_wr s = self_ident s" and "ar_ts s \<noteq> 0"
    and "op_id s = Some (msg_ident (s_header cmd))" and "\<not> write_phase s" and "writing s" and "\<not> reading s"
    and "s_content cmd = Value t w d" and "majority s (length (collected (s_header cmd) (t, w, d) s))"
    and "highest iter (gathered (s_header cmd) (t, w, d) s) = Some (ar_ts s - 1, rr, rv)"
  shows "\<exists>s' es st'. system_command iter chk cmd s = Ok (s', es) \<and> perform_stores sm_write es st = Ok st' \<and>
           sm_read_data (sector_idx s) st' = Panic (Expect ''Failed to open sector file'')"
proof -
  have nz: "ar_ts s - 1 \<noteq> - 1" using assms(4) by simp
  have "\<exists>s' m. system_command iter chk cmd s =
      Ok (s', [Store (sector_idx s) (writeval s, ar_ts s, self_ident s), Broadcast m])"
    using assms(5-11) nz
    by (simp add: handle_value_def res_simps Let_def gathered_def checked_add_one)
  moreover obtain st' where "sm_write (sector_idx s) (writeval s, ar_ts s, self_ident s) st = Ok st'"
      "sm_read_data (sector_idx s) st' = Panic (Expect ''Failed to open sector file'')"
    using sm_write_same_version[OF assms(1), of "sector_idx s" "ar_ts s" "self_ident s" "writeval s"] assms(2-4)
    by (auto simp: synced_def)
  then have "perform_stores sm_write [Store (sector_idx s) (writeval s, ar_ts s, self_ident s), Broadcast m] st = Ok st'" for m
    by (simp add: res_simps)
  ultimately show ?thesis using \<open>sm_read_data _ st' = _\<close> by blast
qed

theorem rank_tie_loses_sector_witness:
  "\<exists>st s' es st'. sm_inv st \<and> sm_read_data 0 st = Ok zero_sector \<and> sm_read_metadata 0 st = (2, 1) \<and>
     system_command rev True \<lparr>s_header = \<lparr>process_identifier = 3, msg_ident = 9, s_sector_idx = 0\<rparr>,
                             s_content = Value 0 0 zero_sector\<rparr>
       ((ar_new 1 0 3 2 1 zero_sector :: nat AtomicRegisterState)
          \<lparr>readlist := [(2, (1, 1, zero_sector))], writing := True, callback := Some 0, rid := Some 4, op_id := Some 9\<rparr>) =
       Ok (s', es) \<and>
     perform_stores sm_write es st = Ok st' \<and> sm_read_data 0 st' = Panic (Expect ''Failed to open sector file'')"
proof -
  let ?s = "(ar_new 1 0 3 2 1 zero_sector :: nat AtomicRegisterState)
          \<lparr>readlist := [(2, (1, 1, zero_sector))], writing := True, callback := Some 0, rid := Some 4, op_id := Some 9\<rparr>"
  let ?cmd = "\<lparr>s_header = \<lparr>process_identifier = 3, msg_ident = 9, s_sector_idx = 0\<rparr>,
               s_content = Value 0 0 zero_sector\<rparr>"
  obtain st where st: "sm_inv st" "sm_read_data 0 st = Ok zero_sector" "sm_read_metadata 0 st = (2, 1)"
    using file_store.write_ok[OF empty_store_inv, of zero_sector 2 1 0]
    by (auto simp: sm_read_metadata_def empty_store_def)
  then have "synced sm_read_metadata sm_read_data ?s st" by (simp add: synced_def ar_new_def)
  moreover have "highest rev (gathered (s_header ?cmd) (0, 0, zero_sector) ?s) = Some (ar_ts ?s - 1, 1, zero_sector)"
    by (simp add: gathered_def highest_def rank_greater_def ar_new_def)
  ultimately have "\<exists>s' es st'. system_command rev True ?cmd ?s = Ok (s', es) \<and> perform_stores sm_write es st = Ok st' \<and>
           sm_read_data (sector_idx ?s) st' = Panic (Expect ''Failed to open sector file'')"
    by (intro rank_tie_loses_sector[OF st(1), where t = 0 and w = 0 and d = zero_sector]) (simp_all add: ar_new_def)
  moreover have "sector_idx ?s = 0" by (simp add: ar_new_def)
  ultimately show ?thesis using st by metis
qed

end
