(* ===== verification/Register_Process.thy ===== *)
theory Register_Process
  imports Register_Client Register_Storage
begin

text \<open>
  A process of the system: \<^verbatim>\<open>src/solution/src/register_process.rs\<close>. It reads commands from
  connections, checks them, passes them to the worker of their sector, and answers clients.

  The state holds the queue, the semaphore and the register of every sector. What the process uses
  of other components are parameters: writing a sector (\<open>store_sector\<close>), the two operations of the
  register client (\<open>send\<close>, \<open>broadcast\<close>), the hmac crate, and the writer of a connection.
  A result \<open>None\<close> of a step means that the task waits for the semaphore.
\<close>

section \<open>Responses\<close>

definition get_rid_and_msg_type :: "RegisterCommand \<Rightarrow> (u64 \<times> u8) res" where
  "get_rid_and_msg_type cmd =
     (case cmd of
        Client c \<Rightarrow>
          (case c_content c of
             Read \<Rightarrow> Ok (request_identifier (c_header c), 0x01)
           | Write _ \<Rightarrow> Ok (request_identifier (c_header c), 0x02))
      | System _ \<Rightarrow> Panic (ExplicitPanic ''System command should not be handled here''))"

definition sign_response :: "'m mac_api \<Rightarrow> bytes \<Rightarrow> bytes \<Rightarrow> bytes res" where
  "sign_response M hmac_client_key buf =
     res_bind (unwrap_opt (Expect ''HMAC can take key of any size'') (mac_new M hmac_client_key)) (\<lambda>mac.
     let tag = mac_finalize M (mac_update M mac buf)
     in if length tag = 32 then Ok (buf @ tag)
        else Panic (Expect ''HMAC output is of the correct length''))"

definition construct_valid_response ::
    "bool \<Rightarrow> 'm mac_api \<Rightarrow> OperationSuccess \<Rightarrow> bytes \<Rightarrow> u8 \<Rightarrow> u64 \<Rightarrow> bytes res" where
  "construct_valid_response chk M op_success hmac_client_key msg_type request_id =
     res_bind (checked_add chk msg_type 0x40) (\<lambda>response_msg_type.
     sign_response M hmac_client_key
       (MAGIC_NUMBER @ [0, 0, status_code_u8 StatusOk, response_msg_type] @ to_be_bytes 8 request_id @
        (case op_return op_success of OpRead d \<Rightarrow> sector_bytes (read_data_ret d) | OpWrite \<Rightarrow> [])))"

definition construct_invalid_hmac_response :: "bool \<Rightarrow> 'm mac_api \<Rightarrow> bytes \<Rightarrow> u8 \<Rightarrow> u64 \<Rightarrow> bytes res" where
  "construct_invalid_hmac_response chk M hmac_client_key msg_type request_id =
     res_bind (checked_add chk msg_type 0x40) (\<lambda>response_msg_type.
     sign_response M hmac_client_key
       (MAGIC_NUMBER @ [0, 0, status_code_u8 AuthFailure, response_msg_type] @ to_be_bytes 8 request_id))"

definition construct_invalid_sector_index_response ::
    "bool \<Rightarrow> 'm mac_api \<Rightarrow> bytes \<Rightarrow> u8 \<Rightarrow> u64 \<Rightarrow> bytes res" where
  "construct_invalid_sector_index_response chk M hmac_client_key msg_type request_id =
     res_bind (checked_add chk msg_type 0x40) (\<lambda>response_msg_type.
     sign_response M hmac_client_key
       (MAGIC_NUMBER @ [0, 0, status_code_u8 InvalidSectorIndex, response_msg_type] @ to_be_bytes 8 request_id))"

section \<open>State\<close>

text \<open>
  A callback owns the command, the write half of the connection and the permit of the sector.
\<close>

record callback_closure =
  cb_cmd :: RegisterCommand
  cb_writer :: nat
  cb_guard :: SectorIdx

type_synonym worker_queue = "(RegisterCommand \<times> callback_closure option) list"

record ('w, 'st, 'l) RegisterProcessState =
  rp_hmac_system_key :: bytes
  rp_hmac_client_key :: bytes
  rp_n_sectors :: u64
  sectors_txs :: "SectorIdx \<rightharpoonup> worker_queue"
  sectors_guards :: "SectorIdx \<rightharpoonup> nat"
  registers :: "SectorIdx \<rightharpoonup> callback_closure AtomicRegisterState"
  writers :: "nat \<Rightarrow> 'w"
  rp_store :: 'st
  rp_links :: 'l

text \<open>
  \<open>new\<close>: an empty queue, one permit and a worker per sector. A worker starts by building its
  register; one whose building panics is gone and its channel closed.
\<close>

definition rp_new ::
    "(SectorIdx \<Rightarrow> 'st \<Rightarrow> u64 \<times> u8) \<Rightarrow> (SectorIdx \<Rightarrow> 'st \<Rightarrow> SectorVec res) \<Rightarrow>
     u8 \<Rightarrow> bytes \<Rightarrow> bytes \<Rightarrow> u8 \<Rightarrow> u64 \<Rightarrow> (nat \<Rightarrow> 'w) \<Rightarrow> 'st \<Rightarrow> 'l \<Rightarrow> ('w, 'st, 'l) RegisterProcessState" where
  "rp_new read_metadata read_data self_id sk ck n n_sectors ws st links =
     \<lparr>rp_hmac_system_key = sk, rp_hmac_client_key = ck, rp_n_sectors = n_sectors,
      sectors_txs = (\<lambda>i. if i < n_sectors then Some [] else None),
      sectors_guards = (\<lambda>i. if i < n_sectors then Some 1 else None),
      registers = (\<lambda>i. if i < n_sectors then
                     (case build_atomic_register read_metadata read_data self_id i n st of
                        Ok r \<Rightarrow> Some r | _ \<Rightarrow> None) else None),
      writers = ws, rp_store = st, rp_links = links\<rparr>"

section \<open>Answering\<close>

definition send_response ::
    "'w writer \<Rightarrow> bytes \<Rightarrow> nat \<Rightarrow> ('w, 'st, 'l) RegisterProcessState \<Rightarrow> ('w, 'st, 'l) RegisterProcessState res" where
  "send_response wr response conn p =
     (case wr response (writers p conn) of
        (None, w) \<Rightarrow> Ok (p\<lparr>writers := (writers p)(conn := w)\<rparr>)
      | (Some _, _) \<Rightarrow> Panic (Expect ''Failed to write response''))"

definition release_guard :: "SectorIdx \<Rightarrow> ('w, 'st, 'l) RegisterProcessState \<Rightarrow> ('w, 'st, 'l) RegisterProcessState" where
  "release_guard i p = p\<lparr>sectors_guards := (sectors_guards p)(i := map_option Suc (sectors_guards p i))\<rparr>"

text \<open>Running the closure of \<open>success_callback\<close>; dropping the permit comes last.\<close>

definition success_callback ::
    "bool \<Rightarrow> 'm mac_api \<Rightarrow> 'w writer \<Rightarrow> callback_closure \<Rightarrow> OperationSuccess \<Rightarrow>
     ('w, 'st, 'l) RegisterProcessState \<Rightarrow> ('w, 'st, 'l) RegisterProcessState res" where
  "success_callback chk M wr cb op_success p =
     res_bind (get_rid_and_msg_type (cb_cmd cb)) (\<lambda>(request_id, msg_type).
     res_bind (construct_valid_response chk M op_success (rp_hmac_client_key p) msg_type request_id) (\<lambda>response.
     res_bind (send_response wr response (cb_writer cb) p) (\<lambda>p.
     Ok (release_guard (cb_guard cb) p))))"

section \<open>Connections\<close>

definition to_sector ::
    "SectorIdx \<Rightarrow> RegisterCommand \<times> callback_closure option \<Rightarrow> ('w, 'st, 'l) RegisterProcessState \<Rightarrow>
     ('w, 'st, 'l) RegisterProcessState res" where
  "to_sector i item p =
     res_bind (unwrap_opt (Expect ''Sector handler not found'') (sectors_txs p i)) (\<lambda>q.
     if registers p i = None then Panic (Expect ''Failed to send message to sector'')
     else Ok (p\<lparr>sectors_txs := (sectors_txs p)(i \<mapsto> q @ [item])\<rparr>))"

text \<open>The body of the loop of a connection after a command was decoded.\<close>

definition handle_decoded ::
    "bool \<Rightarrow> 'm mac_api \<Rightarrow> 'w writer \<Rightarrow> nat \<Rightarrow> RegisterCommand \<times> bool \<Rightarrow>
     ('w, 'st, 'l) RegisterProcessState \<Rightarrow> ('w, 'st, 'l) RegisterProcessState res option" where
  "handle_decoded chk M wr conn decoded p =
     (case decoded of (cmd, hmac_ok) \<Rightarrow>
      if hmac_ok then
        (case cmd of
           Client c \<Rightarrow>
             let sidx = c_sector_idx (c_header c) in
             if sidx < rp_n_sectors p then
               (case sectors_txs p sidx of
                  None \<Rightarrow> Some (Panic (Expect ''Sector handler not found''))
                | Some _ \<Rightarrow>
                    (case sectors_guards p sidx of
                       None \<Rightarrow> Some (Panic (Expect ''Sector mutex not found''))
                     | Some 0 \<Rightarrow> None
                     | Some (Suc permits) \<Rightarrow>
                         Some (to_sector sidx
                           (cmd, Some \<lparr>cb_cmd = cmd, cb_writer = conn, cb_guard = sidx\<rparr>)
                           (p\<lparr>sectors_guards := (sectors_guards p)(sidx \<mapsto> permits)\<rparr>))))
             else
               Some (res_bind (get_rid_and_msg_type cmd) (\<lambda>(request_id, msg_type).
                     res_bind (construct_invalid_sector_index_response chk M (rp_hmac_client_key p) msg_type request_id)
                       (\<lambda>resp. send_response wr resp conn p)))
         | System s \<Rightarrow> Some (to_sector (s_sector_idx (s_header s)) (cmd, None) p))
      else
        (case cmd of
           Client _ \<Rightarrow>
             Some (res_bind (get_rid_and_msg_type cmd) (\<lambda>(request_id, msg_type).
                   res_bind (construct_invalid_hmac_response chk M (rp_hmac_client_key p) msg_type request_id)
                     (\<lambda>resp. send_response wr resp conn p)))
         | System _ \<Rightarrow> Some (Ok p)))"

text \<open>One iteration of that loop: decode the next command from the connection and handle it.\<close>

definition accept_connections ::
    "'r reader \<Rightarrow> bool \<Rightarrow> 'm mac_api \<Rightarrow> 'w writer \<Rightarrow> nat \<Rightarrow> 'r \<Rightarrow>
     ('w, 'st, 'l) RegisterProcessState \<Rightarrow> ('w, 'st, 'l) RegisterProcessState res option \<times> 'r" where
  "accept_connections rd chk M wr conn r p =
     (case deserialize_rc rd M (rp_hmac_system_key p) (rp_hmac_client_key p) r of
        None \<Rightarrow> (None, r)
      | Some (Ok (decoded, r')) \<Rightarrow> (handle_decoded chk M wr conn decoded p, r')
      | Some (Err _) \<Rightarrow> (Some (Panic (Expect ''Failed to deserialize command'')), r)
      | Some (Panic e) \<Rightarrow> (Some (Panic e), r))"

text \<open>One iteration of \<open>handle_self_messages\<close>.\<close>

definition handle_self_message ::
    "SystemRegisterCommand \<Rightarrow> ('w, 'st, 'l) RegisterProcessState \<Rightarrow> ('w, 'st, 'l) RegisterProcessState res" where
  "handle_self_message m p = to_sector (s_sector_idx (s_header m)) (System m, None) p"

section \<open>Workers\<close>

fun rp_effects ::
    "bool \<Rightarrow> 'm mac_api \<Rightarrow> 'w writer \<Rightarrow> (SectorIdx \<Rightarrow> SectorVec \<times> u64 \<times> u8 \<Rightarrow> 'st \<Rightarrow> 'st res) \<Rightarrow>
     (u8 \<Rightarrow> SystemRegisterCommand \<Rightarrow> 'l \<Rightarrow> 'l res) \<Rightarrow> (SystemRegisterCommand \<Rightarrow> 'l \<Rightarrow> 'l res) \<Rightarrow>
     callback_closure ar_effect list \<Rightarrow> ('w, 'st, 'l) RegisterProcessState \<Rightarrow> ('w, 'st, 'l) RegisterProcessState res" where
  "rp_effects chk M wr store_sector send broadcast [] p = Ok p"
| "rp_effects chk M wr store_sector send broadcast (e # es) p =
     res_bind
       (case e of
          Store i x \<Rightarrow> res_bind (store_sector i x (rp_store p)) (\<lambda>st. Ok (p\<lparr>rp_store := st\<rparr>))
        | Send q m \<Rightarrow> res_bind (send q m (rp_links p)) (\<lambda>l. Ok (p\<lparr>rp_links := l\<rparr>))
        | Broadcast m \<Rightarrow> res_bind (broadcast m (rp_links p)) (\<lambda>l. Ok (p\<lparr>rp_links := l\<rparr>))
        | Callback cb r \<Rightarrow> success_callback chk M wr cb r p)
       (rp_effects chk M wr store_sector send broadcast es)"

text \<open>One iteration of the loop of \<open>run_ar_worker\<close>; \<open>None\<close> if the queue is empty.\<close>

definition run_ar_worker ::
    "(readlist_map \<Rightarrow> readlist_map) \<Rightarrow> bool \<Rightarrow> 'm mac_api \<Rightarrow> 'w writer \<Rightarrow>
     (SectorIdx \<Rightarrow> SectorVec \<times> u64 \<times> u8 \<Rightarrow> 'st \<Rightarrow> 'st res) \<Rightarrow>
     (u8 \<Rightarrow> SystemRegisterCommand \<Rightarrow> 'l \<Rightarrow> 'l res) \<Rightarrow> (SystemRegisterCommand \<Rightarrow> 'l \<Rightarrow> 'l res) \<Rightarrow>
     Uuid \<Rightarrow> SectorIdx \<Rightarrow> ('w, 'st, 'l) RegisterProcessState \<Rightarrow> ('w, 'st, 'l) RegisterProcessState res option" where
  "run_ar_worker iter chk M wr store_sector send broadcast uuid i p =
     (case (registers p i, sectors_txs p i) of
        (Some r, Some ((cmd, cb) # q)) \<Rightarrow>
          Some (res_bind
            (case cmd of
               Client c \<Rightarrow> res_bind (unwrap_opt UnwrapNone cb) (\<lambda>f. Ok (client_command uuid c f r))
             | System s \<Rightarrow> system_command iter chk s r)
            (\<lambda>(r', es). rp_effects chk M wr store_sector send broadcast es
               (p\<lparr>sectors_txs := (sectors_txs p)(i \<mapsto> q), registers := (registers p)(i \<mapsto> r')\<rparr>)))
      | _ \<Rightarrow> None)"

section \<open>Steps of a process\<close>

text \<open>
  A process step is one iteration of one of its loops: a connection handles a decoded command,
  a message to itself is forwarded, or a worker handles the first command of its queue. A
  connection that waits for a semaphore and a worker without commands make no step; a panic ends
  the task it happens in, so only iterations that return are steps.
\<close>

inductive rp_step ::
    "(readlist_map \<Rightarrow> readlist_map) \<Rightarrow> bool \<Rightarrow> 'm mac_api \<Rightarrow> 'w writer \<Rightarrow>
     (SectorIdx \<Rightarrow> SectorVec \<times> u64 \<times> u8 \<Rightarrow> 'st \<Rightarrow> 'st res) \<Rightarrow>
     (u8 \<Rightarrow> SystemRegisterCommand \<Rightarrow> 'l \<Rightarrow> 'l res) \<Rightarrow> (SystemRegisterCommand \<Rightarrow> 'l \<Rightarrow> 'l res) \<Rightarrow>
     ('w, 'st, 'l) RegisterProcessState \<Rightarrow> ('w, 'st, 'l) RegisterProcessState \<Rightarrow> bool"
  for iter chk M wr store_sector send broadcast where
  connection: "handle_decoded chk M wr conn decoded p = Some (Ok p') \<Longrightarrow>
    rp_step iter chk M wr store_sector send broadcast p p'"
| self_message: "handle_self_message m p = Ok p' \<Longrightarrow>
    rp_step iter chk M wr store_sector send broadcast p p'"
| work: "run_ar_worker iter chk M wr store_sector send broadcast uuid i p = Some (Ok p') \<Longrightarrow>
    rp_step iter chk M wr store_sector send broadcast p p'"

inductive_cases rp_stepE [elim?]: "rp_step iter chk M wr store_sector send broadcast p p'"

section \<open>The permits of the sectors\<close>

fun is_client :: "RegisterCommand \<times> 'a \<Rightarrow> bool" where
  "is_client (Client _, _) = True"
| "is_client (System _, _) = False"

definition owned :: "SectorIdx \<Rightarrow> callback_closure \<Rightarrow> bool" where
  "owned i cb \<longleftrightarrow> cb_guard cb = i \<and> (\<exists>c. cb_cmd cb = Client c)"

text \<open>
  The permit of a sector is in exactly one of three places: in the semaphore, in the callback of
  a client command that waits in the queue, or in the callback of the register's operation.
\<close>

definition queue_ok :: "SectorIdx \<Rightarrow> worker_queue \<Rightarrow> bool" where
  "queue_ok i q \<longleftrightarrow> (\<forall>x \<in> set q. is_client x \<longrightarrow> (\<exists>cb. snd x = Some cb \<and> owned i cb \<and> cb_cmd cb = fst x))"

definition sector_ok :: "SectorIdx \<Rightarrow> worker_queue \<Rightarrow> nat \<Rightarrow> callback_closure AtomicRegisterState \<Rightarrow> bool" where
  "sector_ok i q permits r \<longleftrightarrow>
     permits + length (filter is_client q) + length (pending r) = 1 \<and>
     queue_ok i q \<and> reg_inv r \<and> (\<forall>cb. callback r = Some cb \<longrightarrow> owned i cb)"

definition rp_inv :: "('w, 'st, 'l) RegisterProcessState \<Rightarrow> bool" where
  "rp_inv p \<longleftrightarrow>
     (\<forall>i < rp_n_sectors p. \<exists>q permits r. sectors_txs p i = Some q \<and> sectors_guards p i = Some permits \<and>
        registers p i = Some r \<and> sector_ok i q permits r) \<and>
     (\<forall>i. \<not> i < rp_n_sectors p \<longrightarrow> sectors_txs p i = None)"

lemma rp_invE:
  assumes "rp_inv p" and "sectors_txs p i = Some q"
  obtains permits r where "sectors_guards p i = Some permits" "registers p i = Some r" "sector_ok i q permits r"
    "i < rp_n_sectors p"
  using assms unfolding rp_inv_def by (metis option.distinct(1) option.inject)

text \<open>An update of one sector that keeps its part of the invariant keeps the invariant.\<close>

lemma rp_inv_update:
  assumes "rp_inv p" and "i < rp_n_sectors p" and "rp_n_sectors p' = rp_n_sectors p"
    and "sectors_txs p' = (sectors_txs p)(i \<mapsto> q)" and "sectors_guards p' = (sectors_guards p)(i \<mapsto> permits)"
    and "registers p' = (registers p)(i \<mapsto> r)" and "sector_ok i q permits r"
  shows "rp_inv p'"
  using assms unfolding rp_inv_def by auto

lemma rp_inv_cong:
  assumes "rp_n_sectors p' = rp_n_sectors p" "sectors_txs p' = sectors_txs p"
    "sectors_guards p' = sectors_guards p" "registers p' = registers p"
  shows "rp_inv p' \<longleftrightarrow> rp_inv p"
  using assms by (simp add: rp_inv_def)

lemma rp_new_inv:
  assumes "\<And>i. i < n_sectors \<Longrightarrow> \<exists>v. read_data i st = Ok v"
  shows "rp_inv (rp_new read_metadata read_data self_id sk ck n n_sectors ws st links)"
proof -
  let ?p = "rp_new read_metadata read_data self_id sk ck n n_sectors ws st links"
  have "\<exists>q permits r. sectors_txs ?p i = Some q \<and> sectors_guards ?p i = Some permits \<and>
      registers ?p i = Some r \<and> sector_ok i q permits r" if i: "i < n_sectors" for i
  proof -
    obtain v where v: "read_data i st = Ok v" using assms[OF i] by blast
    obtain t w where "read_metadata i st = (t, w)" by (cases "read_metadata i st")
    with v have "build_atomic_register read_metadata read_data self_id i n st =
        Ok (ar_new self_id i n t w v :: callback_closure AtomicRegisterState)"
      by (simp add: build_atomic_register_def)
    moreover have "sector_ok i [] 1 (ar_new self_id i n t w v)"
      by (simp add: sector_ok_def queue_ok_def pending_def ar_new_inv) (simp add: ar_new_def)
    ultimately show ?thesis using i by (simp add: rp_new_def)
  qed
  moreover have "sectors_txs ?p i = None" if "\<not> i < n_sectors" for i using that by (simp add: rp_new_def)
  moreover have "rp_n_sectors ?p = n_sectors" by (simp add: rp_new_def)
  ultimately show ?thesis unfolding rp_inv_def by metis
qed

lemma send_response_frame:
  "send_response wr b conn p = Ok p' \<Longrightarrow> \<exists>w. p' = p\<lparr>writers := (writers p)(conn := w)\<rparr>"
  by (auto simp: send_response_def split: prod.splits option.splits)

lemma to_sector_Ok:
  "to_sector i item p = Ok p' \<longleftrightarrow>
     (\<exists>q. sectors_txs p i = Some q \<and> registers p i \<noteq> None \<and> p' = p\<lparr>sectors_txs := (sectors_txs p)(i \<mapsto> q @ [item])\<rparr>)"
  by (auto simp: to_sector_def res_simps)

lemma to_sector_system_inv:
  assumes "rp_inv p" and "to_sector i (System s, None) p = Ok p'"
  shows "rp_inv p'"
proof -
  obtain q where q: "sectors_txs p i = Some q" "p' = p\<lparr>sectors_txs := (sectors_txs p)(i \<mapsto> q @ [(System s, None)])\<rparr>"
    using assms(2) by (auto simp: to_sector_Ok)
  obtain permits r where "sectors_guards p i = Some permits" "registers p i = Some r" "sector_ok i q permits r"
      "i < rp_n_sectors p"
    by (rule rp_invE[OF assms(1) q(1)])
  then show ?thesis
    using q by (intro rp_inv_update[OF assms(1), where q = "q @ [(System s, None)]" and permits = permits and r = r])
      (auto simp: sector_ok_def queue_ok_def)
qed

lemma handle_decoded_cases:
  assumes "handle_decoded chk M wr conn decoded p = Some (Ok p')"
  obtains (enqueued_client) c permits q where "decoded = (Client c, True)" "c_sector_idx (c_header c) < rp_n_sectors p"
      "sectors_guards p (c_sector_idx (c_header c)) = Some (Suc permits)"
      "sectors_txs p (c_sector_idx (c_header c)) = Some q" "registers p (c_sector_idx (c_header c)) \<noteq> None"
      "p' = p\<lparr>sectors_guards := (sectors_guards p)(c_sector_idx (c_header c) \<mapsto> permits),
              sectors_txs := (sectors_txs p)(c_sector_idx (c_header c) \<mapsto> q @
                [(Client c, Some \<lparr>cb_cmd = Client c, cb_writer = conn, cb_guard = c_sector_idx (c_header c)\<rparr>)])\<rparr>"
  | (enqueued_system) s where "decoded = (System s, True)" "to_sector (s_sector_idx (s_header s)) (System s, None) p = Ok p'"
  | (rejected) c w where "fst decoded = Client c" "snd decoded \<longrightarrow> \<not> c_sector_idx (c_header c) < rp_n_sectors p"
      "p' = p\<lparr>writers := (writers p)(conn := w)\<rparr>"
  | (ignored) s where "decoded = (System s, False)" "p' = p"
proof -
  obtain cmd ok where d: "decoded = (cmd, ok)" by (cases decoded)
  show thesis
  proof (cases cmd)
    case (Client c)
    show ?thesis
    proof (cases "ok \<and> c_sector_idx (c_header c) < rp_n_sectors p")
      case True
      with assms d Client show ?thesis
        by (auto simp: handle_decoded_def Let_def to_sector_Ok split: option.splits nat.splits intro!: enqueued_client)
    next
      case False
      with assms d Client have "\<exists>b. send_response wr b conn p = Ok p'"
        by (auto simp: handle_decoded_def Let_def res_simps split: if_splits)
      then obtain w where "p' = p\<lparr>writers := (writers p)(conn := w)\<rparr>" using send_response_frame by blast
      then show ?thesis using False d Client by (intro rejected[of c w]) auto
    qed
  next
    case (System s)
    with assms d show ?thesis
      by (cases ok) (auto simp: handle_decoded_def intro: enqueued_system ignored)
  qed
qed

lemma success_callback_frame:
  assumes "success_callback chk M wr cb r p = Ok p'"
  obtains w where "p' = release_guard (cb_guard cb) (p\<lparr>writers := (writers p)(cb_writer cb := w)\<rparr>)"
proof -
  obtain b p1 where "send_response wr b (cb_writer cb) p = Ok p1" "p' = release_guard (cb_guard cb) p1"
    using assms by (auto simp: success_callback_def res_simps split: prod.splits)
  then show thesis using send_response_frame[of wr b "cb_writer cb" p p1] that by blast
qed

text \<open>The effects of a handler leave queues and registers alone and free the permits of the answered callbacks.\<close>

definition free_permit :: "(SectorIdx \<rightharpoonup> nat) \<Rightarrow> callback_closure \<times> 'a \<Rightarrow> (SectorIdx \<rightharpoonup> nat)" where
  "free_permit g x = g(cb_guard (fst x) := map_option Suc (g (cb_guard (fst x))))"

lemma free_permit_pair: "free_permit g (cb, x) = g(cb_guard cb := map_option Suc (g (cb_guard cb)))"
  by (simp add: free_permit_def)

lemma rp_effects_frame:
  "rp_effects chk M wr store_sector send broadcast es p = Ok p' \<Longrightarrow>
     rp_n_sectors p' = rp_n_sectors p \<and> sectors_txs p' = sectors_txs p \<and> registers p' = registers p \<and>
     rp_hmac_client_key p' = rp_hmac_client_key p \<and> rp_hmac_system_key p' = rp_hmac_system_key p \<and>
     sectors_guards p' = foldl free_permit (sectors_guards p) (answered es)"
proof (induction es arbitrary: p)
  case (Cons e es)
  then obtain p1 where p1: "rp_effects chk M wr store_sector send broadcast [e] p = Ok p1"
      "rp_effects chk M wr store_sector send broadcast es p1 = Ok p'"
    by (auto simp: res_simps)
  have "rp_n_sectors p1 = rp_n_sectors p \<and> sectors_txs p1 = sectors_txs p \<and> registers p1 = registers p \<and>
      rp_hmac_client_key p1 = rp_hmac_client_key p \<and> rp_hmac_system_key p1 = rp_hmac_system_key p \<and>
      sectors_guards p1 = foldl free_permit (sectors_guards p) (answered [e])"
  proof (cases e)
    case (Callback cb r)
    with p1(1) have "success_callback chk M wr cb r p = Ok p1" by (simp add: res_simps)
    then obtain w where "p1 = release_guard (cb_guard cb) (p\<lparr>writers := (writers p)(cb_writer cb := w)\<rparr>)"
      by (rule success_callback_frame)
    with Callback show ?thesis by (simp add: release_guard_def free_permit_pair)
  qed (use p1(1) in \<open>auto simp: res_simps\<close>)
  moreover have "answered (e # es) = answered [e] @ answered es"
    using answered_append[of "[e]" es] by simp
  ultimately show ?case using Cons.IH[OF p1(2)] by (simp only: foldl_append)
qed simp

lemma pending_idle: "reg_inv r \<Longrightarrow> pending r = [] \<longleftrightarrow> idle r"
  by (auto simp: pending_def reg_inv_def split: option.splits)

lemma pending_callback: "pending r = [x] \<Longrightarrow> callback r = Some (fst x)"
  by (auto simp: pending_def split: option.splits)

lemma pending_None: "pending r = [] \<Longrightarrow> callback r = None"
  by (auto simp: pending_def split: option.splits)

lemma pending_length: "length (pending r) \<le> 1"
  by (simp add: pending_def split: option.split)

text \<open>Handling a system command, seen from the sector.\<close>

lemma system_command_sector:
  assumes "sector_ok i ((System c, cb0) # q) permits r" and "system_command iter chk c r = Ok (r', es)"
  shows "(answered es = [] \<and> sector_ok i q permits r') \<or>
         (\<exists>x. answered es = [x] \<and> cb_guard (fst x) = i \<and> sector_ok i q (Suc permits) r')"
proof -
  have inv: "reg_inv r" "reg_inv r'"
    using assms system_command_inv[OF _ assms(2)] by (auto simp: sector_ok_def)
  note p = system_command_pending[OF inv(1) assms(2)]
  have q: "queue_ok i q" using assms(1) by (simp add: sector_ok_def queue_ok_def)
  show ?thesis
  proof (cases "answered es")
    case Nil
    with p have pr: "pending r' = pending r" by simp
    then have "callback r' = callback r" by (simp add: pending_def split: option.splits)
    with Nil pr assms(1) inv(2) q show ?thesis by (simp add: sector_ok_def)
  next
    case (Cons y ys)
    with p have "pending r = y # ys @ pending r'" by simp
    moreover from this have "ys = []" "pending r' = []" using pending_length[of r] by simp_all
    ultimately have "pending r = [y]" by simp
    with Cons \<open>ys = []\<close> \<open>pending r' = []\<close> pending_callback[of r y] pending_None[of r'] assms(1) inv(2) q
    show ?thesis by (simp add: sector_ok_def owned_def)
  qed
qed

lemma client_command_sector:
  assumes "sector_ok i ((Client c, Some f) # q) permits r" and "client_command uuid c f r = (r', es)"
  shows "idle r" and "answered es = []" and "sector_ok i q permits r'"
proof -
  have "permits + Suc (length (filter is_client q)) + length (pending r) = 1"
    using assms(1) by (simp add: sector_ok_def)
  then have n: "pending r = []" "permits = 0" "filter is_client q = []" by simp_all
  have *: "reg_inv r" "idle r" "owned i f" "queue_ok i q"
    using assms(1) pending_idle[of r] n(1) by (simp_all add: sector_ok_def queue_ok_def)
  show "idle r" by (fact *(2))
  note p = client_command_pending[OF *(1,2) assms(2)]
  show "answered es = []" using p by simp
  have "reg_inv r'" by (rule client_command_inv[OF *(1,2) assms(2)])
  moreover have "callback r' = Some f" using p pending_callback[of r'] by auto
  ultimately show "sector_ok i q permits r'" using * n p by (simp add: sector_ok_def)
qed

lemma run_ar_worker_cases:
  assumes "run_ar_worker iter chk M wr store_sector send broadcast uuid i p = Some (Ok p')"
  obtains r cmd cb q r' es where "registers p i = Some r" "sectors_txs p i = Some ((cmd, cb) # q)"
    "(\<exists>c f. cmd = Client c \<and> cb = Some f \<and> client_command uuid c f r = (r', es)) \<or>
     (\<exists>s. cmd = System s \<and> system_command iter chk s r = Ok (r', es))"
    "rp_effects chk M wr store_sector send broadcast es
       (p\<lparr>sectors_txs := (sectors_txs p)(i \<mapsto> q), registers := (registers p)(i \<mapsto> r')\<rparr>) = Ok p'"
  using assms
  by (auto simp: run_ar_worker_def res_simps split: option.splits list.splits RegisterCommand.splits)

lemma worker_inv:
  assumes "rp_inv p" and "run_ar_worker iter chk M wr store_sector send broadcast uuid i p = Some (Ok p')"
  shows "rp_inv p'"
  using assms(2)
proof (cases rule: run_ar_worker_cases)
  case (1 r cmd cb q r' es)
  obtain permits where s: "sectors_guards p i = Some permits" "sector_ok i ((cmd, cb) # q) permits r" "i < rp_n_sectors p"
    using rp_invE[OF assms(1) 1(2)] 1(1) by (metis option.inject)
  note f = rp_effects_frame[OF 1(4)]
  from 1(3) consider (client) c f' where "cmd = Client c" "cb = Some f'" "client_command uuid c f' r = (r', es)"
    | (system) c where "cmd = System c" "system_command iter chk c r = Ok (r', es)" by blast
  then obtain k where k: "sectors_guards p' = (sectors_guards p)(i \<mapsto> k)" "sector_ok i q k r'"
  proof cases
    case client
    with s client_command_sector[of i c f' q permits r uuid r' es] f
    show ?thesis by (intro that[of permits]) (simp_all add: fun_upd_idem)
  next
    case system
    from system_command_sector[OF s(2)[unfolded system(1)] system(2)] show ?thesis
    proof (elim disjE exE conjE)
      assume "answered es = []" "sector_ok i q permits r'"
      with s f show ?thesis by (intro that[of permits]) (simp_all add: fun_upd_idem)
    next
      fix x assume "answered es = [x]" "cb_guard (fst x) = i" "sector_ok i q (Suc permits) r'"
      with s f show ?thesis by (intro that[of "Suc permits"]) (simp_all add: free_permit_def)
    qed
  qed
  show ?thesis
    by (rule rp_inv_update[OF assms(1) s(3) _ _ k(1) _ k(2)]) (use f in simp_all)
qed

lemma handle_decoded_inv:
  assumes "rp_inv p" and "handle_decoded chk M wr conn decoded p = Some (Ok p')"
  shows "rp_inv p'"
  using assms(2)
proof (cases rule: handle_decoded_cases)
  case (enqueued_client c permits q)
  let ?i = "c_sector_idx (c_header c)"
  let ?q = "q @ [(Client c, Some \<lparr>cb_cmd = Client c, cb_writer = conn, cb_guard = ?i\<rparr>)]"
  obtain r where r: "registers p ?i = Some r" "sector_ok ?i q (Suc permits) r"
    using rp_invE[OF assms(1) enqueued_client(4)] enqueued_client(3) by (metis option.inject)
  then have "sector_ok ?i ?q permits r" by (auto simp: sector_ok_def queue_ok_def owned_def)
  then show ?thesis
    using enqueued_client r(1)
    by (intro rp_inv_update[OF assms(1), where i = ?i and q = ?q and permits = permits and r = r]) (simp_all add: fun_upd_idem)
next
  case (enqueued_system s)
  then show ?thesis using to_sector_system_inv[OF assms(1)] by blast
next
  case (rejected c w)
  then show ?thesis using assms(1) by (subst rp_inv_cong[of _ p]) simp_all
qed (use assms(1) in simp)

lemma rp_step_inv: "rp_step iter chk M wr store_sector send broadcast p p' \<Longrightarrow> rp_inv p \<Longrightarrow> rp_inv p'"
  by (erule rp_step.cases)
    (auto intro: handle_decoded_inv worker_inv to_sector_system_inv simp: handle_self_message_def)

lemma rp_steps_inv:
  "(rp_step iter chk M wr store_sector send broadcast)\<^sup>*\<^sup>* p p' \<Longrightarrow> rp_inv p \<Longrightarrow> rp_inv p'"
  by (induction rule: rtranclp_induct) (auto intro: rp_step_inv)






section \<open>Formats of responses\<close>

lemma sign_response_eq:
  assumes "hmac_spec M tag fed"
  shows "sign_response M k b = Ok (b @ tag k b)"
  using hmac_specD(1)[OF assms, of k] hmac_specD(2,3,5)[OF assms]
  by (auto simp: sign_response_def Let_def)

definition response_bytes ::
    "(bytes \<Rightarrow> bytes \<Rightarrow> bytes) \<Rightarrow> bytes \<Rightarrow> StatusCode \<Rightarrow> ClientRegisterCommand \<Rightarrow> bytes \<Rightarrow> bytes" where
  "response_bytes tag k status c data =
     (let b = MAGIC_NUMBER @ [0, 0, status_code_u8 status, if c_content c = Read then 0x41 else 0x42] @
              to_be_bytes 8 (request_identifier (c_header c)) @ data
      in b @ tag k b)"

lemma get_rid_and_msg_type_eq:
  "get_rid_and_msg_type (Client c) = Ok (request_identifier (c_header c), if c_content c = Read then 1 else 2)"
  by (simp add: get_rid_and_msg_type_def split: ClientRegisterCommandContent.split)

lemma response_type_eq:
  "checked_add chk (if b then 1 else 2) 0x40 = Ok (if b then 0x41 else 0x42 :: u8)"
  by (simp add: checked_add_def)

lemmas response_eqs = get_rid_and_msg_type_eq response_type_eq response_bytes_def
  construct_valid_response_def construct_invalid_hmac_response_def construct_invalid_sector_index_response_def

lemma send_response_vec:
  "send_response vec_write b conn p = Ok (p\<lparr>writers := (writers p)(conn := writers p conn @ b)\<rparr>)"
  by (simp add: send_response_def vec_write_def)

lemma success_callback_eq:
  assumes "hmac_spec M tag fed" and "cb_cmd cb = Client c"
  shows "success_callback chk M vec_write cb r p =
    Ok (release_guard (cb_guard cb) (p\<lparr>writers := (writers p)(cb_writer cb := writers p (cb_writer cb) @
      response_bytes tag (rp_hmac_client_key p) StatusOk c
        (case op_return r of OpRead d \<Rightarrow> sector_bytes (read_data_ret d) | OpWrite \<Rightarrow> []))\<rparr>))"
  using assms by (simp add: success_callback_def response_eqs sign_response_eq[OF assms(1)] send_response_vec Let_def)

section \<open>Properties\<close>

text \<open>A process with two sectors over a store and links that do nothing, and its first steps.\<close>

type_synonym small_process = "(bytes, unit, unit) RegisterProcessState"

definition small_process :: small_process where
  "small_process = rp_new (\<lambda>_ _. (0, 0)) (\<lambda>_ _. Ok zero_sector) 1 [1] [2] 1 2 (\<lambda>_. []) () ()"

abbreviation small_steps :: "small_process \<Rightarrow> small_process \<Rightarrow> bool" where
  "small_steps \<equiv> (rp_step id True sum_mac vec_write (\<lambda>_ _ s. Ok s) (\<lambda>_ _ l. Ok l) (\<lambda>_ l. Ok l))\<^sup>*\<^sup>*"

abbreviation read_1 :: ClientRegisterCommand where
  "read_1 \<equiv> \<lparr>c_header = \<lparr>request_identifier = 7, c_sector_idx = 1\<rparr>, c_content = Read\<rparr>"

lemma small_process_inv: "rp_inv small_process"
  unfolding small_process_def by (rule rp_new_inv) simp

lemma small_enqueued:
  "\<exists>p. small_steps small_process p \<and>
     sectors_txs p 1 = Some [(Client read_1, Some \<lparr>cb_cmd = Client read_1, cb_writer = 0, cb_guard = 1\<rparr>)] \<and>
     sectors_guards p 1 = Some 0 \<and> registers p 1 = Some (ar_new 1 1 1 0 0 zero_sector)"
proof -
  have h: "\<exists>p. handle_decoded True sum_mac vec_write 0 (Client read_1, True) small_process = Some (Ok p) \<and>
     sectors_txs p 1 = Some [(Client read_1, Some \<lparr>cb_cmd = Client read_1, cb_writer = 0, cb_guard = 1\<rparr>)] \<and>
     sectors_guards p 1 = Some 0 \<and> registers p 1 = Some (ar_new 1 1 1 0 0 zero_sector)"
    by (simp add: handle_decoded_def small_process_def rp_new_def to_sector_def build_atomic_register_def word_less_nat_alt)
  then obtain p where "handle_decoded True sum_mac vec_write 0 (Client read_1, True) small_process = Some (Ok p)"
     "sectors_txs p 1 = Some [(Client read_1, Some \<lparr>cb_cmd = Client read_1, cb_writer = 0, cb_guard = 1\<rparr>)]"
     "sectors_guards p 1 = Some 0" "registers p 1 = Some (ar_new 1 1 1 0 0 zero_sector)" by blast
  moreover from this(1) have "small_steps small_process p" by (intro r_into_rtranclp rp_step.connection)
  ultimately show ?thesis by blast
qed

lemma small_working:
  "\<exists>p r. small_steps small_process p \<and> registers p 1 = Some r \<and> reading r \<and> op_id r = Some 5 \<and>
     callback r = Some \<lparr>cb_cmd = Client read_1, cb_writer = 0, cb_guard = 1\<rparr> \<and> sectors_guards p 1 = Some 0"
proof -
  obtain p where p: "small_steps small_process p"
     "sectors_txs p 1 = Some [(Client read_1, Some \<lparr>cb_cmd = Client read_1, cb_writer = 0, cb_guard = 1\<rparr>)]"
     "sectors_guards p 1 = Some 0" "registers p 1 = Some (ar_new 1 1 1 0 0 zero_sector)"
    using small_enqueued by blast
  have "\<exists>p' r. run_ar_worker id True sum_mac vec_write (\<lambda>_ _ s. Ok s) (\<lambda>_ _ l. Ok l) (\<lambda>_ l. Ok l) 5 1 p = Some (Ok p') \<and>
      registers p' 1 = Some r \<and> reading r \<and> op_id r = Some 5 \<and>
      callback r = Some \<lparr>cb_cmd = Client read_1, cb_writer = 0, cb_guard = 1\<rparr> \<and> sectors_guards p' 1 = Some 0"
    using p(2-) by (simp add: run_ar_worker_def client_command_eq)
  then obtain p' r where w: "run_ar_worker id True sum_mac vec_write (\<lambda>_ _ s. Ok s) (\<lambda>_ _ l. Ok l) (\<lambda>_ l. Ok l) 5 1 p = Some (Ok p')"
      "registers p' 1 = Some r" "reading r" "op_id r = Some 5"
      "callback r = Some \<lparr>cb_cmd = Client read_1, cb_writer = 0, cb_guard = 1\<rparr>" "sectors_guards p' 1 = Some 0"
    by blast
  have "small_steps small_process p'" by (rule rtranclp.rtrancl_into_rtrancl[OF p(1) rp_step.work[OF w(1)]])
  with w(2-) show ?thesis by blast
qed



text \<open>
  C18. In every state a process reaches from its start the permit of every sector is in exactly one
  place: in the semaphore, with a client command waiting in the sector's queue, or with the
  operation of the sector's register. Each callback belongs to the sector it is kept for.
\<close>

theorem permit_invariant:
  assumes "\<And>i. i < n_sectors \<Longrightarrow> \<exists>v. read_data i st = Ok v"
    and "(rp_step iter chk M wr store_sector send broadcast)\<^sup>*\<^sup>*
           (rp_new read_metadata read_data self_id sk ck n n_sectors ws st links) p"
  shows "rp_inv p"
  using assms(1) by (rule rp_steps_inv[OF assms(2) rp_new_inv])

theorem permit_invariant_witness:
  "\<exists>p. small_steps small_process p \<and> sectors_guards p 1 = Some 0 \<and> rp_inv p"
proof -
  obtain p where p: "small_steps small_process p" "sectors_guards p 1 = Some 0" using small_working by blast
  have "rp_inv p" by (rule permit_invariant[OF _ p(1)[unfolded small_process_def]]) simp
  with p show ?thesis by blast
qed

text \<open>
  C21. Whatever the connections send and in whatever order the tasks run, a worker hands a client
  command to its register only when the register is idle, and with a callback; no second client
  command waits behind it and the semaphore has no permit.
\<close>

theorem client_command_meets_idle_register:
  assumes "\<And>i. i < n_sectors \<Longrightarrow> \<exists>v. read_data i st = Ok v"
    and "(rp_step iter chk M wr store_sector send broadcast)\<^sup>*\<^sup>*
           (rp_new read_metadata read_data self_id sk ck n n_sectors ws st links) p"
    and "sectors_txs p i = Some ((Client c, cb) # q)"
  shows "\<exists>f r. cb = Some f \<and> cb_cmd f = Client c \<and> registers p i = Some r \<and> idle r \<and>
           filter is_client q = [] \<and> sectors_guards p i = Some 0"
proof -
  have inv: "rp_inv p" using assms(1) by (rule rp_steps_inv[OF assms(2) rp_new_inv])
  obtain permits r where s: "sectors_guards p i = Some permits" "registers p i = Some r"
      "sector_ok i ((Client c, cb) # q) permits r"
    by (rule rp_invE[OF inv assms(3)])
  then obtain f where f: "cb = Some f" "cb_cmd f = Client c" by (auto simp: sector_ok_def queue_ok_def)
  have "permits = 0" "filter is_client q = []" "pending r = []" "reg_inv r" using s(3) by (simp_all add: sector_ok_def)
  then show ?thesis using s f pending_idle[of r] by auto
qed

theorem client_command_meets_idle_register_witness:
  "\<exists>p f q r. small_steps small_process p \<and> sectors_txs p 1 = Some ((Client read_1, Some f) # q) \<and>
     registers p 1 = Some r \<and> idle r \<and> cb_cmd f = Client read_1"
proof -
  obtain p where p: "small_steps small_process p"
     "sectors_txs p 1 = Some [(Client read_1, Some \<lparr>cb_cmd = Client read_1, cb_writer = 0, cb_guard = 1\<rparr>)]"
    using small_enqueued by blast
  have "\<exists>f r. Some \<lparr>cb_cmd = Client read_1, cb_writer = 0, cb_guard = 1\<rparr> = Some f \<and> cb_cmd f = Client read_1 \<and>
      registers p 1 = Some r \<and> idle r \<and> filter is_client ([] :: worker_queue) = [] \<and> sectors_guards p 1 = Some 0"
    by (rule client_command_meets_idle_register[OF _ p(1)[unfolded small_process_def] p(2)]) simp
  then obtain r where "registers p 1 = Some r" "idle r" by blast
  with p show ?thesis
    by (intro exI[of _ p] exI[of _ "\<lparr>cb_cmd = Client read_1, cb_writer = 0, cb_guard = 1\<rparr>"] exI[of _ "[]"] exI[of _ r]) simp
qed





text \<open>
  C37. A command whose tag is wrong reaches no worker: an internal one changes nothing, a client's
  is answered with \<open>AuthFailure\<close>, signed with the client key, and nothing else changes.
\<close>

theorem bad_tag_is_rejected:
  assumes "hmac_spec M tag fed"
  shows "handle_decoded chk M vec_write conn (cmd, False) p =
           Some (Ok (case cmd of
             System _ \<Rightarrow> p
           | Client c \<Rightarrow> p\<lparr>writers := (writers p)(conn := writers p conn @
               response_bytes tag (rp_hmac_client_key p) AuthFailure c [])\<rparr>))"
  by (cases cmd)
    (simp_all add: handle_decoded_def response_eqs sign_response_eq[OF assms] send_response_vec Let_def)

theorem bad_tag_is_rejected_witness:
  "handle_decoded True sum_mac vec_write 4 (Client read_1, False) small_process =
     Some (Ok (small_process\<lparr>writers := (writers small_process)(4 := writers small_process 4 @
       response_bytes sum_tag (rp_hmac_client_key small_process) AuthFailure read_1 [])\<rparr>))"
  using bad_tag_is_rejected[OF sum_mac_spec, of True 4 "Client read_1" small_process] by simp

text \<open>
  An authenticated client command for a sector that does not exist is answered with
  \<open>InvalidSectorIndex\<close> and changes nothing else. One for an existing sector is put into the
  sector's queue together with the permit, or waits if the permit is taken.
\<close>

theorem client_command_dispatch:
  assumes "hmac_spec M tag fed" and "rp_inv p"
  shows "handle_decoded chk M vec_write conn (Client c, True) p =
    (let i = c_sector_idx (c_header c) in
     if \<not> i < rp_n_sectors p then
       Some (Ok (p\<lparr>writers := (writers p)(conn := writers p conn @
         response_bytes tag (rp_hmac_client_key p) InvalidSectorIndex c [])\<rparr>))
     else if sectors_guards p i = Some 0 then None
     else Some (Ok (p\<lparr>sectors_guards := (sectors_guards p)(i \<mapsto> 0),
            sectors_txs := (sectors_txs p)(i \<mapsto> the (sectors_txs p i) @
              [(Client c, Some \<lparr>cb_cmd = Client c, cb_writer = conn, cb_guard = i\<rparr>)])\<rparr>)))"
proof (cases "c_sector_idx (c_header c) < rp_n_sectors p")
  case True
  let ?i = "c_sector_idx (c_header c)"
  obtain q permits r where s: "sectors_txs p ?i = Some q" "sectors_guards p ?i = Some permits"
      "registers p ?i = Some r" "sector_ok ?i q permits r"
    using assms(2) True unfolding rp_inv_def by blast
  have "permits = 0 \<or> permits = 1" using s(4) by (auto simp: sector_ok_def)
  with True s show ?thesis by (auto simp: handle_decoded_def Let_def to_sector_def)
next
  case False
  then show ?thesis
    by (simp add: handle_decoded_def response_eqs sign_response_eq[OF assms(1)] send_response_vec Let_def)
qed

theorem client_command_dispatch_witness:
  "handle_decoded True sum_mac vec_write 4
       (Client \<lparr>c_header = \<lparr>request_identifier = 9, c_sector_idx = 2\<rparr>, c_content = Read\<rparr>, True) small_process =
     Some (Ok (small_process\<lparr>writers := (writers small_process)(4 := writers small_process 4 @
       response_bytes sum_tag (rp_hmac_client_key small_process) InvalidSectorIndex
         \<lparr>c_header = \<lparr>request_identifier = 9, c_sector_idx = 2\<rparr>, c_content = Read\<rparr> [])\<rparr>))"
proof -
  have "\<not> 2 < rp_n_sectors small_process" by (simp add: small_process_def rp_new_def)
  then show ?thesis
    using client_command_dispatch[OF sum_mac_spec small_process_inv, of True 4
        "\<lparr>c_header = \<lparr>request_identifier = 9, c_sector_idx = 2\<rparr>, c_content = Read\<rparr>"]
    by (simp add: Let_def)
qed

text \<open>
  An authenticated internal command for a sector that does not exist is not ignored: it makes
  the task of the connection panic, and the same message from the process itself makes the task
  that forwards its messages panic.
\<close>

theorem unknown_sector_panics:
  assumes "rp_inv p" and "\<not> s_sector_idx (s_header m) < rp_n_sectors p"
  shows "handle_decoded chk M wr conn (System m, True) p = Some (Panic (Expect ''Sector handler not found'')) \<and>
         handle_self_message m p = Panic (Expect ''Sector handler not found'')"
  using assms by (simp add: handle_decoded_def handle_self_message_def to_sector_def rp_inv_def)

theorem unknown_sector_panics_witness:
  "handle_decoded True sum_mac vec_write 0 (System (to_2 1 Ack\<lparr>s_header :=
     \<lparr>process_identifier = 1, msg_ident = 9, s_sector_idx = 2\<rparr>\<rparr>), True) small_process =
   Some (Panic (Expect ''Sector handler not found''))"
  using unknown_sector_panics[OF small_process_inv, of "to_2 1 Ack\<lparr>s_header :=
     \<lparr>process_identifier = 1, msg_ident = 9, s_sector_idx = 2\<rparr>\<rparr>" True sum_mac vec_write 0]
  by (simp add: small_process_def rp_new_def)

end
