(* ===== verification/Test_Client.thy ===== *)
theory Test_Client
  imports Register_Process
begin

text \<open>
  The client side of the response format, as the test utilities read it:
  \<^verbatim>\<open>src/test-utils/system.rs\<close> and the header assertion of \<^verbatim>\<open>src/test-utils/transfer.rs\<close>. Together
  with the constructors of \<^verbatim>\<open>register_process.rs\<close> this gives the round trip of responses.
\<close>

section \<open>Responses\<close>

record RegisterResponseHeader =
  status_code :: StatusCode
  resp_request_identifier :: u64

datatype RegisterResponseContent = RespRead SectorVec | RespWrite

record RegisterResponse =
  resp_header :: RegisterResponseHeader
  resp_content :: RegisterResponseContent
  hmac_tag :: bytes

definition resp_msg_type :: "RegisterResponse \<Rightarrow> u8" where
  "resp_msg_type r = (case resp_content r of RespRead _ \<Rightarrow> 0x41 | RespWrite \<Rightarrow> 0x42)"

definition try_to_status_code :: "u8 \<Rightarrow> StatusCode option" where
  "try_to_status_code b =
     (if b = 0 then Some StatusOk else if b = 1 then Some AuthFailure
      else if b = 2 then Some InvalidSectorIndex else None)"

text \<open>A failing read panics (\<open>unwrap\<close>); a response that is not understood is a returned error message.\<close>

definition read_unwrap :: "'r reader \<Rightarrow> nat \<Rightarrow> 'r \<Rightarrow> (bytes \<times> 'r) res" where
  "read_unwrap rd n r = (case rd n r of Inl _ \<Rightarrow> Panic UnwrapErr | Inr br \<Rightarrow> Ok br)"

definition read_response :: "'r reader \<Rightarrow> 'r \<Rightarrow> ((string + RegisterResponse) \<times> 'r) res" where
  "read_response rd r =
     res_bind (read_unwrap rd 8 r) (\<lambda>(buf, r).
     if take 4 buf \<noteq> MAGIC_NUMBER then Ok (Inl ''Invalid magic number'', r)
     else
       let msg_type = buf ! 7 in
       (case try_to_status_code (buf ! 6) of
          None \<Rightarrow> Ok (Inl ''Invalid status code'', r)
        | Some status \<Rightarrow>
            res_bind (read_unwrap rd 8 r) (\<lambda>(buf, r).
            let header = \<lparr>status_code = status, resp_request_identifier = from_be_bytes buf\<rparr> in
            if msg_type = 66 then
              res_bind (read_unwrap rd 32 r) (\<lambda>(t, r).
              Ok (Inr \<lparr>resp_header = header, resp_content = RespWrite, hmac_tag = t\<rparr>, r))
            else if msg_type = 65 then
              res_bind (read_unwrap rd 4096 r) (\<lambda>(sector, r).
              res_bind (read_unwrap rd 32 r) (\<lambda>(t, r).
              Ok (Inr \<lparr>resp_header = header, resp_content = RespRead (SectorVec sector), hmac_tag = t\<rparr>, r)))
            else Ok (Inl (''Invalid message type: '' @ dec (unat msg_type)), r))))"

definition response_data :: "RegisterResponse \<Rightarrow> bytes" where
  "response_data response =
     MAGIC_NUMBER @ [0, 0, status_code_u8 (status_code (resp_header response)), resp_msg_type response] @
     to_be_bytes 8 (resp_request_identifier (resp_header response)) @
     (case resp_content response of RespRead sector \<Rightarrow> sector_bytes sector | RespWrite \<Rightarrow> [])"

definition hmac_tag_is_ok :: "'m mac_api \<Rightarrow> bytes \<Rightarrow> RegisterResponse \<Rightarrow> bool res" where
  "hmac_tag_is_ok M hmac_client_key response =
     res_bind (unwrap_opt UnwrapErr (mac_new M hmac_client_key)) (\<lambda>mac.
     Ok (mac_verify M (mac_update M mac (response_data response)) (hmac_tag response)))"

definition assert_response_header ::
    "'m mac_api \<Rightarrow> bytes \<Rightarrow> RegisterResponse \<Rightarrow> ClientRegisterCommand \<Rightarrow> unit res" where
  "assert_response_header M hmac_client_key response cmd =
     (if resp_request_identifier (resp_header response) \<noteq> request_identifier (c_header cmd)
      then Panic (ExplicitPanic ''assertion failed'')
      else res_bind (hmac_tag_is_ok M hmac_client_key response) (\<lambda>ok.
           if ok then Ok () else Panic (ExplicitPanic ''assertion failed'')))"

text \<open>Sending a command as a test client does, and the assertion on a serialized internal command.\<close>

definition send_cmd :: "'m mac_api \<Rightarrow> 'w writer \<Rightarrow> bytes \<Rightarrow> RegisterCommand \<Rightarrow> 'w \<Rightarrow> 'w res" where
  "send_cmd M wr hmac_client_key register_cmd stream =
     (case serialize_rc M vec_write register_cmd hmac_client_key [] of
        (Ok _, data) \<Rightarrow> (case wr data stream of (None, s) \<Rightarrow> Ok s | (Some _, _) \<Rightarrow> Panic UnwrapErr)
      | (Err _, _) \<Rightarrow> Panic UnwrapErr
      | (Panic p, _) \<Rightarrow> Panic p)"

definition assert_system_cmd_header :: "bytes \<Rightarrow> bytes \<Rightarrow> u8 \<Rightarrow> u8 \<Rightarrow> u64 \<Rightarrow> unit res" where
  "assert_system_cmd_header serialized ident process_id msg_type sidx =
     (if length serialized < 32 then Panic IndexOutOfBounds
      else if take 4 serialized = MAGIC_NUMBER \<and> serialized ! 6 = process_id \<and> serialized ! 7 = msg_type \<and>
              take 16 (drop 8 serialized) = ident \<and> from_be_bytes (take 8 (drop 24 serialized)) = sidx
      then Ok () else Panic (ExplicitPanic ''assertion failed''))"

section \<open>Reading what a process writes\<close>

lemma read_unwrap_slice [simp]:
  "read_unwrap slice_read n bs = (if n \<le> length bs then Ok (take n bs, drop n bs) else Panic UnwrapErr)"
  by (simp add: read_unwrap_def slice_read_def)

lemma try_to_status_code_u8 [simp]: "try_to_status_code (status_code_u8 s) = Some s"
  by (cases s) (simp_all add: try_to_status_code_def)

definition response_of :: "(bytes \<Rightarrow> bytes \<Rightarrow> bytes) \<Rightarrow> bytes \<Rightarrow> StatusCode \<Rightarrow> u64 \<Rightarrow> RegisterResponseContent \<Rightarrow> RegisterResponse" where
  "response_of tag k status rq content =
     (let r = \<lparr>resp_header = \<lparr>status_code = status, resp_request_identifier = rq\<rparr>, resp_content = content, hmac_tag = []\<rparr>
      in r\<lparr>hmac_tag := tag k (response_data r)\<rparr>)"

lemma response_of_ok:
  assumes "hmac_spec M tag fed"
  shows "hmac_tag_is_ok M k (response_of tag k status rq content) = Ok True"
  using hmac_specD(1)[OF assms, of k] hmac_specD(2,4)[OF assms]
  by (auto simp: hmac_tag_is_ok_def response_of_def Let_def response_data_def resp_msg_type_def)

lemma read_response_frame:
  assumes "length rq = 8" and "length t = 32"
  shows "read_response slice_read (MAGIC_NUMBER @ [0, 0, status_code_u8 status, 0x42] @ rq @ t @ rest) =
           Ok (Inr \<lparr>resp_header = \<lparr>status_code = status, resp_request_identifier = from_be_bytes rq\<rparr>,
                    resp_content = RespWrite, hmac_tag = t\<rparr>, rest)"
    and "length d = 4096 \<Longrightarrow> read_response slice_read (MAGIC_NUMBER @ [0, 0, status_code_u8 status, 0x41] @ rq @ d @ t @ rest) =
           Ok (Inr \<lparr>resp_header = \<lparr>status_code = status, resp_request_identifier = from_be_bytes rq\<rparr>,
                    resp_content = RespRead (SectorVec d), hmac_tag = t\<rparr>, rest)"
  using assms by (simp_all add: read_response_def nth_append)

section \<open>Properties\<close>

definition answer_content :: "OperationReturn \<Rightarrow> RegisterResponseContent" where
  "answer_content r = (case r of OpRead d \<Rightarrow> RespRead (read_data_ret d) | OpWrite \<Rightarrow> RespWrite)"

lemma response_bytes_of:
  assumes "c_content c = Read \<longleftrightarrow> content \<noteq> RespWrite"
  shows "response_bytes tag k status c (case content of RespRead d \<Rightarrow> sector_bytes d | RespWrite \<Rightarrow> []) =
    response_data (response_of tag k status (request_identifier (c_header c)) content) @
    hmac_tag (response_of tag k status (request_identifier (c_header c)) content)"
  using assms
  by (cases content) (simp_all add: response_bytes_def response_of_def response_data_def resp_msg_type_def Let_def)

lemma read_response_of:
  assumes "hmac_spec M tag fed" and "\<And>d. content = RespRead d \<Longrightarrow> wf_sector d"
  shows "read_response slice_read (response_data (response_of tag k status rq content) @
      hmac_tag (response_of tag k status rq content) @ rest) = Ok (Inr (response_of tag k status rq content), rest)"
proof (cases content)
  case (RespRead d)
  then obtain b where b: "d = SectorVec b" "length b = 4096"
    using assms(2)[of d] by (cases d) (simp add: wf_sector_def)
  let ?t = "hmac_tag (response_of tag k status rq content)"
  have "length ?t = 32" by (simp add: response_of_def Let_def hmac_specD(5)[OF assms(1)])
  from read_response_frame(2)[OF _ this b(2), of "to_be_bytes 8 rq" status rest] show ?thesis
    by (simp add: RespRead b response_data_def resp_msg_type_def response_of_def Let_def from_be_to_be_bytes)
next
  case RespWrite
  let ?t = "hmac_tag (response_of tag k status rq content)"
  have "length ?t = 32" by (simp add: response_of_def Let_def hmac_specD(5)[OF assms(1)])
  from read_response_frame(1)[OF _ this, of "to_be_bytes 8 rq" status rest] show ?thesis
    by (simp add: RespWrite response_data_def resp_msg_type_def response_of_def Let_def from_be_to_be_bytes)
qed

text \<open>
  C39. Round trip of answers: what the callback of a completed operation writes to the client's
  connection is read by the client as a response with status \<open>Ok\<close>, the identifier of its request,
  a valid tag, and the data of the answer, with the following bytes left in the stream; the
  sector's permit is free again.
\<close>

theorem answer_roundtrip:
  assumes "hmac_spec M tag fed" and "cb_cmd cb = Client c" and "c_content c = Read \<longleftrightarrow> op_return a \<noteq> OpWrite"
    and "\<And>d. op_return a = OpRead d \<Longrightarrow> wf_sector (read_data_ret d)"
  shows "\<exists>p' msg response. success_callback chk M vec_write cb a p = Ok p' \<and>
           writers p' (cb_writer cb) = writers p (cb_writer cb) @ msg \<and>
           sectors_guards p' (cb_guard cb) = map_option Suc (sectors_guards p (cb_guard cb)) \<and>
           read_response slice_read (msg @ rest) = Ok (Inr response, rest) \<and>
           status_code (resp_header response) = StatusOk \<and> resp_content response = answer_content (op_return a) \<and>
           assert_response_header M (rp_hmac_client_key p) response c = Ok ()"
proof -
  let ?r = "response_of tag (rp_hmac_client_key p) StatusOk (request_identifier (c_header c)) (answer_content (op_return a))"
  have data: "(case op_return a of OpRead d \<Rightarrow> sector_bytes (read_data_ret d) | OpWrite \<Rightarrow> []) =
      (case answer_content (op_return a) of RespRead d \<Rightarrow> sector_bytes d | RespWrite \<Rightarrow> [])"
    by (simp add: answer_content_def split: OperationReturn.split)
  have c: "c_content c = Read \<longleftrightarrow> answer_content (op_return a) \<noteq> RespWrite"
    using assms(3) by (cases "op_return a") (simp_all add: answer_content_def)
  have wf: "wf_sector d" if "answer_content (op_return a) = RespRead d" for d
    using that assms(4) by (cases "op_return a") (auto simp: answer_content_def)
  have "assert_response_header M (rp_hmac_client_key p) ?r c = Ok ()"
    using response_of_ok[OF assms(1), of "rp_hmac_client_key p" StatusOk "request_identifier (c_header c)" "answer_content (op_return a)"]
    by (simp add: assert_response_header_def) (simp add: response_of_def Let_def)
  moreover have "read_response slice_read ((response_data ?r @ hmac_tag ?r) @ rest) = Ok (Inr ?r, rest)"
    using read_response_of[OF assms(1) wf] by simp
  moreover have "status_code (resp_header ?r) = StatusOk \<and> resp_content ?r = answer_content (op_return a)"
    by (simp add: response_of_def Let_def)
  moreover let ?p' = "release_guard (cb_guard cb) (p\<lparr>writers := (writers p)(cb_writer cb :=
      writers p (cb_writer cb) @ response_data ?r @ hmac_tag ?r)\<rparr>)"
  have "success_callback chk M vec_write cb a p = Ok ?p'"
    unfolding success_callback_eq[OF assms(1,2)] data response_bytes_of[OF c] ..
  moreover have "writers ?p' (cb_writer cb) = writers p (cb_writer cb) @ response_data ?r @ hmac_tag ?r"
      "sectors_guards ?p' (cb_guard cb) = map_option Suc (sectors_guards p (cb_guard cb))"
    by (simp_all add: release_guard_def)
  ultimately show ?thesis by blast
qed

theorem answer_roundtrip_witness:
  "\<exists>p' msg response. success_callback True sum_mac vec_write \<lparr>cb_cmd = Client read_1, cb_writer = 3, cb_guard = 1\<rparr>
       \<lparr>op_request_identifier = 7, op_return = OpRead \<lparr>read_data_ret = zero_sector\<rparr>\<rparr> small_process = Ok p' \<and>
     writers p' 3 = writers small_process 3 @ msg \<and> read_response slice_read (msg @ [8]) = Ok (Inr response, [8]) \<and>
     resp_content response = RespRead zero_sector"
  using answer_roundtrip[OF sum_mac_spec, of "\<lparr>cb_cmd = Client read_1, cb_writer = 3, cb_guard = 1\<rparr>" read_1
      "\<lparr>op_request_identifier = 7, op_return = OpRead \<lparr>read_data_ret = zero_sector\<rparr>\<rparr>" True small_process "[8]"]
  by (auto simp: answer_content_def)

text \<open>
  A command that a client sends with the client key reaches the dispatch of the process it is
  connected to, marked as authentic, and the bytes after it stay in the stream; a well-formed
  command sent with another key reaches it marked as authentic only if the two keys give the
  message the same tag.
\<close>

theorem request_reaches_dispatch:
  assumes "hmac_spec M tag fed" and "wf_command (Client c)"
  shows "\<exists>msg. send_cmd M vec_write key (Client c) w = Ok (w @ msg) \<and>
           accept_connections slice_read chk M wr conn (msg @ rest) p =
             (handle_decoded chk M wr conn
                (Client c, tag key (serialize_unsigned (Client c)) =
                           tag (rp_hmac_client_key p) (serialize_unsigned (Client c))) p, rest)"
proof -
  have "deserialize_rc slice_read M sk (rp_hmac_client_key p)
      (serialize_unsigned (Client c) @ tag key (serialize_unsigned (Client c)) @ rest) =
      Some (Ok ((Client c, tag key (serialize_unsigned (Client c)) =
          tag (rp_hmac_client_key p) (serialize_unsigned (Client c))), rest))" for sk
    using decode_serialized[OF assms(2) hmac_specD(5)[OF assms(1)], of "[]" tag sk "rp_hmac_client_key p"]
      find_magic_nil[of "[]"]
    by (simp add: slice_reader.deserialize_rc_eq[OF assms(1)] command_key_def)
  then show ?thesis
    by (simp add: send_cmd_def serialize_rc_eq[OF assms(1)] vec_write_def accept_connections_def)
qed

theorem request_reaches_dispatch_witness:
  "\<exists>msg. send_cmd sum_mac vec_write [2] (Client read_1) [] = Ok ([] @ msg) \<and>
     accept_connections slice_read True sum_mac vec_write 4 (msg @ [1]) small_process =
       (handle_decoded True sum_mac vec_write 4 (Client read_1, True) small_process, [1])"
proof -
  have "rp_hmac_client_key small_process = [2]" by (simp add: small_process_def rp_new_def)
  then show ?thesis
    using request_reaches_dispatch[OF sum_mac_spec, of read_1 "[2]" "[]" True vec_write 4 "[1]" small_process] by simp
qed

text \<open>
  Refusals carry no data. The client reads a refused write as it was sent; a refused read,
  which the process also answers without data, makes the client's reader panic when nothing
  follows, because for this type it always expects a sector.
\<close>

theorem refusal_as_read_by_client:
  assumes "hmac_spec M tag fed" and "status \<noteq> StatusOk"
  shows "(c_content c \<noteq> Read \<longrightarrow>
            (\<exists>response. read_response slice_read (response_bytes tag k status c [] @ rest) = Ok (Inr response, rest) \<and>
               status_code (resp_header response) = status \<and> assert_response_header M k response c = Ok ())) \<and>
         (c_content c = Read \<longrightarrow> read_response slice_read (response_bytes tag k status c []) = Panic UnwrapErr)"
proof (intro conjI impI)
  let ?r = "response_of tag k status (request_identifier (c_header c)) RespWrite"
  assume "c_content c \<noteq> Read"
  then have "response_bytes tag k status c [] = response_data ?r @ hmac_tag ?r"
    using response_bytes_of[of c RespWrite tag k status] by simp
  moreover have "assert_response_header M k ?r c = Ok ()"
    using response_of_ok[OF assms(1), of k status "request_identifier (c_header c)" RespWrite]
    by (simp add: assert_response_header_def) (simp add: response_of_def Let_def)
  moreover have "status_code (resp_header ?r) = status" by (simp add: response_of_def Let_def)
  ultimately show "\<exists>response. read_response slice_read (response_bytes tag k status c [] @ rest) = Ok (Inr response, rest) \<and>
      status_code (resp_header response) = status \<and> assert_response_header M k response c = Ok ()"
    using read_response_of[OF assms(1), of RespWrite k status "request_identifier (c_header c)" rest] by auto
next
  assume "c_content c = Read"
  then show "read_response slice_read (response_bytes tag k status c []) = Panic UnwrapErr"
    by (simp add: read_response_def response_bytes_def Let_def nth_append hmac_specD(5)[OF assms(1)])
qed

theorem refusal_as_read_by_client_witness:
  "read_response slice_read (response_bytes sum_tag [2] AuthFailure read_1 []) = Panic UnwrapErr \<and>
   (\<exists>response. read_response slice_read (response_bytes sum_tag [2] InvalidSectorIndex
        \<lparr>c_header = \<lparr>request_identifier = 7, c_sector_idx = 1\<rparr>, c_content = Write zero_sector\<rparr> [] @ [1]) =
        Ok (Inr response, [1]))"
  using refusal_as_read_by_client[OF sum_mac_spec, of AuthFailure read_1 "[2]" "[]"]
    refusal_as_read_by_client[OF sum_mac_spec, of InvalidSectorIndex
      "\<lparr>c_header = \<lparr>request_identifier = 7, c_sector_idx = 1\<rparr>, c_content = Write zero_sector\<rparr>" "[2]" "[1]"]
  by auto

end
