(* ===== verification/Run_Process.thy ===== *)
theory Run_Process
  imports Test_Client
begin

text \<open>
  Starting a process: \<open>run_register_process\<close> of \<^verbatim>\<open>src/solution/src/lib.rs\<close>, which puts the register
  client, the file-based sectors manager and the register process together, and the configuration
  of a test cluster (\<^verbatim>\<open>src/test-utils/system.rs\<close>). Whether the listener can be bound, a peer
  reached and configured, and the order in which a directory is listed are parameters.
\<close>

section \<open>Start\<close>

definition listen_address :: "bool \<Rightarrow> u8 \<Rightarrow> location list \<Rightarrow> location res" where
  "listen_address chk rank locs =
     res_bind (checked_sub chk (ucast rank :: u64) 1) (\<lambda>i.
     if unat i < length locs then Ok (locs ! unat i)
     else Panic (Expect ''Self rank is out of tcp_locations vector bounds''))"

type_synonym register_process = "(bytes, SectorsManagerState \<times> fs, RegisterClientState \<times> channels) RegisterProcessState"

definition no_channels :: channels where
  "no_channels = \<lparr>chan_queue = \<lambda>_. [], chan_closed = {}\<rparr>"

definition run_register_process ::
    "bool \<Rightarrow> (location \<Rightarrow> bool) \<Rightarrow> (location \<Rightarrow> bool) \<Rightarrow> (location \<Rightarrow> bool) \<Rightarrow> (fs \<Rightarrow> string list) \<Rightarrow>
     Configuration \<Rightarrow> fs option \<Rightarrow> register_process res" where
  "run_register_process chk bind connect nodelay listing config dir =
     (let cfg = public_cfg config; locs = tcp_locations cfg; rank = self_rank cfg in
      res_bind (listen_address chk rank locs) (\<lambda>addr.
      if \<not> bind addr then Panic (Expect ''Failed to bind to address'')
      else
        res_bind (rc_new chk connect nodelay rank (of_nat (length locs)) locs) (\<lambda>(register_client, _).
        res_bind (sm_new listing (storage_dir cfg) dir) (\<lambda>sectors_manager.
        Ok (rp_new sm_read_metadata sm_read_data rank (cfg_hmac_system_key config) (cfg_hmac_client_key config)
              (of_nat (length locs)) (cfg_n_sectors cfg) (\<lambda>_. []) sectors_manager
              (register_client, no_channels))))))"

text \<open>The configuration that the tests give to the process with index \<open>proc_idx\<close>.\<close>

definition N_SECTORS :: u64 where
  "N_SECTORS = 65536"

record TestProcessesConfig =
  test_client_key :: bytes
  test_system_key :: bytes
  storage_dirs :: "string list"
  test_locations :: "location list"

definition test_config :: "TestProcessesConfig \<Rightarrow> nat \<Rightarrow> Configuration res" where
  "test_config cfg proc_idx =
     (if length (storage_dirs cfg) \<le> proc_idx then Panic UnwrapNone
      else if length (test_system_key cfg) \<noteq> 64 \<or> length (test_client_key cfg) \<noteq> 32 then Panic UnwrapErr
      else Ok \<lparr>cfg_hmac_system_key = test_system_key cfg, cfg_hmac_client_key = test_client_key cfg,
               public_cfg = \<lparr>storage_dir = storage_dirs cfg ! proc_idx, tcp_locations = test_locations cfg,
                             self_rank = of_nat (proc_idx + 1), cfg_n_sectors = N_SECTORS\<rparr>\<rparr>)"

section \<open>Properties\<close>

lemma unat_ucast_u8: "unat (ucast (x :: u8) :: u64) = unat x"
proof -
  have "unat x < 2 ^ 64" by (rule order_less_trans[OF unat_u8_less]) simp
  then show ?thesis by (simp add: unsigned_ucast_eq take_bit_nat_eq_self)
qed

lemma listen_address_eq:
  "listen_address chk rank locs =
     (if 1 \<le> unat rank \<and> unat rank \<le> length locs then Ok (locs ! (unat rank - 1))
      else if chk \<and> rank = 0 then Panic ArithmeticOverflow
      else if rank = 0 \<and> 2 ^ 64 - 1 < length locs then Ok (locs ! (2 ^ 64 - 1))
      else Panic (Expect ''Self rank is out of tcp_locations vector bounds''))"
proof (cases "rank = 0")
  case True
  then show ?thesis by (simp add: listen_address_def checked_sub_def unsigned_minus_1_eq_mask mask_eq_exp_minus_1)
next
  case False
  then have "1 \<le> unat (ucast rank :: u64)" by (simp add: unat_ucast_u8 Suc_le_eq unat_gt_0)
  then have "checked_sub chk (ucast rank :: u64) 1 = Ok (ucast rank - 1)" "unat ((ucast rank :: u64) - 1) = unat rank - 1"
    by (simp_all add: checked_sub_def word_less_nat_alt unat_ucast_u8 unat_sub word_le_nat_alt)
  with False \<open>1 \<le> unat (ucast rank :: u64)\<close> show ?thesis
    by (auto simp: listen_address_def unat_ucast_u8)
qed

text \<open>
  A process whose rank is that of one of at most 255 configured locations, which can bind its
  own location, reach all others, and finds a directory that an earlier process left behind in
  whatever state, starts: its semaphores, queues and channels are in their invariants, it has
  connections to exactly the processes of the system, and the register of every sector has the
  newest version and value of the directory.
\<close>

theorem process_starts_from_directory:
  assumes "1 \<le> unat rank" and "unat rank \<le> length locs" and "length locs < 256"
    and "bind (locs ! (unat rank - 1))"
    and "\<forall>j < length locs. j \<noteq> unat rank - 1 \<longrightarrow> connect (locs ! j) \<and> nodelay (locs ! j)"
    and "dir_ok d" and "distinct (listing d)" and "set (listing d) = dom d"
  shows "\<exists>p. run_register_process chk bind connect nodelay listing
               \<lparr>cfg_hmac_system_key = sk, cfg_hmac_client_key = ck,
                public_cfg = \<lparr>storage_dir = sd, tcp_locations = locs, self_rank = rank, cfg_n_sectors = n\<rparr>\<rparr> (Some d) = Ok p \<and>
             rp_inv p \<and> sm_inv (rp_store p) \<and> rc_inv (rp_links p) \<and>
             rc_procs (rp_links p) = set (ranks (of_nat (length locs))) \<and>
             (\<forall>i < n. registers p i = Some (ar_new rank i (of_nat (length locs))
                (fst (fst (stored d i))) (snd (fst (stored d i))) (snd (stored d i))))"
proof -
  let ?n = "of_nat (length locs) :: u8"
  have un: "unat ?n = length locs" using assms(3) by (rule unat_of_nat_u8)
  have rank: "rank \<in> set (ranks ?n)" using assms(1,2) by (simp add: set_ranks un)
  have one: "unat (rank - 1) = unat rank - 1" using assms(1) by (simp add: unat_sub word_le_nat_alt)
  have peers: "reachable_peers f rank locs (map of_nat [0..<unat ?n])"
    if "\<forall>j < length locs. j \<noteq> unat rank - 1 \<longrightarrow> f (locs ! j)" for f
    using that assms(3) unfolding reachable_peers_def un by (auto simp: unat_of_nat_u8 word_unat_eq_iff one)
  obtain st where st: "rc_new chk connect nodelay rank ?n locs = Ok (st, filter (\<lambda>p. p \<noteq> rank) (ranks ?n))"
      "rc_processes_count st = ?n" "rc_ok rank st"
    using rc_new_ok[OF rank peers peers] assms(5) by blast
  obtain m where m: "sm_new (\<lambda>_. listing d) sd (Some d) = Ok m" "sm_inv m" "\<And>i. stored (snd m) i = stored d i"
    by (rule recovery_complete[OF assms(6-8), of sd]) (rule that)
  then have sm: "sm_new listing sd (Some d) = Ok m" by (simp add: sm_new_def)
  let ?p = "rp_new sm_read_metadata sm_read_data rank sk ck ?n n (\<lambda>_. []) m (st, no_channels) :: register_process"
  have reads: "sm_read_metadata i m = fst (stored d i)" "sm_read_data i m = Ok (snd (stored d i))" for i
    using sm_inv_reads[OF m(2), of i] m(3)[of i] by auto
  have "rp_inv ?p" by (rule rp_new_inv) (use reads in blast)
  moreover have "rc_inv (st, no_channels)" using st(3) by (auto simp: rc_inv_def no_channels_def)
  moreover have "\<forall>i < n. registers ?p i = Some (ar_new rank i ?n (fst (fst (stored d i))) (snd (fst (stored d i))) (snd (stored d i)))"
    by (simp add: rp_new_def build_atomic_register_def reads split: prod.split)
  ultimately show ?thesis
    using assms(1,2,4) st(1,2) sm m(2)
    by (simp add: run_register_process_def listen_address_eq Let_def rc_procs_def) (simp add: rp_new_def)
qed

theorem process_starts_from_directory_witness:
  "\<exists>p. run_register_process True (\<lambda>_. True) (\<lambda>_. True) (\<lambda>_. True) (\<lambda>_. [])
         \<lparr>cfg_hmac_system_key = [1], cfg_hmac_client_key = [2],
          public_cfg = \<lparr>storage_dir = ''s'', tcp_locations = [(''a'', 1), (''b'', 2)], self_rank = 2, cfg_n_sectors = 8\<rparr>\<rparr>
         (Some Map.empty) = Ok p \<and> rp_inv p"
  using process_starts_from_directory[of 2 "[(''a'', 1), (''b'', 2)]" "\<lambda>_. True" "\<lambda>_. True" "\<lambda>_. True" Map.empty "\<lambda>_. []"
      True "[1]" "[2]" "''s''" 8]
  by (auto simp: dir_ok_def)

text \<open>
  A rank that is not one of the configured locations is refused at the start: rank 0 by the
  overflow of \<open>self_rank - 1\<close>, in a build without overflow checks by the lookup, like every rank
  above the number of locations.
\<close>

theorem bad_rank_panics:
  assumes "self_rank (public_cfg config) = 0 \<or> length (tcp_locations (public_cfg config)) < unat (self_rank (public_cfg config))"
    and "length (tcp_locations (public_cfg config)) < 2 ^ 64"
  shows "run_register_process chk bind connect nodelay listing config dir =
     Panic (if chk \<and> self_rank (public_cfg config) = 0 then ArithmeticOverflow
            else Expect ''Self rank is out of tcp_locations vector bounds'')"
  using assms by (auto simp: run_register_process_def listen_address_eq Let_def)

theorem bad_rank_panics_witness:
  "run_register_process True (\<lambda>_. True) (\<lambda>_. True) (\<lambda>_. True) (\<lambda>_. [])
         \<lparr>cfg_hmac_system_key = [1], cfg_hmac_client_key = [2],
          public_cfg = \<lparr>storage_dir = ''s'', tcp_locations = [(''a'', 1), (''b'', 2)], self_rank = 3, cfg_n_sectors = 8\<rparr>\<rparr>
         None = Panic (Expect ''Self rank is out of tcp_locations vector bounds'')"
  using bad_rank_panics[of "\<lparr>cfg_hmac_system_key = [1], cfg_hmac_client_key = [2],
          public_cfg = \<lparr>storage_dir = ''s'', tcp_locations = [(''a'', 1), (''b'', 2)], self_rank = 3, cfg_n_sectors = 8\<rparr>\<rparr>"
      True "\<lambda>_. True" "\<lambda>_. True" "\<lambda>_. True" "\<lambda>_. []" None]
  by simp

end
