(* ===== verification/Register_Spec.thy ===== *)
theory Register_Spec
  imports Domain
begin

text \<open>
  The abstract (N,N)-AtomicRegister: the algorithm of the task description
  (\<^verbatim>\<open>src/README.md\<close> and \<^verbatim>\<open>src/(N-N)-AtomicRegister.txt\<close>) without the local variables of the
  processes. An operation collects values from a quorum, proposes the lexicographically highest
  version or a version above it, has the proposal acknowledged by a quorum, and finishes. The
  theory shows that this specification is atomic: versions order the operations consistently with
  real time, writes have different versions, and a read returns the data of the write that has
  its version.
\<close>

section \<open>Quorums\<close>

locale quorums =
  fixes procs :: "u8 set"
    and quorum :: "u8 set \<Rightarrow> bool"
  assumes intersect: "quorum A \<Longrightarrow> quorum B \<Longrightarrow> A \<inter> B \<noteq> {}"
    and quorum_mono: "quorum A \<Longrightarrow> A \<subseteq> B \<Longrightarrow> B \<subseteq> procs \<Longrightarrow> quorum B"
    and no_rank_0: "0 \<notin> procs"

section \<open>States and steps\<close>

datatype proposal = Proposal (ver: "u64 \<times> u8") (sector: SectorVec)

record nnar_op =
  op_owner :: u8
  op_floor :: "Uuid set"
  op_content :: ClientRegisterCommandContent

text \<open>
  \<open>cur\<close> is the stored version and value of each process, \<open>ops\<close> the operations started so far with
  the set of operations that were finished then, \<open>vals\<close> the values sent for them, \<open>proposals\<close> the
  chosen version and value of an operation, \<open>acks\<close> its acknowledgements, \<open>fin\<close> the finished ones.
\<close>

record nnar =
  cur :: "u8 \<Rightarrow> proposal"
  ops :: "Uuid \<rightharpoonup> nnar_op"
  vals :: "Uuid \<Rightarrow> u8 \<Rightarrow> proposal set"
  proposals :: "Uuid \<rightharpoonup> proposal"
  acks :: "Uuid \<Rightarrow> u8 set"
  fin :: "Uuid set"

definition initial_value :: proposal where
  "initial_value = Proposal (0, 0) zero_sector"

definition nnar_init :: nnar where
  "nnar_init = \<lparr>cur = \<lambda>_. initial_value, ops = Map.empty, vals = \<lambda>_ _. {}, proposals = Map.empty, acks = \<lambda>_. {}, fin = {}\<rparr>"

definition lex_highest :: "proposal \<Rightarrow> proposal set \<Rightarrow> bool" where
  "lex_highest e S \<longleftrightarrow> e \<in> S \<and> (\<forall>e' \<in> S. ver e' \<le> ver e)"

text \<open>What an operation may choose from: values sent for it by a quorum, and the owner's own one.\<close>

definition choosable :: "(u8 set \<Rightarrow> bool) \<Rightarrow> nnar \<Rightarrow> Uuid \<Rightarrow> u8 \<Rightarrow> proposal \<Rightarrow> bool" where
  "choosable quorum a u p e \<longleftrightarrow>
     (\<exists>E. (\<forall>x v. E x = Some v \<longrightarrow> v \<in> vals a u x) \<and> quorum (dom E) \<and> lex_highest e (insert (cur a p) (ran E)))"

inductive nnar_step :: "u8 set \<Rightarrow> (u8 set \<Rightarrow> bool) \<Rightarrow> nnar \<Rightarrow> nnar \<Rightarrow> bool" for procs quorum where
  start: "p \<in> procs \<Longrightarrow> ops a u = None \<Longrightarrow>
    nnar_step procs quorum a (a\<lparr>ops := (ops a)(u \<mapsto> \<lparr>op_owner = p, op_floor = fin a, op_content = c\<rparr>)\<rparr>)"
| reply: "x \<in> procs \<Longrightarrow> ops a u \<noteq> None \<Longrightarrow>
    nnar_step procs quorum a (a\<lparr>vals := (vals a)(u := (vals a u)(x := insert (cur a x) (vals a u x)))\<rparr>)"
| choose_read: "ops a u = Some k \<Longrightarrow> op_content k = Read \<Longrightarrow> proposals a u = None \<Longrightarrow>
    choosable quorum a u (op_owner k) e \<Longrightarrow>
    nnar_step procs quorum a (a\<lparr>proposals := (proposals a)(u \<mapsto> e)\<rparr>)"
| choose_write: "ops a u = Some k \<Longrightarrow> op_content k = Write d \<Longrightarrow> proposals a u = None \<Longrightarrow>
    choosable quorum a u (op_owner k) e \<Longrightarrow> fst (ver e) \<noteq> - 1 \<Longrightarrow> e' = Proposal (fst (ver e) + 1, op_owner k) d \<Longrightarrow>
    nnar_step procs quorum a (a\<lparr>proposals := (proposals a)(u \<mapsto> e'), cur := (cur a)(op_owner k := e')\<rparr>)"
| acknowledge: "x \<in> procs \<Longrightarrow> proposals a u = Some e \<Longrightarrow>
    nnar_step procs quorum a (a\<lparr>cur := (cur a)(x := if ver e > ver (cur a x) then e else cur a x),
                               acks := (acks a)(u := insert x (acks a u))\<rparr>)"
| finish: "proposals a u = Some e \<Longrightarrow> quorum (acks a u) \<Longrightarrow>
    nnar_step procs quorum a (a\<lparr>fin := insert u (fin a)\<rparr>)"

section \<open>Invariants\<close>

text \<open>Operations and their floors; senders of values and acknowledgements have at least the version they sent or acknowledged.\<close>

definition ops_inv :: "u8 set \<Rightarrow> nnar \<Rightarrow> bool" where
  "ops_inv procs a \<longleftrightarrow>
     (\<forall>u k. ops a u = Some k \<longrightarrow> op_owner k \<in> procs \<and> op_floor k \<subseteq> fin a) \<and>
     (\<forall>u x. \<forall>e \<in> vals a u x. x \<in> procs \<and> ops a u \<noteq> None \<and> ver e \<le> ver (cur a x)) \<and>
     (\<forall>u. proposals a u \<noteq> None \<longrightarrow> ops a u \<noteq> None) \<and>
     (\<forall>u. \<forall>x \<in> acks a u. x \<in> procs \<and> (\<exists>e. proposals a u = Some e \<and> ver e \<le> ver (cur a x)))"

text \<open>A finished operation's version is stored by a quorum.\<close>

definition fin_inv :: "u8 set \<Rightarrow> (u8 set \<Rightarrow> bool) \<Rightarrow> nnar \<Rightarrow> bool" where
  "fin_inv procs quorum a \<longleftrightarrow>
     (\<forall>u \<in> fin a. \<exists>e. proposals a u = Some e \<and> quorum {x \<in> procs. ver e \<le> ver (cur a x)})"

text \<open>
  Every value sent for an operation by some quorum is at least as new as any operation that was
  finished when it started, and so is what it proposes; a write proposes something newer.
\<close>

definition floor_inv :: "u8 set \<Rightarrow> (u8 set \<Rightarrow> bool) \<Rightarrow> nnar \<Rightarrow> bool" where
  "floor_inv procs quorum a \<longleftrightarrow>
     (\<forall>u k u' e'. ops a u = Some k \<longrightarrow> u' \<in> op_floor k \<longrightarrow> proposals a u' = Some e' \<longrightarrow>
        (\<exists>Q. quorum Q \<and> Q \<subseteq> procs \<and>
           (\<forall>x \<in> Q. ver e' \<le> ver (cur a x) \<and> (\<forall>e \<in> vals a u x. ver e' \<le> ver e))) \<and>
        (\<forall>e. proposals a u = Some e \<longrightarrow> ver e' \<le> ver e \<and> (op_content k \<noteq> Read \<longrightarrow> ver e' < ver e)))"

text \<open>Versions of writes carry the rank and the data of the writer, and are not newer than what it stores.\<close>

definition write_inv :: "nnar \<Rightarrow> bool" where
  "write_inv a \<longleftrightarrow>
     (\<forall>u k d e. ops a u = Some k \<longrightarrow> op_content k = Write d \<longrightarrow> proposals a u = Some e \<longrightarrow>
        snd (ver e) = op_owner k \<and> sector e = d \<and> ver e \<le> ver (cur a (op_owner k))) \<and>
     (\<forall>u k d u' k' d' e e'. ops a u = Some k \<longrightarrow> op_content k = Write d \<longrightarrow> proposals a u = Some e \<longrightarrow>
        ops a u' = Some k' \<longrightarrow> op_content k' = Write d' \<longrightarrow> proposals a u' = Some e' \<longrightarrow> ver e = ver e' \<longrightarrow> u = u')"

text \<open>Whatever is stored, sent or proposed is the initial value or was proposed by a write.\<close>

definition occurs :: "u8 set \<Rightarrow> nnar \<Rightarrow> proposal \<Rightarrow> bool" where
  "occurs procs a e \<longleftrightarrow> (\<exists>x \<in> procs. cur a x = e) \<or> (\<exists>u x. e \<in> vals a u x) \<or> (\<exists>u. proposals a u = Some e)"

definition written :: "nnar \<Rightarrow> proposal \<Rightarrow> bool" where
  "written a e \<longleftrightarrow> (\<exists>u k. ops a u = Some k \<and> op_content k = Write (sector e) \<and> proposals a u = Some e)"

definition origin_inv :: "u8 set \<Rightarrow> nnar \<Rightarrow> bool" where
  "origin_inv procs a \<longleftrightarrow> (\<forall>e. occurs procs a e \<longrightarrow> e = initial_value \<or> written a e)"

definition nnar_inv :: "u8 set \<Rightarrow> (u8 set \<Rightarrow> bool) \<Rightarrow> nnar \<Rightarrow> bool" where
  "nnar_inv procs quorum a \<longleftrightarrow> ops_inv procs a \<and> fin_inv procs quorum a \<and> floor_inv procs quorum a \<and>
     write_inv a \<and> origin_inv procs a"

definition order_inv :: "nnar \<Rightarrow> bool" where
  "order_inv a \<longleftrightarrow> finite (dom (ops a)) \<and>
     (\<forall>u k. ops a u = Some k \<longrightarrow> u \<notin> op_floor k) \<and>
     (\<forall>u k u' k'. ops a u = Some k \<longrightarrow> u' \<in> op_floor k \<longrightarrow> ops a u' = Some k' \<longrightarrow> op_floor k' \<subseteq> op_floor k)"

lemma nnar_init_inv: "nnar_inv procs quorum nnar_init"
  by (auto simp: nnar_inv_def ops_inv_def fin_inv_def floor_inv_def write_inv_def origin_inv_def occurs_def nnar_init_def)


lemma choosable_own: "choosable quorum a u p e \<Longrightarrow> ver (cur a p) \<le> ver e"
  by (auto simp: choosable_def lex_highest_def)

lemma choosable_occurs:
  assumes "choosable quorum a u p e" and "p \<in> procs"
  shows "occurs procs a e"
proof -
  from assms(1) obtain E where "\<forall>x v. E x = Some v \<longrightarrow> v \<in> vals a u x" "e = cur a p \<or> e \<in> ran E"
    by (auto simp: choosable_def lex_highest_def)
  with assms(2) show ?thesis unfolding occurs_def ran_def by blast
qed

lemma next_version: "fst v \<noteq> - 1 \<Longrightarrow> v < (fst v + 1 :: u64, p :: u8)"
proof -
  assume "fst v \<noteq> - 1"
  then have "1 + fst v \<noteq> 0" by (simp add: eq_neg_iff_add_eq_0 add.commute)
  from unatSuc[OF this] have "fst v < fst v + 1" by (simp add: word_less_nat_alt add.commute)
  then show ?thesis by (simp add: less_prod_def')
qed

context quorums
begin

lemma choosable_quorum:
  assumes "choosable quorum a u p e" and "quorum Q"
  obtains x v where "x \<in> Q" "v \<in> vals a u x" "ver v \<le> ver e"
proof -
  from assms(1) obtain E where E: "\<forall>x v. E x = Some v \<longrightarrow> v \<in> vals a u x" "quorum (dom E)"
      "\<forall>v \<in> ran E. ver v \<le> ver e"
    unfolding choosable_def lex_highest_def by blast
  from intersect[OF assms(2) E(2)] obtain x v where "x \<in> Q" "E x = Some v" by auto
  with E show thesis by (auto intro!: that[of x v] ranI)
qed

text \<open>Versions grow, and nothing that was started, sent, proposed, acknowledged or finished is taken back.\<close>

lemma step_grows:
  assumes "nnar_step procs quorum a a'"
  shows "ver (cur a x) \<le> ver (cur a' x)" and "ops a u = Some k \<Longrightarrow> ops a' u = Some k"
    and "vals a u x \<subseteq> vals a' u x" and "proposals a u = Some e \<Longrightarrow> proposals a' u = Some e"
    and "acks a u \<subseteq> acks a' u" and "fin a \<subseteq> fin a'"
proof -
  show "ver (cur a x) \<le> ver (cur a' x)"
    using assms
  proof cases
    case (choose_write u k d e e')
    then have "ver (cur a (op_owner k)) < ver e'"
      using next_version[of "ver e" "op_owner k"] choosable_own[of quorum a u "op_owner k" e] by simp
    then have "ver (cur a (op_owner k)) \<le> ver e'" by (rule less_imp_le)
    with choose_write(1) show ?thesis by simp
  qed auto
qed (use assms in \<open>auto elim!: nnar_step.cases\<close>)

lemma ops_inv_step:
  assumes "nnar_step procs quorum a a'" and inv: "nnar_inv procs quorum a"
  shows "ops_inv procs a'"
proof -
  note mono = order_trans[OF _ step_grows(1)[OF assms(1)]]
  from inv have i: "ops_inv procs a" by (simp add: nnar_inv_def)
  have v: "x \<in> procs \<and> ops a' u \<noteq> None \<and> ver e \<le> ver (cur a' x)" if "e \<in> vals a' u x" for u x e
  proof (cases "e \<in> vals a u x")
    case True
    with i have "x \<in> procs \<and> ops a u \<noteq> None \<and> ver e \<le> ver (cur a x)" by (auto simp: ops_inv_def)
    with step_grows(2)[OF assms(1)] mono show ?thesis by blast
  next
    case False
    from assms(1) show ?thesis by cases (use that False in \<open>auto split: if_splits\<close>)
  qed
  have k: "x \<in> procs \<and> (\<exists>e. proposals a' u = Some e \<and> ver e \<le> ver (cur a' x))" if "x \<in> acks a' u" for u x
  proof (cases "x \<in> acks a u")
    case True
    with i obtain e where "x \<in> procs" "proposals a u = Some e" "ver e \<le> ver (cur a x)"
      unfolding ops_inv_def by blast
    with step_grows(4)[OF assms(1)] mono show ?thesis by blast
  next
    case False
    from assms(1) show ?thesis by cases (use that False in \<open>auto split: if_splits\<close>)
  qed
  have "\<forall>u k. ops a' u = Some k \<longrightarrow> op_owner k \<in> procs \<and> op_floor k \<subseteq> fin a'"
    using assms(1) by cases (use i in \<open>auto simp: ops_inv_def\<close>)
  moreover have "\<forall>u. proposals a' u \<noteq> None \<longrightarrow> ops a' u \<noteq> None"
    using assms(1) by cases (use i in \<open>auto simp: ops_inv_def\<close>)
  moreover from v have "\<forall>u x. \<forall>e \<in> vals a' u x. x \<in> procs \<and> ops a' u \<noteq> None \<and> ver e \<le> ver (cur a' x)" by simp
  moreover from k have "\<forall>u. \<forall>x \<in> acks a' u. x \<in> procs \<and> (\<exists>e. proposals a' u = Some e \<and> ver e \<le> ver (cur a' x))" by simp
  ultimately show ?thesis by (simp only: ops_inv_def) 
qed

lemma fin_inv_step:
  assumes "nnar_step procs quorum a a'" and inv: "nnar_inv procs quorum a"
  shows "fin_inv procs quorum a'"
  unfolding fin_inv_def
proof
  fix u assume u: "u \<in> fin a'"
  from inv have i: "ops_inv procs a" "fin_inv procs quorum a" by (simp_all add: nnar_inv_def)
  show "\<exists>e. proposals a' u = Some e \<and> quorum {x \<in> procs. ver e \<le> ver (cur a' x)}"
  proof (cases "u \<in> fin a")
    case True
    with i(2) obtain e where e: "proposals a u = Some e" "quorum {x \<in> procs. ver e \<le> ver (cur a x)}"
      unfolding fin_inv_def by blast
    have "{x \<in> procs. ver e \<le> ver (cur a x)} \<subseteq> {x \<in> procs. ver e \<le> ver (cur a' x)}"
      using order_trans[OF _ step_grows(1)[OF assms(1)]] by blast
    from quorum_mono[OF e(2) this] step_grows(4)[OF assms(1) e(1)] show ?thesis by simp
  next
    case False
    from assms(1) show ?thesis
    proof cases
      case (finish u' e)
      with u False have u': "u' = u" by simp
      have "acks a u \<subseteq> {x \<in> procs. ver e \<le> ver (cur a x)}"
        using i(1) finish(2) u' unfolding ops_inv_def by fastforce
      from quorum_mono[OF finish(3)[unfolded u'] this] finish u' show ?thesis by simp
    qed (use u False in auto)
  qed
qed

lemma unproposed_unfinished:
  assumes "nnar_inv procs quorum a" and "ops a u = Some k" and "u' \<in> op_floor k" and "proposals a u'' = None"
  shows "u' \<noteq> u''"
proof -
  from assms(1-3) have "u' \<in> fin a" unfolding nnar_inv_def ops_inv_def by blast
  with assms(1,4) show ?thesis unfolding nnar_inv_def fin_inv_def by force
qed

text \<open>The floor of an operation stays below a quorum of replies, and a choice is above it.\<close>

lemma floor_quorum_step:
  assumes step: "nnar_step procs quorum a a'" and inv: "nnar_inv procs quorum a"
    and u: "ops a' u = Some k" "u' \<in> op_floor k" "proposals a' u' = Some e'"
  shows "\<exists>Q. quorum Q \<and> Q \<subseteq> procs \<and> (\<forall>x \<in> Q. ver e' \<le> ver (cur a' x) \<and> (\<forall>e \<in> vals a' u x. ver e' \<le> ver e))"
proof (cases "ops a u")
  case None
  from inv have i: "ops_inv procs a" "fin_inv procs quorum a" by (simp_all add: nnar_inv_def)
  from step show ?thesis
  proof cases
    case (start p v c)
    with u(1) None have k: "op_floor k = fin a" by (auto split: if_splits)
    from None i(1) have "vals a u x = {}" for x unfolding ops_inv_def by fastforce
    moreover from i(2) u(2,3) k start(1) have "quorum {x \<in> procs. ver e' \<le> ver (cur a x)}"
      unfolding fin_inv_def by fastforce
    ultimately show ?thesis using start(1) by (intro exI[of _ "{x \<in> procs. ver e' \<le> ver (cur a x)}"]) simp
  qed (use u(1) None in simp_all)
next
  case (Some k0)
  with step_grows(2)[OF step Some] u(1) have k: "ops a u = Some k" by simp
  from inv k u(2) have "u' \<in> fin a" unfolding nnar_inv_def ops_inv_def by blast
  with inv obtain e0 where "proposals a u' = Some e0" unfolding nnar_inv_def fin_inv_def by blast
  with step_grows(4)[OF step] u(3) have e': "proposals a u' = Some e'" by force
  with inv k u(2) obtain Q where Q: "quorum Q" "Q \<subseteq> procs"
      "\<forall>x \<in> Q. ver e' \<le> ver (cur a x) \<and> (\<forall>e \<in> vals a u x. ver e' \<le> ver e)"
    unfolding nnar_inv_def floor_inv_def by blast
  have "ver e' \<le> ver (cur a' x)" if "x \<in> Q" for x
    using Q(3) that order_trans[OF _ step_grows(1)[OF step]] by blast
  moreover have "ver e' \<le> ver e" if "x \<in> Q" "e \<in> vals a' u x" for x e
  proof (cases "e \<in> vals a u x")
    case False
    from step have "e = cur a x" by cases (use that(2) False in \<open>auto split: if_splits\<close>)
    with Q(3) that(1) show ?thesis by blast
  qed (use Q(3) that in blast)
  ultimately show ?thesis using Q by blast
qed

lemma floor_choice:
  assumes "nnar_inv procs quorum a" and "ops a u = Some k" and "u' \<in> op_floor k"
    and "proposals a u' = Some e'" and "choosable quorum a u p e"
  shows "ver e' \<le> ver e"
proof -
  from assms(1-4) obtain Q where Q: "quorum Q"
      "\<forall>x \<in> Q. ver e' \<le> ver (cur a x) \<and> (\<forall>e \<in> vals a u x. ver e' \<le> ver e)"
    unfolding nnar_inv_def floor_inv_def by blast
  obtain x v where "x \<in> Q" "v \<in> vals a u x" "ver v \<le> ver e"
    by (rule choosable_quorum[OF assms(5) Q(1)])
  with Q(2) show ?thesis by (meson order_trans)
qed

lemma floor_proposal:
  assumes step: "nnar_step procs quorum a a'" and inv: "nnar_inv procs quorum a"
    and k: "ops a u = Some k" "u' \<in> op_floor k" "proposals a' u' = Some e'"
  shows "proposals a u' = Some e'"
proof -
  from inv k have "u' \<in> fin a" unfolding nnar_inv_def ops_inv_def by blast
  with inv obtain e0 where "proposals a u' = Some e0" unfolding nnar_inv_def fin_inv_def by blast
  with step_grows(4)[OF step this] k(3) show ?thesis by simp
qed

lemma floor_proposal_step:
  assumes step: "nnar_step procs quorum a a'" and inv: "nnar_inv procs quorum a"
    and u: "ops a' u = Some k" "u' \<in> op_floor k" "proposals a' u' = Some e'" "proposals a' u = Some e"
  shows "ver e' \<le> ver e \<and> (op_content k \<noteq> Read \<longrightarrow> ver e' < ver e)"
proof (cases "proposals a u")
  case (Some e0)
  with inv obtain k0 where k0: "ops a u = Some k0" unfolding nnar_inv_def ops_inv_def by blast
  with step_grows(2)[OF step k0] u(1) have k: "ops a u = Some k" by simp
  from step_grows(4)[OF step Some] u(4) have e: "proposals a u = Some e" using Some by simp
  from inv k u(2) floor_proposal[OF step inv k u(2,3)] e show ?thesis
    unfolding nnar_inv_def floor_inv_def by blast
next
  case None
  from step show ?thesis
  proof cases
    case (choose_read v k' c)
    with u(1,4) None have "v = u" "k' = k" "c = e" by (auto split: if_splits)
    with choose_read floor_choice[OF inv _ u(2) floor_proposal[OF step inv _ u(2,3)]] show ?thesis by simp
  next
    case (choose_write v k' d c e'')
    with u(1,4) None have v: "v = u" "k' = k" "e'' = e" by (auto split: if_splits)
    have k: "ops a u = Some k" using choose_write v by simp
    have "ver e' \<le> ver c"
      using floor_choice[OF inv k u(2) floor_proposal[OF step inv k u(2,3)]] choose_write v by simp
    also have "ver c < ver e" using next_version[of "ver c"] choose_write v by simp
    finally show ?thesis by simp
  qed (use u(4) None in simp_all)
qed

lemma floor_inv_step:
  "nnar_step procs quorum a a' \<Longrightarrow> nnar_inv procs quorum a \<Longrightarrow> floor_inv procs quorum a'"
  using floor_quorum_step floor_proposal_step unfolding floor_inv_def by simp

text \<open>A write's version is above everything its owner stored, hence different from the earlier ones with the same rank.\<close>

lemma new_write:
  assumes "nnar_step procs quorum a a'"
    and "ops a' u = Some k" "op_content k = Write d" "proposals a' u = Some e" "proposals a u = None"
  shows "snd (ver e) = op_owner k \<and> sector e = d \<and> ver e \<le> ver (cur a' (op_owner k)) \<and>
    ver (cur a (op_owner k)) < ver e \<and> (\<forall>v. v \<noteq> u \<longrightarrow> proposals a' v = proposals a v) \<and> ops a' = ops a"
  using assms(1)
proof cases
  case (choose_write v k' d' c e'')
  with assms have v: "v = u" "k' = k" "e'' = e" "d' = d" by (auto split: if_splits)
  have "ver (cur a (op_owner k)) < ver e"
    using order_le_less_trans[OF choosable_own next_version[of "ver c" "op_owner k"]] choose_write v by simp
  with choose_write v show ?thesis by simp
qed (use assms in \<open>auto split: if_splits\<close>)

lemma old_write:
  assumes step: "nnar_step procs quorum a a'" and inv: "nnar_inv procs quorum a"
    and u: "ops a' u = Some k" "proposals a' u = Some e" "proposals a u \<noteq> None"
  shows "ops a u = Some k \<and> proposals a u = Some e"
proof -
  from u(3) obtain e0 where e0: "proposals a u = Some e0" by blast
  with inv obtain k0 where k0: "ops a u = Some k0" unfolding nnar_inv_def ops_inv_def by blast
  from step_grows(2)[OF step k0] step_grows(4)[OF step e0] u k0 e0 show ?thesis by simp
qed

lemma write_rank_step:
  assumes step: "nnar_step procs quorum a a'" and inv: "nnar_inv procs quorum a"
    and u: "ops a' u = Some k" "op_content k = Write d" "proposals a' u = Some e"
  shows "snd (ver e) = op_owner k \<and> sector e = d \<and> ver e \<le> ver (cur a' (op_owner k))"
proof (cases "proposals a u = None")
  case True
  from new_write[OF step u True] show ?thesis by blast
next
  case False
  with old_write[OF step inv u(1,3)] u(2) inv
  have "snd (ver e) = op_owner k \<and> sector e = d \<and> ver e \<le> ver (cur a (op_owner k))"
    unfolding nnar_inv_def write_inv_def by blast
  with order_trans[OF _ step_grows(1)[OF step]] show ?thesis by blast
qed

lemma new_write_version:
  assumes step: "nnar_step procs quorum a a'" and inv: "nnar_inv procs quorum a"
    and u: "ops a' u = Some k" "op_content k = Write d" "proposals a' u = Some e" "proposals a u = None"
    and u': "ops a' u' = Some k'" "op_content k' = Write d'" "proposals a' u' = Some e'" "ver e = ver e'"
  shows "u = u'"
proof (rule ccontr)
  assume "u \<noteq> u'"
  with new_write[OF step u] u' have "ops a u' = Some k'" "proposals a u' = Some e'" by auto
  with inv u'(2) have "snd (ver e') = op_owner k' \<and> ver e' \<le> ver (cur a (op_owner k'))"
    unfolding nnar_inv_def write_inv_def by blast
  with new_write[OF step u] u'(4) show False by auto
qed

lemma write_inv_step:
  assumes step: "nnar_step procs quorum a a'" and inv: "nnar_inv procs quorum a"
  shows "write_inv a'"
proof -
  have "u = u'"
    if "ops a' u = Some k" "op_content k = Write d" "proposals a' u = Some e"
      "ops a' u' = Some k'" "op_content k' = Write d'" "proposals a' u' = Some e'" "ver e = ver e'" for u k d e u' k' d' e'
  proof (cases "proposals a u = None \<or> proposals a u' = None")
    case True
    with new_write_version[OF step inv that(1-3) _ that(4-7)]
      new_write_version[OF step inv that(4-6) _ that(1-3) that(7)[symmetric]] show ?thesis by auto
  next
    case False
    with old_write[OF step inv that(1,3)] old_write[OF step inv that(4,6)]
    have "ops a u = Some k" "proposals a u = Some e" "ops a u' = Some k'" "proposals a u' = Some e'" by simp_all
    with that(2,5,7) inv show ?thesis unfolding nnar_inv_def write_inv_def by blast
  qed
  with write_rank_step[OF step inv] show ?thesis unfolding write_inv_def by blast
qed

lemma written_step: "nnar_step procs quorum a a' \<Longrightarrow> written a e \<Longrightarrow> written a' e"
  unfolding written_def using step_grows(2,4) by blast

lemma origin_inv_step:
  assumes step: "nnar_step procs quorum a a'" and inv: "nnar_inv procs quorum a"
  shows "origin_inv procs a'"
  unfolding origin_inv_def
proof (intro allI impI)
  fix e assume e: "occurs procs a' e"
  from inv have i: "ops_inv procs a" "origin_inv procs a" by (simp_all add: nnar_inv_def)
  have "occurs procs a e \<or> written a' e"
    using step
  proof cases
    case (choose_read u k c)
    with i(1) have "occurs procs a c" by (intro choosable_occurs) (auto simp: ops_inv_def)
    with choose_read e show ?thesis by (auto simp: occurs_def split: if_splits)
  next
    case (choose_write u k d c e')
    then have "written a' e'" by (auto simp: written_def)
    with choose_write e show ?thesis by (auto simp: occurs_def split: if_splits)
  qed (use e in \<open>auto simp: occurs_def split: if_splits\<close>)
  with i(2) written_step[OF step] show "e = initial_value \<or> written a' e" unfolding origin_inv_def by blast
qed

lemma nnar_inv_step:
  "nnar_step procs quorum a a' \<Longrightarrow> nnar_inv procs quorum a \<Longrightarrow> nnar_inv procs quorum a'"
  unfolding nnar_inv_def[of procs quorum a']
  using ops_inv_step fin_inv_step floor_inv_step write_inv_step origin_inv_step by simp

lemma nnar_reachable_inv:
  "(nnar_step procs quorum)\<^sup>*\<^sup>* nnar_init a \<Longrightarrow> nnar_inv procs quorum a"
  by (induction rule: rtranclp_induct) (auto intro: nnar_init_inv nnar_inv_step)

end

section \<open>Atomicity\<close>

text \<open>
  What a history of finished operations promises. \<open>res u\<close> is the version and data that operation
  \<open>u\<close> ended with: the versions respect the order in which operations do not overlap, a write is
  newer than everything finished before it and than the initial value, different writes have
  different versions, a write has its own data, and what a read returns is the initial value or the data of a started write with that version.
\<close>

definition atomic_history ::
    "(Uuid \<rightharpoonup> nnar_op) \<Rightarrow> Uuid set \<Rightarrow> (Uuid \<rightharpoonup> proposal) \<Rightarrow> bool" where
  "atomic_history os done res \<longleftrightarrow>
     (\<forall>u \<in> done. os u \<noteq> None \<and> res u \<noteq> None) \<and>
     (\<forall>u k u' e e'. os u = Some k \<longrightarrow> u' \<in> op_floor k \<longrightarrow> res u = Some e \<longrightarrow> res u' = Some e' \<longrightarrow>
        ver e' \<le> ver e \<and> (op_content k \<noteq> Read \<longrightarrow> ver e' < ver e)) \<and>
     (\<forall>u k d e. os u = Some k \<longrightarrow> op_content k = Write d \<longrightarrow> res u = Some e \<longrightarrow>
        sector e = d \<and> ver initial_value < ver e) \<and>
     (\<forall>u k d u' k' d' e e'. os u = Some k \<longrightarrow> op_content k = Write d \<longrightarrow> res u = Some e \<longrightarrow>
        os u' = Some k' \<longrightarrow> op_content k' = Write d' \<longrightarrow> res u' = Some e' \<longrightarrow> ver e = ver e' \<longrightarrow> u = u') \<and>
     (\<forall>u e. res u = Some e \<longrightarrow> e = initial_value \<or>
        (\<exists>w k. os w = Some k \<and> op_content k = Write (sector e) \<and> res w = Some e))"

context quorums
begin

lemma write_version_positive:
  assumes "nnar_inv procs quorum a" and "ops a u = Some k" and "op_content k = Write d" and "proposals a u = Some e"
  shows "ver initial_value < ver e"
proof -
  from assms have "snd (ver e) = op_owner k" "op_owner k \<in> procs"
    unfolding nnar_inv_def ops_inv_def write_inv_def by blast+
  with no_rank_0 have "snd (ver e) \<noteq> 0" by metis
  then show ?thesis by (cases "ver e") (auto simp: initial_value_def word_gt_0)
qed

lemma nnar_atomic:
  assumes "nnar_inv procs quorum a"
  shows "atomic_history (ops a) (fin a) (proposals a)"
proof -
  from assms have i: "ops_inv procs a" "fin_inv procs quorum a" "floor_inv procs quorum a" "write_inv a" "origin_inv procs a"
    by (simp_all add: nnar_inv_def)
  have "\<forall>u \<in> fin a. ops a u \<noteq> None \<and> proposals a u \<noteq> None"
    using i(1,2) unfolding ops_inv_def fin_inv_def by (metis option.distinct(1))
  moreover have "\<forall>u k u' e e'. ops a u = Some k \<longrightarrow> u' \<in> op_floor k \<longrightarrow> proposals a u = Some e \<longrightarrow>
      proposals a u' = Some e' \<longrightarrow> ver e' \<le> ver e \<and> (op_content k \<noteq> Read \<longrightarrow> ver e' < ver e)"
    using i(3) unfolding floor_inv_def by blast
  moreover have "\<forall>u k d e. ops a u = Some k \<longrightarrow> op_content k = Write d \<longrightarrow> proposals a u = Some e \<longrightarrow>
      sector e = d \<and> ver initial_value < ver e"
    using i(4) write_version_positive[OF assms] unfolding write_inv_def by blast
  moreover have "\<forall>u e. proposals a u = Some e \<longrightarrow> e = initial_value \<or> written a e"
    using i(5) unfolding origin_inv_def occurs_def by blast
  ultimately show ?thesis using i(4) unfolding atomic_history_def write_inv_def written_def by blast
qed

text \<open>An operation that finished before another started has seen fewer operations finish.\<close>

lemma order_inv_step:
  assumes "nnar_step procs quorum a a'" and inv: "nnar_inv procs quorum a" and ord: "order_inv a"
  shows "order_inv a'"
  using assms(1)
proof cases
  case (start p u c)
  have fin: "v \<in> fin a \<Longrightarrow> ops a v \<noteq> None" for v
    using inv unfolding nnar_inv_def ops_inv_def fin_inv_def by (metis option.distinct(1))
  with start have "u \<notin> fin a" by blast
  moreover have floors: "op_floor k \<subseteq> fin a" if "ops a v = Some k" for v k
    using inv that unfolding nnar_inv_def ops_inv_def by blast
  ultimately have "u \<notin> op_floor k" if "ops a v = Some k" for v k using that by blast
  with ord start floors \<open>u \<notin> fin a\<close> show ?thesis unfolding order_inv_def by auto
qed (use ord in \<open>simp_all add: order_inv_def\<close>)

lemma nnar_reachable_order:
  "(nnar_step procs quorum)\<^sup>*\<^sup>* nnar_init a \<Longrightarrow> order_inv a"
proof (induction rule: rtranclp_induct)
  case base
  show ?case by (simp add: order_inv_def nnar_init_def)
next
  case (step a a')
  from order_inv_step[OF step.hyps(2) nnar_reachable_inv[OF step.hyps(1)] step.IH] show ?case .
qed

end

end
