(* ===== verification/Linearization.thy ===== *)
theory Linearization
  imports Register_Spec
begin

text \<open>
  From versions to a sequential order. A history whose operations carry versions as
  \<open>atomic_history\<close> demands can be put into one sequence that respects real time and in which
  every operation returns what a single sequential register would return.
\<close>

section \<open>The sequential register\<close>

text \<open>The results of executing operations one after the other on a register that holds \<open>d\<close>.\<close>

fun replay :: "(Uuid \<rightharpoonup> nnar_op) \<Rightarrow> SectorVec \<Rightarrow> Uuid list \<Rightarrow> (Uuid \<times> OperationReturn) list" where
  "replay os d [] = []"
| "replay os d (u # us) =
     (case os u of
        None \<Rightarrow> replay os d us
      | Some k \<Rightarrow> (case op_content k of
          Read \<Rightarrow> (u, OpRead \<lparr>read_data_ret = d\<rparr>) # replay os d us
        | Write d' \<Rightarrow> (u, OpWrite) # replay os d' us))"

definition linearization :: "(Uuid \<rightharpoonup> nnar_op) \<Rightarrow> (Uuid \<rightharpoonup> OperationReturn) \<Rightarrow> Uuid list \<Rightarrow> bool" where
  "linearization os rets ord \<longleftrightarrow>
     distinct ord \<and> dom rets \<subseteq> set ord \<and> set ord \<subseteq> dom os \<and>
     (\<forall>i j k. i < length ord \<longrightarrow> j < length ord \<longrightarrow> os (ord ! j) = Some k \<longrightarrow> ord ! i \<in> op_floor k \<longrightarrow> i < j) \<and>
     (\<forall>u ret. rets u = Some ret \<longrightarrow> (u, ret) \<in> set (replay os zero_sector ord))"

definition return_of :: "ClientRegisterCommandContent \<Rightarrow> proposal \<Rightarrow> OperationReturn" where
  "return_of content e = (case content of Read \<Rightarrow> OpRead \<lparr>read_data_ret = sector e\<rparr> | Write _ \<Rightarrow> OpWrite)"

section \<open>Ordering by versions\<close>

text \<open>Writes come before the reads of their version; operations of one version in the order of their start.\<close>

definition order_key :: "(Uuid \<rightharpoonup> nnar_op) \<Rightarrow> (Uuid \<rightharpoonup> proposal) \<Rightarrow> Uuid \<Rightarrow> (u64 \<times> u8) \<times> nat \<times> nat" where
  "order_key os res u =
     (ver (the (res u)), (if op_content (the (os u)) = Read then 1 else 0), card (op_floor (the (os u))))"

text \<open>
  What holds between the register's content \<open>d\<close> of version \<open>v\<close> and the operations still to come:
  every read to come has that version, or the write of its version is still to come as well.
\<close>

definition consistent ::
    "(Uuid \<rightharpoonup> nnar_op) \<Rightarrow> (Uuid \<rightharpoonup> proposal) \<Rightarrow> u64 \<times> u8 \<Rightarrow> SectorVec \<Rightarrow> Uuid list \<Rightarrow> bool" where
  "consistent os res v d us \<longleftrightarrow>
     distinct us \<and> sorted (map (order_key os res) us) \<and>
     (\<forall>u \<in> set us. \<exists>k e. os u = Some k \<and> res u = Some e \<and> v \<le> ver e \<and>
        (case op_content k of
           Read \<Rightarrow> ver e = v \<and> sector e = d \<or>
                  (\<exists>w \<in> set us. \<exists>k'. os w = Some k' \<and> op_content k' = Write (sector e) \<and> res w = Some e)
         | Write d' \<Rightarrow> sector e = d' \<and> v < ver e))"

definition unique_writes :: "(Uuid \<rightharpoonup> nnar_op) \<Rightarrow> (Uuid \<rightharpoonup> proposal) \<Rightarrow> bool" where
  "unique_writes os res \<longleftrightarrow>
     (\<forall>u k d u' k' d' e e'. os u = Some k \<longrightarrow> op_content k = Write d \<longrightarrow> res u = Some e \<longrightarrow>
        os u' = Some k' \<longrightarrow> op_content k' = Write d' \<longrightarrow> res u' = Some e' \<longrightarrow> ver e = ver e' \<longrightarrow> u = u')"

lemma consistentD:
  assumes "consistent os res v d us" and "u \<in> set us"
  obtains (reads) k e where "os u = Some k" "res u = Some e" "v \<le> ver e" "op_content k = Read"
      "ver e = v \<and> sector e = d \<or>
       (\<exists>w \<in> set us. \<exists>k'. os w = Some k' \<and> op_content k' = Write (sector e) \<and> res w = Some e)"
  | (writes) k e where "os u = Some k" "res u = Some e" "op_content k = Write (sector e)" "v < ver e"
proof -
  from assms obtain k e where "os u = Some k" "res u = Some e" "v \<le> ver e"
      "case op_content k of
         Read \<Rightarrow> ver e = v \<and> sector e = d \<or>
           (\<exists>w \<in> set us. \<exists>k'. os w = Some k' \<and> op_content k' = Write (sector e) \<and> res w = Some e)
       | Write d' \<Rightarrow> sector e = d' \<and> v < ver e"
    unfolding consistent_def by blast
  then show thesis by (cases "op_content k") (auto intro: that)
qed

lemma key_order:
  assumes "consistent os res v d (u # us)" and "w \<in> set us"
  shows "order_key os res u \<le> order_key os res w"
  using assms unfolding consistent_def by simp

lemma consistent_read:
  assumes c: "consistent os res v d (u # us)" and u: "os u = Some k" "op_content k = Read" "res u = Some e"
  shows "ver e = v \<and> sector e = d" and "consistent os res v d us"
proof -
  have u_in: "u \<in> set (u # us)" by simp
  show "ver e = v \<and> sector e = d"
  proof (rule ccontr)
    assume no: "\<not> ?thesis"
    from c u_in obtain w k' where w: "w \<in> set (u # us)" "os w = Some k'"
        "op_content k' = Write (sector e)" "res w = Some e"
      by (cases rule: consistentD) (use u no in auto)
    with u have "w \<in> set us" by auto
    from key_order[OF c this] u w show False by (simp add: order_key_def)
  qed
  show "consistent os res v d us"
    unfolding consistent_def
  proof (intro conjI ballI)
    fix x assume "x \<in> set us"
    then have x: "x \<in> set (u # us)" by simp
    with c show "\<exists>k e. os x = Some k \<and> res x = Some e \<and> v \<le> ver e \<and>
        (case op_content k of
           Read \<Rightarrow> ver e = v \<and> sector e = d \<or>
                  (\<exists>w \<in> set us. \<exists>k'. os w = Some k' \<and> op_content k' = Write (sector e) \<and> res w = Some e)
         | Write d' \<Rightarrow> sector e = d' \<and> v < ver e)"
    proof (cases rule: consistentD)
      case (reads k' e')
      with u(1,2) show ?thesis by (intro exI[of _ k'] exI[of _ e']) auto
    next
      case (writes k' e')
      then show ?thesis by (intro exI[of _ k'] exI[of _ e']) simp
    qed
  qed (use c in \<open>simp_all add: consistent_def\<close>)
qed

lemma consistent_write:
  assumes c: "consistent os res v d (u # us)" and u: "os u = Some k" "op_content k = Write d'" "res u = Some e"
    and unique: "unique_writes os res"
  shows "consistent os res (ver e) d' us"
  unfolding consistent_def
proof (intro conjI ballI)
  have e: "sector e = d'" "v < ver e"
    by (rule consistentD[OF c, of u]; use u in simp)+
  fix x assume x: "x \<in> set us"
  then have x': "x \<in> set (u # us)" and ne: "x \<noteq> u" using c by (auto simp: consistent_def)
  from key_order[OF c x] have le: "ver e \<le> ver (the (res x))"
    using u(3) unfolding order_key_def by (auto simp only: less_eq_prod_simp option.sel intro: less_imp_le)
  from c x' show "\<exists>k f. os x = Some k \<and> res x = Some f \<and> ver e \<le> ver f \<and>
      (case op_content k of
         Read \<Rightarrow> ver f = ver e \<and> sector f = d' \<or>
                (\<exists>w \<in> set us. \<exists>k'. os w = Some k' \<and> op_content k' = Write (sector f) \<and> res w = Some f)
       | Write d'' \<Rightarrow> sector f = d'' \<and> ver e < ver f)"
  proof (cases rule: consistentD)
    case (reads k' f)
    with le e obtain w k'' where "w \<in> set (u # us)" "os w = Some k''" "op_content k'' = Write (sector f)" "res w = Some f"
      by auto
    with u e reads le show ?thesis by (intro exI[of _ k'] exI[of _ f]) auto
  next
    case (writes k' f)
    have "ver e \<noteq> ver f" using unique u writes ne unfolding unique_writes_def by metis
    with le writes show ?thesis by (intro exI[of _ k'] exI[of _ f]) simp
  qed
qed (use c in \<open>simp_all add: consistent_def\<close>)

lemma replay_consistent:
  assumes "consistent os res v d us" and "unique_writes os res"
    and "u \<in> set us" and "os u = Some k" and "res u = Some e"
  shows "(u, return_of (op_content k) e) \<in> set (replay os d us)"
  using assms(1,3)
proof (induction us arbitrary: v d)
  case (Cons x us)
  have "x \<in> set (x # us)" by simp
  with Cons.prems(1) show ?case
  proof (cases rule: consistentD)
    case (reads k' f)
    note r = consistent_read[OF Cons.prems(1) reads(1,4,2)]
    show ?thesis
    proof (cases "u = x")
      case True
      with reads r(1) assms(4,5) show ?thesis by (simp add: return_of_def)
    next
      case False
      with Cons.IH[OF r(2)] Cons.prems(2) reads show ?thesis by simp
    qed
  next
    case (writes k' f)
    show ?thesis
    proof (cases "u = x")
      case True
      with writes assms(4,5) show ?thesis by (simp add: return_of_def)
    next
      case False
      with Cons.IH[OF consistent_write[OF Cons.prems(1) writes(1,3,2) assms(2)]] Cons.prems(2) writes
      show ?thesis by simp
    qed
  qed
qed simp

section \<open>Every atomic history has a linearization\<close>

lemma floor_key:
  assumes hist: "atomic_history os F res" and "os u = Some k" and "u' \<in> op_floor k" and "os u' = Some k'"
    and "res u = Some e" and "res u' = Some e'" and "card (op_floor k') < card (op_floor k)"
  shows "order_key os res u' < order_key os res u"
proof -
  have "ver e' \<le> ver e" "op_content k \<noteq> Read \<longrightarrow> ver e' < ver e"
    using hist assms(2,3,5,6) unfolding atomic_history_def by blast+
  with assms show ?thesis by (cases "ver e' < ver e") (auto simp: order_key_def less_prod_def')
qed

lemma atomic_consistent:
  assumes hist: "atomic_history os F res" and sub: "dom res \<subseteq> dom os"
    and ord: "set ord = dom res" "distinct ord" "sorted (map (order_key os res) ord)"
  shows "consistent os res (ver initial_value) zero_sector ord"
  unfolding consistent_def
proof (intro conjI ballI)
  fix u assume "u \<in> set ord"
  with ord sub obtain k e where u: "os u = Some k" "res u = Some e" by blast
  show "\<exists>k e. os u = Some k \<and> res u = Some e \<and> ver initial_value \<le> ver e \<and>
      (case op_content k of
         Read \<Rightarrow> ver e = ver initial_value \<and> sector e = zero_sector \<or>
                (\<exists>w \<in> set ord. \<exists>k'. os w = Some k' \<and> op_content k' = Write (sector e) \<and> res w = Some e)
       | Write d' \<Rightarrow> sector e = d' \<and> ver initial_value < ver e)"
  proof (intro exI[of _ k] exI[of _ e] conjI u)
    show "ver initial_value \<le> ver e" by (cases "ver e") (simp add: initial_value_def less_eq_prod_def)
    show "case op_content k of
         Read \<Rightarrow> ver e = ver initial_value \<and> sector e = zero_sector \<or>
                (\<exists>w \<in> set ord. \<exists>k'. os w = Some k' \<and> op_content k' = Write (sector e) \<and> res w = Some e)
       | Write d' \<Rightarrow> sector e = d' \<and> ver initial_value < ver e"
    proof (cases "op_content k")
      case Read
      have "e = initial_value \<or> (\<exists>w k. os w = Some k \<and> op_content k = Write (sector e) \<and> res w = Some e)"
        using hist u(2) unfolding atomic_history_def by blast
      with Read ord(1) show ?thesis by (auto simp: initial_value_def)
    next
      case (Write d')
      with hist u show ?thesis unfolding atomic_history_def by simp
    qed
  qed
qed (use ord in simp_all)

lemma atomic_linearization:
  assumes hist: "atomic_history os F res" and fin: "finite (dom res)" and sub: "dom res \<subseteq> dom os"
    and floors: "\<And>u k u' k'. os u = Some k \<Longrightarrow> u' \<in> op_floor k \<Longrightarrow> os u' = Some k' \<Longrightarrow>
                   card (op_floor k') < card (op_floor k)"
    and rets: "\<And>u ret. rets u = Some ret \<Longrightarrow> \<exists>k e. os u = Some k \<and> res u = Some e \<and> ret = return_of (op_content k) e"
  shows "\<exists>ord. linearization os rets ord"
proof -
  from finite_distinct_list[OF fin] obtain xs where xs: "set xs = dom res" "distinct xs" by blast
  define ord where "ord = sort_key (order_key os res) xs"
  have ord: "set ord = dom res" "distinct ord" "sorted (map (order_key os res) ord)"
    using xs by (simp_all add: ord_def)
  from hist have unique: "unique_writes os res" unfolding atomic_history_def unique_writes_def by blast
  note replay = replay_consistent[OF atomic_consistent[OF hist sub ord] unique]
  have "i < j" if "i < length ord" "j < length ord" "os (ord ! j) = Some k" "ord ! i \<in> op_floor k" for i j k
  proof (rule ccontr)
    assume "\<not> i < j"
    then have le: "order_key os res (ord ! j) \<le> order_key os res (ord ! i)"
      using sorted_nth_mono[OF ord(3), of j i] that(1,2) by simp
    from that ord(1) nth_mem[of i ord] nth_mem[of j ord] obtain e e' where
      e: "res (ord ! j) = Some e" "res (ord ! i) = Some e'" by blast
    with sub obtain k' where "os (ord ! i) = Some k'" by blast
    from floor_key[OF hist that(3,4) this e floors[OF that(3,4) this]] le show False by simp
  qed
  moreover have "(u, ret) \<in> set (replay os zero_sector ord)" if "rets u = Some ret" for u ret
    using rets[OF that] replay[of u] ord(1) by auto
  moreover have "dom rets \<subseteq> set ord" using rets ord(1) by blast
  ultimately show ?thesis using ord sub unfolding linearization_def by (intro exI[of _ ord]) simp
qed

end
