(* ===== verification/Cluster.thy ===== *)
theory Cluster
  imports Linearization Register_Storage Register_Client
begin

text \<open>
  All registers of one sector together: \<open>n\<close> processes running the handlers of
  \<^verbatim>\<open>atomic_register.rs\<close>, the messages they have handed to their register clients, and their disks.
  A message may be delivered late, repeatedly, in any order or never, so whatever the links of
  \<^verbatim>\<open>register_client.rs\<close> do is included. A process may crash before a handler, after it or between
  two of its effects, and starts again from what is stored (\<open>build_atomic_register\<close> in \<^verbatim>\<open>lib.rs\<close>).

  The steps refine the abstract register of \<open>Register_Spec\<close> as long as the entry a process chooses
  from its read list is the one with the highest version; the choice of the code, which compares
  write ranks only, does not ensure that, and an execution with a stale read is given.
\<close>

section \<open>States and steps\<close>

text \<open>
  An operation is identified by its random operation identifier, which also stands for the
  callback of the request. \<open>started\<close> and \<open>returned\<close> record the history: the operations with those
  that had returned when they started, and the results handed to the callbacks.
\<close>

type_synonym register = "Uuid AtomicRegisterState"

record cluster =
  registers :: "u8 \<Rightarrow> register"
  disks :: "u8 \<Rightarrow> SectorVec \<times> u64 \<times> u8"
  pool :: "(u8 \<times> SystemRegisterCommand) set"
  started :: "Uuid \<rightharpoonup> nnar_op"
  returned :: "Uuid \<rightharpoonup> OperationReturn"

definition boot :: "u8 \<Rightarrow> SectorIdx \<Rightarrow> u8 \<Rightarrow> SectorVec \<times> u64 \<times> u8 \<Rightarrow> register" where
  "boot n sidx p x = (case x of (v, t, w) \<Rightarrow> ar_new p sidx n t w v)"

definition cluster_init :: "u8 \<Rightarrow> SectorIdx \<Rightarrow> cluster" where
  "cluster_init n sidx =
     \<lparr>registers = \<lambda>p. boot n sidx p (zero_sector, 0, 0), disks = \<lambda>_. (zero_sector, 0, 0),
      pool = {}, started = Map.empty, returned = Map.empty\<rparr>"

fun emit :: "u8 \<Rightarrow> u8 \<Rightarrow> cluster \<Rightarrow> Uuid ar_effect \<Rightarrow> cluster" where
  "emit n p c (Store _ x) = c\<lparr>disks := (disks c)(p := x)\<rparr>"
| "emit n p c (Send q m) = c\<lparr>pool := insert (q, m) (pool c)\<rparr>"
| "emit n p c (Broadcast m) = c\<lparr>pool := (\<lambda>q. (q, m)) ` set (ranks n) \<union> pool c\<rparr>"
| "emit n p c (Callback u r) = c\<lparr>returned := (returned c)(u \<mapsto> op_return r)\<rparr>"

definition reboot :: "u8 \<Rightarrow> SectorIdx \<Rightarrow> u8 \<Rightarrow> cluster \<Rightarrow> cluster" where
  "reboot n sidx p c = c\<lparr>registers := (registers c)(p := boot n sidx p (disks c p))\<rparr>"

definition after :: "u8 \<Rightarrow> u8 \<Rightarrow> register \<Rightarrow> Uuid ar_effect list \<Rightarrow> cluster \<Rightarrow> cluster" where
  "after n p s es c = foldl (emit n p) (c\<lparr>registers := (registers c)(p := s)\<rparr>) es"

inductive cluster_step ::
    "(readlist_map \<Rightarrow> readlist_map) \<Rightarrow> u8 \<Rightarrow> SectorIdx \<Rightarrow> (SystemRegisterCommand \<Rightarrow> register \<Rightarrow> bool) \<Rightarrow>
     cluster \<Rightarrow> cluster \<Rightarrow> bool"
  for iter n sidx permitted where
  invoke: "p \<in> set (ranks n) \<Longrightarrow> idle (registers c p) \<Longrightarrow> started c u = None \<Longrightarrow>
    client_command u cmd u (registers c p) = (s', es) \<Longrightarrow>
    cluster_step iter n sidx permitted c
      (after n p s' es (c\<lparr>started := (started c)(u \<mapsto>
         \<lparr>op_owner = p, op_floor = dom (returned c), op_content = c_content cmd\<rparr>)\<rparr>))"
| deliver: "(p, m) \<in> pool c \<Longrightarrow> permitted m (registers c p) \<Longrightarrow>
    system_command iter True m (registers c p) = Ok (s', es) \<Longrightarrow>
    cluster_step iter n sidx permitted c (after n p s' es c)"
| crash: "p \<in> set (ranks n) \<Longrightarrow> cluster_step iter n sidx permitted c (reboot n sidx p c)"
| crash_in_handler: "(p, m) \<in> pool c \<Longrightarrow> permitted m (registers c p) \<Longrightarrow>
    system_command iter True m (registers c p) = Ok (s', performed @ left) \<Longrightarrow>
    cluster_step iter n sidx permitted c (reboot n sidx p (after n p (registers c p) performed c))"

text \<open>The choice the algorithm asks for: if the value completes a majority, the entry taken has the highest version.\<close>

definition entry_version :: "reading_entry \<Rightarrow> u64 \<times> u8" where
  "entry_version e = (fst e, fst (snd e))"

definition newest_choice :: "(readlist_map \<Rightarrow> readlist_map) \<Rightarrow> SystemRegisterCommand \<Rightarrow> register \<Rightarrow> bool" where
  "newest_choice iter m s \<longleftrightarrow>
     (case s_content m of
        Value t w d \<Rightarrow>
          op_id s = Some (msg_ident (s_header m)) \<and> \<not> write_phase s \<and> \<not> idle s \<and>
          majority s (length (collected (s_header m) (t, w, d) s)) \<longrightarrow>
          (\<forall>e e'. highest iter (gathered (s_header m) (t, w, d) s) = Some e \<longrightarrow>
             e' \<in> snd ` set (gathered (s_header m) (t, w, d) s) \<longrightarrow> entry_version e' \<le> entry_version e)
      | _ \<Rightarrow> True)"

lemma newest_choiceD:
  assumes "newest_choice iter m s" and "s_content m = Value t w d" and "op_id s = Some (msg_ident (s_header m))"
    and "\<not> write_phase s" and "\<not> idle s" and "majority s (length (collected (s_header m) (t, w, d) s))"
    and "highest iter (gathered (s_header m) (t, w, d) s) = Some e" and "e' \<in> snd ` set (gathered (s_header m) (t, w, d) s)"
  shows "entry_version e' \<le> entry_version e"
  using assms(1) unfolding newest_choice_def assms(2) SystemRegisterCommandContent.case using assms(3-8) by blast

section \<open>Majorities\<close>

definition majority_of :: "u8 \<Rightarrow> u8 set \<Rightarrow> bool" where
  "majority_of n Q \<longleftrightarrow> Q \<subseteq> set (ranks n) \<and> unat n div 2 < card Q"

lemma card_ranks: "card (set (ranks n)) = unat n"
  unfolding distinct_card[OF distinct_ranks] by (simp add: ranks_def)

lemma majorities_intersect:
  assumes "majority_of n A" and "majority_of n B"
  shows "A \<inter> B \<noteq> {}"
proof
  assume disjoint: "A \<inter> B = {}"
  from assms have sub: "A \<union> B \<subseteq> set (ranks n)" and fin: "finite A" "finite B"
    by (auto simp: majority_of_def intro: finite_subset)
  have "card A + card B = card (A \<union> B)" by (simp add: card_Un_disjoint fin disjoint)
  also have "\<dots> \<le> unat n" using card_mono[OF _ sub] by (simp add: card_ranks)
  finally show False using assms unfolding majority_of_def by linarith
qed

interpretation majorities: quorums "set (ranks n)" "majority_of n" for n
proof
  show "majority_of n A \<Longrightarrow> majority_of n B \<Longrightarrow> A \<inter> B \<noteq> {}" for A B by (rule majorities_intersect)
  show "majority_of n A \<Longrightarrow> A \<subseteq> B \<Longrightarrow> B \<subseteq> set (ranks n) \<Longrightarrow> majority_of n B" for A B
    unfolding majority_of_def using card_mono[of B A] by (auto intro: finite_subset order_less_le_trans)
  show "0 \<notin> set (ranks n)" by (simp add: set_ranks)
qed

section \<open>The simulation relation\<close>

definition entry_proposal :: "reading_entry \<Rightarrow> proposal" where
  "entry_proposal e = Proposal (entry_version e) (snd (snd e))"

abbreviation stored_proposal :: "register \<Rightarrow> proposal" where
  "stored_proposal r \<equiv> Proposal (ar_ts r, ar_wr r) (ar_val r)"

text \<open>A message stands for a fact that the abstract register has recorded.\<close>

fun content_rel :: "nnar \<Rightarrow> Uuid \<Rightarrow> u8 \<Rightarrow> SystemRegisterCommandContent \<Rightarrow> bool" where
  "content_rel a u q ReadProc = (ops a u \<noteq> None)"
| "content_rel a u q (Value t w d) = (Proposal (t, w) d \<in> vals a u q)"
| "content_rel a u q (WriteProc t w d) = (proposals a u = Some (Proposal (t, w) d))"
| "content_rel a u q Ack = (q \<in> acks a u)"

definition message_rel :: "u8 \<Rightarrow> nnar \<Rightarrow> u8 \<Rightarrow> SystemRegisterCommand \<Rightarrow> bool" where
  "message_rel n a q m \<longleftrightarrow> q \<in> set (ranks n) \<and> process_identifier (s_header m) \<in> set (ranks n) \<and>
     content_rel a (msg_ident (s_header m)) (process_identifier (s_header m)) (s_content m)"

text \<open>The register of a process, its disk, and its pending operation.\<close>

definition node_rel :: "u8 \<Rightarrow> SectorIdx \<Rightarrow> u8 \<Rightarrow> register \<Rightarrow> SectorVec \<times> u64 \<times> u8 \<Rightarrow> proposal \<Rightarrow> bool" where
  "node_rel n sidx p r disk e \<longleftrightarrow>
     reg_inv r \<and> self_ident r = p \<and> processes_count r = n \<and> sector_idx r = sidx \<and>
     disk = current r \<and> e = stored_proposal r"

definition active_rel :: "nnar \<Rightarrow> register \<Rightarrow> Uuid \<Rightarrow> nnar_op \<Rightarrow> bool" where
  "active_rel a r u k \<longleftrightarrow>
     (reading r \<longleftrightarrow> op_content k = Read) \<and> (writing r \<longrightarrow> op_content k = Write (writeval r)) \<and> callback r = Some u \<and>
     (if write_phase r
      then \<exists>e. proposals a u = Some e \<and> (reading r \<longrightarrow> readval r = sector e) \<and> acklist r \<subseteq> acks a u
      else proposals a u = None \<and> (\<forall>x e. map_of (readlist r) x = Some e \<longrightarrow> entry_proposal e \<in> vals a u x))"

definition op_rel :: "cluster \<Rightarrow> nnar \<Rightarrow> u8 \<Rightarrow> bool" where
  "op_rel c a p \<longleftrightarrow>
     (\<forall>u. op_id (registers c p) = Some u \<longrightarrow> idle (registers c p) \<or>
        (\<exists>k. started c u = Some k \<and> op_owner k = p \<and> returned c u = None \<and> active_rel a (registers c p) u k))"

definition result_rel :: "cluster \<Rightarrow> nnar \<Rightarrow> Uuid \<Rightarrow> OperationReturn \<Rightarrow> bool" where
  "result_rel c a u ret \<longleftrightarrow>
     (\<exists>e k. proposals a u = Some e \<and> started c u = Some k \<and> ret = return_of (op_content k) e)"

definition sim :: "u8 \<Rightarrow> SectorIdx \<Rightarrow> cluster \<Rightarrow> nnar \<Rightarrow> bool" where
  "sim n sidx c a \<longleftrightarrow>
     ops a = started c \<and> fin a = dom (returned c) \<and>
     (\<forall>p \<in> set (ranks n). node_rel n sidx p (registers c p) (disks c p) (cur a p) \<and> op_rel c a p) \<and>
     (\<forall>q m. (q, m) \<in> pool c \<longrightarrow> message_rel n a q m) \<and>
     (\<forall>u ret. returned c u = Some ret \<longrightarrow> result_rel c a u ret)"

definition extends :: "nnar \<Rightarrow> nnar \<Rightarrow> bool" where
  "extends a a' \<longleftrightarrow>
     (\<forall>u k. ops a u = Some k \<longrightarrow> ops a' u = Some k) \<and> (\<forall>u x e. e \<in> vals a u x \<longrightarrow> e \<in> vals a' u x) \<and>
     (\<forall>u e. proposals a u = Some e \<longrightarrow> proposals a' u = Some e) \<and> (\<forall>u x. x \<in> acks a u \<longrightarrow> x \<in> acks a' u)"

lemma extends_refl: "extends a a"
  by (simp add: extends_def)

lemma step_extends: "nnar_step (set (ranks n)) (majority_of n) a a' \<Longrightarrow> extends a a'"
  unfolding extends_def using majorities.step_grows(2-5)[of n a a'] by blast

lemma message_rel_extends: "message_rel n a q m \<Longrightarrow> extends a a' \<Longrightarrow> message_rel n a' q m"
  unfolding message_rel_def extends_def by (cases "s_content m") auto

lemma active_rel_extends:
  "active_rel a r u k \<Longrightarrow> extends a a' \<Longrightarrow> proposals a' u = proposals a u \<Longrightarrow> active_rel a' r u k"
  unfolding active_rel_def extends_def subset_iff by auto

text \<open>What has to be shown when process \<open>p\<close> makes a step.\<close>

lemma sim_update:
  assumes sim: "sim n sidx c a" and ext: "extends a a'"
    and hist: "ops a' = started c'" "fin a' = dom (returned c')"
    and others: "\<And>q. q \<noteq> p \<Longrightarrow> registers c' q = registers c q \<and> disks c' q = disks c q \<and> cur a' q = cur a q"
    and foreign: "\<And>u k. started c u = Some k \<Longrightarrow> op_owner k \<noteq> p \<Longrightarrow>
        proposals a' u = proposals a u \<and> returned c' u = returned c u"
    and node: "node_rel n sidx p (registers c' p) (disks c' p) (cur a' p)" and own: "op_rel c' a' p"
    and pool: "\<And>q m. (q, m) \<in> pool c' \<Longrightarrow> (q, m) \<in> pool c \<or> message_rel n a' q m"
    and res: "\<And>u ret. returned c' u = Some ret \<Longrightarrow> returned c u = Some ret \<or> result_rel c' a' u ret"
  shows "sim n sidx c' a'"
  unfolding sim_def
proof (intro conjI ballI allI impI hist)
  have grow: "started c u = Some k \<Longrightarrow> started c' u = Some k" for u k
    using ext hist(1) sim unfolding extends_def sim_def by metis
  fix q assume q: "q \<in> set (ranks n)"
  with sim have old: "node_rel n sidx q (registers c q) (disks c q) (cur a q)" "op_rel c a q"
    by (simp_all add: sim_def)
  with others[of q] node show "node_rel n sidx q (registers c' q) (disks c' q) (cur a' q)"
    by (cases "q = p") simp_all
  show "op_rel c' a' q"
  proof (cases "q = p")
    case False
    then show ?thesis
      using old(2) others[of q] grow foreign active_rel_extends[OF _ ext] unfolding op_rel_def by metis
  qed (use own in simp)
next
  fix q m assume "(q, m) \<in> pool c'"
  from pool[OF this] sim message_rel_extends[OF _ ext] show "message_rel n a' q m"
    unfolding sim_def by blast
next
  fix u ret assume "returned c' u = Some ret"
  from res[OF this] show "result_rel c' a' u ret"
  proof
    assume "returned c u = Some ret"
    with sim have "result_rel c a u ret" by (simp add: sim_def)
    then show ?thesis using ext hist(1) sim unfolding result_rel_def extends_def sim_def by metis
  qed
qed

section \<open>Every step of the cluster is one of the abstract register\<close>

abbreviation reg_step :: "u8 \<Rightarrow> nnar \<Rightarrow> nnar \<Rightarrow> bool" where
  "reg_step n \<equiv> nnar_step (set (ranks n)) (majority_of n)"

abbreviation abs_inv :: "u8 \<Rightarrow> nnar \<Rightarrow> bool" where
  "abs_inv n \<equiv> nnar_inv (set (ranks n)) (majority_of n)"

lemma simD:
  assumes "sim n sidx c a" and "p \<in> set (ranks n)"
  shows "reg_inv (registers c p)" "self_ident (registers c p) = p" "processes_count (registers c p) = n"
    "sector_idx (registers c p) = sidx" "disks c p = current (registers c p)"
    "cur a p = stored_proposal (registers c p)" "op_rel c a p" "ops a = started c" "fin a = dom (returned c)"
  using assms unfolding sim_def node_rel_def by blast+

lemma idle_write_phase: "reg_inv r \<Longrightarrow> idle r \<Longrightarrow> \<not> write_phase r"
  by (simp add: reg_inv_def split: if_splits)

lemma unstarted:
  assumes "sim n sidx c a" and "abs_inv n a" and "started c u = None"
  shows "proposals a u = None" and "returned c u = None"
proof -
  from assms(1,3) have u: "ops a u = None" "fin a = dom (returned c)" by (simp_all add: sim_def)
  with assms(2) show n: "proposals a u = None" unfolding nnar_inv_def ops_inv_def by blast
  with assms(2) have "u \<notin> fin a" unfolding nnar_inv_def fin_inv_def by force
  with u show "returned c u = None" by blast
qed

lemma sim_invoke:
  assumes sim: "sim n sidx c a" and inv: "abs_inv n a" and p: "p \<in> set (ranks n)" and idle: "idle (registers c p)"
    and u: "started c u = None" and cmd: "client_command u cmd u (registers c p) = (s', es)"
  shows "\<exists>a'. reg_step n a a' \<and>
    sim n sidx (after n p s' es (c\<lparr>started := (started c)(u \<mapsto>
      \<lparr>op_owner = p, op_floor = dom (returned c), op_content = c_content cmd\<rparr>)\<rparr>)) a'"
    (is "\<exists>a'. _ \<and> sim n sidx ?c' a'")
proof (intro exI conjI)
  let ?a' = "a\<lparr>ops := (ops a)(u \<mapsto> \<lparr>op_owner = p, op_floor = fin a, op_content = c_content cmd\<rparr>)\<rparr>"
  note r = simD[OF sim p]
  from u r(8) show step: "reg_step n a ?a'" by (intro nnar_step.start p) simp
  have wp: "\<not> write_phase (registers c p)" by (rule idle_write_phase[OF r(1) idle])
  have es: "es = [Broadcast (msg (registers c p) u (c_sector_idx (c_header cmd)) ReadProc)]"
    using cmd by (simp add: client_command_eq)
  show "sim n sidx ?c' ?a'"
  proof (rule sim_update[OF sim step_extends[OF step], where p = p])
    show "node_rel n sidx p (registers ?c' p) (disks ?c' p) (cur ?a' p)"
      using client_command_inv[OF r(1) idle cmd] r(2-6) cmd
      by (cases "c_content cmd") (auto simp: node_rel_def after_def es client_command_eq)
    show "op_rel ?c' ?a' p"
      using cmd wp idle unstarted[OF sim inv u]
      by (cases "c_content cmd") (auto simp: op_rel_def active_rel_def after_def es client_command_eq)
  qed (use r(2,8,9) p u in \<open>auto simp: after_def es message_rel_def\<close>)
qed

text \<open>\<open>ReadProc\<close> and \<open>WriteProc\<close> are answered with what is stored.\<close>

lemma active_rel_versions: "active_rel a (r\<lparr>ar_ts := t, ar_wr := w, ar_val := v\<rparr>) u k = active_rel a r u k"
  by (simp add: active_rel_def)

lemma op_rel_frame:
  assumes "op_rel c a p" and "extends a a'" and "proposals a' = proposals a"
    and "registers c' p = (registers c p)\<lparr>ar_ts := t, ar_wr := w, ar_val := v\<rparr>"
    and "started c' = started c" and "returned c' = returned c"
  shows "op_rel c' a' p"
proof -
  have "active_rel a' (registers c' p) u k" if "active_rel a (registers c p) u k" for u k
    using active_rel_extends[OF that assms(2)] assms(3,4) by (simp add: active_rel_versions)
  with assms show ?thesis by (simp add: op_rel_def) blast
qed

lemma sim_read_proc:
  assumes sim: "sim n sidx c a" and p: "p \<in> set (ranks n)" and m: "message_rel n a p m" "s_content m = ReadProc"
    and h: "system_command iter True m (registers c p) = Ok (s', es)"
  shows "\<exists>a'. reg_step n a a' \<and> sim n sidx (after n p s' es c) a'" (is "\<exists>a'. _ \<and> sim n sidx ?c' a'")
proof (intro exI conjI)
  let ?u = "msg_ident (s_header m)" and ?r = "registers c p"
  let ?a' = "a\<lparr>vals := (vals a)(?u := (vals a ?u)(p := insert (cur a p) (vals a ?u p)))\<rparr>"
  note r = simD[OF sim p]
  from m show step: "reg_step n a ?a'" by (intro nnar_step.reply p) (simp add: message_rel_def)
  have es: "s' = ?r" "es = [Send (process_identifier (s_header m))
      (msg ?r ?u (s_sector_idx (s_header m)) (Value (ar_ts ?r) (ar_wr ?r) (ar_val ?r)))]"
    using h m(2) by (auto simp: handle_read_proc_eq)
  show "sim n sidx ?c' ?a'"
  proof (rule sim_update[OF sim step_extends[OF step], where p = p])
    show "node_rel n sidx p (registers ?c' p) (disks ?c' p) (cur ?a' p)"
      using r(1-6) by (simp add: node_rel_def after_def es)
    show "op_rel ?c' ?a' p"
      by (rule op_rel_frame[OF r(7) step_extends[OF step], where t = "ar_ts ?r" and w = "ar_wr ?r" and v = "ar_val ?r"])
        (simp_all add: after_def es)
  qed (use r(2,6,8,9) p m(1) in \<open>auto simp: after_def es message_rel_def\<close>)
qed

lemma sim_write_proc:
  assumes sim: "sim n sidx c a" and p: "p \<in> set (ranks n)" and m: "message_rel n a p m" "s_content m = WriteProc t w d"
    and h: "system_command iter True m (registers c p) = Ok (s', es)"
  shows "\<exists>a'. reg_step n a a' \<and> sim n sidx (after n p s' es c) a'" (is "\<exists>a'. _ \<and> sim n sidx ?c' a'")
proof (intro exI conjI)
  let ?u = "msg_ident (s_header m)" and ?r = "registers c p" and ?e = "Proposal (t, w) d"
  let ?a' = "a\<lparr>cur := (cur a)(p := if ver ?e > ver (cur a p) then ?e else cur a p),
               acks := (acks a)(?u := insert p (acks a ?u))\<rparr>"
  note r = simD[OF sim p]
  from m show step: "reg_step n a ?a'" by (intro nnar_step.acknowledge p) (simp add: message_rel_def)
  from h m(2) have "handle_write_proc (s_header m) t w d ?r = Ok (s', es)" by simp
  then obtain es' where es: "es = es' @ [Send (process_identifier (s_header m)) (msg ?r ?u (s_sector_idx (s_header m)) Ack)]"
      "s' = (if (t, w) > (ar_ts ?r, ar_wr ?r) then ?r\<lparr>ar_ts := t, ar_wr := w, ar_val := d\<rparr> else ?r)"
      "es' = (if (t, w) > (ar_ts ?r, ar_wr ?r) then [Store sidx (d, t, w)] else [])"
    using r(4) by (cases rule: handle_write_proc_cases) (auto simp del: less_prod_simp less_eq_prod_simp)
  show "sim n sidx ?c' ?a'"
  proof (rule sim_update[OF sim step_extends[OF step], where p = p])
    show "node_rel n sidx p (registers ?c' p) (disks ?c' p) (cur ?a' p)"
      using r(1-6) system_command_inv[OF r(1) h]
      by (cases "(t, w) > (ar_ts ?r, ar_wr ?r)") (simp_all add: node_rel_def after_def es del: less_prod_simp)
    show "op_rel ?c' ?a' p"
      by (rule op_rel_frame[OF r(7) step_extends[OF step], where t = "ar_ts s'" and w = "ar_wr s'" and v = "ar_val s'"])
        (simp_all add: after_def es del: less_prod_simp)
  qed (use r(2,6,8,9) p m(1) in \<open>auto simp: after_def es message_rel_def simp del: less_prod_simp split: if_splits\<close>)
qed

text \<open>The entry a process takes when a value completes its majority is one the abstract register may choose.\<close>

lemma entry_proposal_simps [simp]:
  "ver (entry_proposal e) = entry_version e" "sector (entry_proposal e) = snd (snd e)"
  "entry_proposal (t, w, d) = Proposal (t, w) d" "entry_version (t, w, d) = (t, w)"
  by (simp_all add: entry_proposal_def entry_version_def)

lemma op_relD:
  assumes "op_rel c a p" and "op_id (registers c p) = Some u" and "\<not> idle (registers c p)"
  obtains k where "started c u = Some k" "op_owner k = p" "returned c u = None" "active_rel a (registers c p) u k"
  using assms unfolding op_rel_def by blast

lemma collected_vals:
  assumes sim: "sim n sidx c a" and p: "p \<in> set (ranks n)"
    and m: "message_rel n a p m" "s_content m = Value t w d"
    and r: "op_id (registers c p) = Some (msg_ident (s_header m))" "\<not> write_phase (registers c p)" "\<not> idle (registers c p)"
    and x: "map_of (collected (s_header m) (t, w, d) (registers c p)) x = Some e"
  shows "entry_proposal e \<in> vals a (msg_ident (s_header m)) x"
proof (cases "x = process_identifier (s_header m)")
  case True
  with x m show ?thesis by (auto simp: update_conv' message_rel_def)
next
  case False
  obtain k where "active_rel a (registers c p) (msg_ident (s_header m)) k"
    by (rule op_relD[OF simD(7)[OF sim p] r(1,3)])
  with r(2) False x show ?thesis by (cases e) (auto simp: active_rel_def update_conv')
qed

lemma sim_choosable:
  assumes sim: "sim n sidx c a" and inv: "abs_inv n a" and p: "p \<in> set (ranks n)"
    and m: "message_rel n a p m" "s_content m = Value t w d"
    and r: "op_id (registers c p) = Some (msg_ident (s_header m))" "\<not> write_phase (registers c p)" "\<not> idle (registers c p)"
    and maj: "majority (registers c p) (length (collected (s_header m) (t, w, d) (registers c p)))"
    and h: "highest iter (gathered (s_header m) (t, w, d) (registers c p)) = Some e"
    and new: "newest_choice iter m (registers c p)" and iter: "iterates iter"
  shows "choosable (majority_of n) a (msg_ident (s_header m)) p (entry_proposal e)"
proof -
  let ?r = "registers c p" and ?u = "msg_ident (s_header m)"
  let ?l = "collected (s_header m) (t, w, d) ?r" and ?g = "gathered (s_header m) (t, w, d) ?r"
  define E where "E x = map_option entry_proposal (map_of ?l x)" for x
  note st = simD[OF sim p]
  note in_vals = collected_vals[OF sim p m r]
  have max: "entry_version e' \<le> entry_version e" if "map_of ?g x = Some e'" for x e'
    by (rule newest_choiceD[OF new m(2) r maj h]) (use map_of_SomeD[OF that] in force)
  have g: "map_of ?g = (map_of ?l)(p \<mapsto> (ar_ts ?r, ar_wr ?r, ar_val ?r))"
    unfolding gathered_def update_conv' by (simp add: st(2))
  have own: "ver (cur a p) \<le> entry_version e" using max[of p] st(6) by (simp add: g)
  have "x \<in> set (ranks n)" if "map_of ?l x = Some e'" for x e'
    using in_vals[OF that] inv unfolding nnar_inv_def ops_inv_def by blast
  then have "dom (map_of ?l) \<subseteq> set (ranks n)" by auto
  moreover have "card (dom (map_of ?l)) = length ?l"
    using distinct_card[OF reg_inv_update[OF st(1)]] by (simp add: dom_map_of_conv_image_fst)
  ultimately have quorum: "majority_of n (dom E)"
    using maj st(3) by (simp add: majority_of_def dom_def E_def)
  have "e \<in> snd ` set ?g"
  proof (rule highest_max[OF iter gathered_nonempty[of "s_header m" "(t, w, d)" ?r]])
    fix q e' assume "highest iter ?g = Some e'" "(q, e') \<in> set ?g"
    with h show ?thesis by (intro image_eqI[of e snd "(q, e')"]) simp_all
  qed
  moreover have "snd ` set ?g \<subseteq> insert (ar_ts ?r, ar_wr ?r, ar_val ?r) (snd ` set ?l)"
    unfolding gathered_def by (rule update_values)
  ultimately consider "e = (ar_ts ?r, ar_wr ?r, ar_val ?r)" | x where "(x, e) \<in> set ?l" by force
  then have "entry_proposal e = cur a p \<or> (\<exists>x. map_of ?l x = Some e)"
  proof cases
    case 2
    from map_of_is_SomeI[OF reg_inv_update[OF st(1)] this] show ?thesis by blast
  qed (simp add: st(6))
  then have chosen: "entry_proposal e \<in> insert (cur a p) (ran E)"
    unfolding ran_def E_def by (cases e) auto
  have "ver v \<le> entry_version e" if "E x = Some v" for x v
  proof (cases "x = p")
    case True
    with that obtain e' where "map_of ?l p = Some e'" "v = entry_proposal e'" unfolding E_def by auto
    with in_vals inv have "ver v \<le> ver (cur a p)" unfolding nnar_inv_def ops_inv_def by blast
    with own show ?thesis by (rule order_trans[rotated])
  next
    case False
    with that max[of x] show ?thesis unfolding E_def by (auto simp: g)
  qed
  with own chosen have "lex_highest (entry_proposal e) (insert (cur a p) (ran E))"
    by (auto simp: lex_highest_def ran_def)
  moreover have "v \<in> vals a ?u x" if "E x = Some v" for x v
    using that in_vals unfolding E_def by blast
  ultimately show ?thesis using quorum unfolding choosable_def by blast
qed

lemma sim_value_quorum:
  assumes sim: "sim n sidx c a" and inv: "abs_inv n a" and p: "p \<in> set (ranks n)" and m: "s_content m = Value t w d"
    and r: "op_id (registers c p) = Some (msg_ident (s_header m))" "\<not> write_phase (registers c p)" "\<not> idle (registers c p)"
    and ch: "choosable (majority_of n) a (msg_ident (s_header m)) p e"
    and h: "system_command iter True m (registers c p) = Ok (s', es)"
    and s': "s' = (registers c p)\<lparr>readval := rv, readlist := [], acklist := {}, write_phase := True,
                     ar_ts := fst v, ar_wr := snd v, ar_val := d'\<rparr>"
    and es: "es = sts @ [Broadcast (msg (registers c p) (msg_ident (s_header m)) i (WriteProc (fst (ver e')) (snd (ver e')) (sector e')))]"
    and read: "reading (registers c p) \<Longrightarrow>
        e' = e \<and> rv = sector e \<and> (v, d') = (ver (cur a p), sector (cur a p)) \<and> sts = []"
    and wrt: "\<not> reading (registers c p) \<Longrightarrow>
        e' = Proposal (fst (ver e) + 1, p) (writeval (registers c p)) \<and> fst (ver e) \<noteq> - 1 \<and>
        (v, d') = (ver e', sector e') \<and> sts = [Store sidx (d', v)]"
  shows "\<exists>a'. reg_step n a a' \<and> sim n sidx (after n p s' es c) a'" (is "\<exists>a'. _ \<and> sim n sidx ?c' a'")
proof -
  let ?r = "registers c p" and ?u = "msg_ident (s_header m)"
  note st = simD[OF sim p]
  obtain k where k: "started c ?u = Some k" "op_owner k = p" "returned c ?u = None" "active_rel a ?r ?u k"
    by (rule op_relD[OF st(7) r(1,3)])
  from k(4) r(2) have none: "proposals a ?u = None" by (simp add: active_rel_def)
  define a' where "a' = a\<lparr>proposals := (proposals a)(?u \<mapsto> e'), cur := (cur a)(p := Proposal v d')\<rparr>"
  have step: "reg_step n a a'"
  proof (cases "reading ?r")
    case True
    with k(4) read have a': "a' = a\<lparr>proposals := (proposals a)(?u \<mapsto> e)\<rparr>" by (simp add: a'_def)
    from True k(4) have "op_content k = Read" by (simp add: active_rel_def)
    with k(1,2) none ch st(8) show ?thesis unfolding a' by (intro nnar_step.choose_read[where k = k]) simp_all
  next
    case False
    with r(3) k(4) have "op_content k = Write (writeval ?r)" by (simp add: active_rel_def)
    with k(1,2) none ch st(8) wrt[OF False] show ?thesis
      unfolding a'_def using nnar_step.choose_write[of a ?u k "writeval ?r" "majority_of n" e e' "set (ranks n)"] by simp
  qed
  have "sim n sidx ?c' a'"
  proof (rule sim_update[OF sim step_extends[OF step], where p = p])
    show "node_rel n sidx p (registers ?c' p) (disks ?c' p) (cur a' p)"
      using st(1-6) system_command_inv[OF st(1) h] read wrt
      by (cases "reading ?r") (auto simp: node_rel_def after_def es s' a'_def)
    show "op_rel ?c' a' p"
      using r k read wrt by (cases "reading ?r") (auto simp: op_rel_def active_rel_def after_def es s' a'_def)
    show "ops a' = started ?c'" "fin a' = dom (returned ?c')"
      using st(8,9) read wrt by (cases "reading ?r"; simp add: a'_def after_def es)+
    show "(q, m') \<in> pool ?c' \<Longrightarrow> (q, m') \<in> pool c \<or> message_rel n a' q m'" for q m'
      using st(2) p read wrt by (cases "reading ?r") (auto simp: a'_def after_def es message_rel_def)
  qed (use k read wrt in \<open>cases "reading ?r"; auto simp: a'_def after_def es\<close>)+
  with step show ?thesis by blast
qed

lemma after_nothing: "after n p (registers c p) [] c = c"
  by (simp add: after_def)

lemma sim_value:
  assumes sim: "sim n sidx c a" and inv: "abs_inv n a" and p: "p \<in> set (ranks n)"
    and m: "message_rel n a p m" "s_content m = Value t w d"
    and h: "system_command iter True m (registers c p) = Ok (s', es)"
    and new: "newest_choice iter m (registers c p)" and iter: "iterates iter"
  shows "\<exists>a'. (reg_step n)\<^sup>=\<^sup>= a a' \<and> sim n sidx (after n p s' es c) a'" (is "\<exists>a'. _ \<and> sim n sidx ?c' a'")
proof -
  let ?r = "registers c p" and ?u = "msg_ident (s_header m)"
  note st = simD[OF sim p]
  from h m(2) have "handle_value iter True (s_header m) t w d ?r = Ok (s', es)" by simp
  then show ?thesis
  proof (cases rule: handle_value_cases)
    case ignored
    with sim show ?thesis by (auto simp: after_nothing)
  next
    case waiting
    have "sim n sidx ?c' a"
    proof (rule sim_update[OF sim extends_refl, where p = p])
      show "node_rel n sidx p (registers ?c' p) (disks ?c' p) (cur a p)"
        using st(1-6) system_command_inv[OF st(1) h] by (simp add: node_rel_def after_def waiting)
      show "op_rel ?c' a p"
      proof (cases "idle ?r")
        case False
        obtain k where k: "started c ?u = Some k" "op_owner k = p" "returned c ?u = None" "active_rel a ?r ?u k"
          by (rule op_relD[OF st(7) waiting(1) False])
        have "active_rel a (?r\<lparr>readlist := collected (s_header m) (t, w, d) ?r\<rparr>) ?u k"
          using k(4) waiting(2) collected_vals[OF sim p m waiting(1,2) False] unfolding active_rel_def by simp
        with k waiting(1) show ?thesis by (simp add: op_rel_def after_def waiting(4,5))
      qed (simp add: op_rel_def after_def waiting(4,5))
    qed (use st(8,9) in \<open>auto simp: after_def waiting(4,5)\<close>)
    then show ?thesis by blast
  next
    case (read_quorum maxts rr rv)
    from read_quorum have busy: "\<not> idle ?r" by simp
    note ch = sim_choosable[OF sim inv p m read_quorum(1,2) busy read_quorum(3,5) new iter]
    have "\<exists>a'. reg_step n a a' \<and> sim n sidx ?c' a'"
      by (rule sim_value_quorum[OF sim inv p m(2) read_quorum(1,2) busy ch h,
            where v = "(ar_ts ?r, ar_wr ?r)" and d' = "ar_val ?r" and sts = "[]" and e' = "Proposal (maxts, rr) rv"])
        (use read_quorum st(6) in auto)
    then show ?thesis by blast
  next
    case (write_quorum maxts rr rv t')
    from write_quorum have busy: "\<not> idle ?r" by simp
    note ch = sim_choosable[OF sim inv p m write_quorum(1,2) busy write_quorum(3,6) new iter]
    from write_quorum(7) have t': "t' = maxts + 1" "maxts \<noteq> - 1" by (simp_all add: checked_add_one split: if_splits)
    have "\<exists>a'. reg_step n a a' \<and> sim n sidx ?c' a'"
      by (rule sim_value_quorum[OF sim inv p m(2) write_quorum(1,2) busy ch h,
            where v = "(t', p)" and d' = "writeval ?r" and sts = "[Store sidx (writeval ?r, t', p)]" and
              e' = "Proposal (t', p) (writeval ?r)"])
        (use write_quorum st(2,4) t' in auto)
    then show ?thesis by blast
  qed
qed

lemma sim_ack:
  assumes sim: "sim n sidx c a" and inv: "abs_inv n a" and p: "p \<in> set (ranks n)"
    and m: "message_rel n a p m" "s_content m = Ack"
    and h: "system_command iter True m (registers c p) = Ok (s', es)"
  shows "\<exists>a'. (reg_step n)\<^sup>=\<^sup>= a a' \<and> sim n sidx (after n p s' es c) a'" (is "\<exists>a'. _ \<and> sim n sidx ?c' a'")
proof -
  let ?r = "registers c p" and ?u = "msg_ident (s_header m)" and ?q = "process_identifier (s_header m)"
  note st = simD[OF sim p]
  from m have q: "?q \<in> acks a ?u" by (simp add: message_rel_def)
  from h m(2) have "handle_ack (s_header m) ?r = Ok (s', es)" by simp
  then show ?thesis
  proof (cases rule: handle_ack_cases)
    case ignored
    with sim show ?thesis by (auto simp: after_nothing)
  next
    case waiting
    have busy: "\<not> idle ?r" using idle_write_phase[OF st(1)] waiting(2) by blast
    obtain k where k: "started c ?u = Some k" "op_owner k = p" "returned c ?u = None" "active_rel a ?r ?u k"
      by (rule op_relD[OF st(7) waiting(1) busy])
    have "sim n sidx ?c' a"
    proof (rule sim_update[OF sim extends_refl, where p = p])
      show "node_rel n sidx p (registers ?c' p) (disks ?c' p) (cur a p)"
        using st(1-6) system_command_inv[OF st(1) h] by (simp add: node_rel_def after_def waiting)
      have "active_rel a (?r\<lparr>acklist := insert ?q (acklist ?r)\<rparr>) ?u k"
        using k(4) waiting(2) q unfolding active_rel_def by auto
      with k waiting(1) show "op_rel ?c' a p" by (simp add: op_rel_def after_def waiting(4,5))
    qed (use st(8,9) in \<open>auto simp: after_def waiting(4,5)\<close>)
    then show ?thesis by blast
  next
    case quorum
    obtain k where k: "started c ?u = Some k" "op_owner k = p" "returned c ?u = None" "active_rel a ?r ?u k"
      by (rule op_relD[OF st(7) quorum(1)]) (use quorum(4) in blast)
    from k(4) quorum(2) obtain e where e: "proposals a ?u = Some e" "reading ?r \<longrightarrow> readval ?r = sector e"
        "acklist ?r \<subseteq> acks a ?u" "callback ?r = Some ?u"
      unfolding active_rel_def by auto
    let ?a' = "a\<lparr>fin := insert ?u (fin a)\<rparr>"
    have acks: "acks a ?u \<subseteq> set (ranks n)" using inv unfolding nnar_inv_def ops_inv_def by blast
    have maj: "majority_of n (insert ?q (acklist ?r))"
      using quorum(3) q e(3) acks st(3) unfolding majority_of_def by auto
    have "majority_of n (acks a ?u)"
      by (rule majorities.quorum_mono[OF maj _ acks]) (use q e(3) in blast)
    with e(1) have step: "reg_step n a ?a'" by (intro nnar_step.finish)
    have es: "es = [Callback ?u \<lparr>op_request_identifier = the (rid ?r), op_return = finished ?r\<rparr>]" "s' = completed ?r"
      using quorum e(4) by simp_all
    have "sim n sidx ?c' ?a'"
    proof (rule sim_update[OF sim step_extends[OF step], where p = p])
      show "node_rel n sidx p (registers ?c' p) (disks ?c' p) (cur ?a' p)"
        using st(1-6) system_command_inv[OF st(1) h] by (auto simp: node_rel_def after_def es completed_def)
      have "idle (completed ?r)" using st(1) by (auto simp: reg_inv_def completed_def)
      then show "op_rel ?c' ?a' p" by (simp add: op_rel_def after_def es)
      show "returned ?c' v = Some ret \<Longrightarrow> returned c v = Some ret \<or> result_rel ?c' ?a' v ret" for v ret
        using k(1,4) e(1,2) quorum(4)
        by (auto simp: result_rel_def return_of_def active_rel_def after_def es finished_def split: if_splits)
    qed (use st(8,9) k in \<open>auto simp: after_def es\<close>)
    with step show ?thesis by blast
  qed
qed

lemma sim_deliver:
  assumes sim: "sim n sidx c a" and inv: "abs_inv n a" and m: "(p, m) \<in> pool c"
    and h: "system_command iter True m (registers c p) = Ok (s', es)"
    and new: "newest_choice iter m (registers c p)" and iter: "iterates iter"
  shows "\<exists>a'. (reg_step n)\<^sup>=\<^sup>= a a' \<and> sim n sidx (after n p s' es c) a'"
proof -
  from sim m have rel: "message_rel n a p m" by (simp add: sim_def)
  then have p: "p \<in> set (ranks n)" by (simp add: message_rel_def)
  show ?thesis
  proof (cases "s_content m")
    case ReadProc
    from sim_read_proc[OF sim p rel this h] show ?thesis by blast
  next
    case (Value t w d)
    from sim_value[OF sim inv p rel this h new iter] show ?thesis .
  next
    case (WriteProc t w d)
    from sim_write_proc[OF sim p rel this h] show ?thesis by blast
  next
    case Ack
    from sim_ack[OF sim inv p rel this h] show ?thesis .
  qed
qed

text \<open>A crash loses the pending operation of a process and possibly messages; the abstract register does not move.\<close>

lemma sim_reboot:
  assumes sim: "sim n sidx c a" and p: "p \<in> set (ranks n)" and sub: "pool' \<subseteq> pool c"
  shows "sim n sidx (reboot n sidx p (c\<lparr>pool := pool'\<rparr>)) a" (is "sim n sidx ?c' a")
proof (rule sim_update[OF sim extends_refl, where p = p])
  note st = simD[OF sim p]
  show "node_rel n sidx p (registers ?c' p) (disks ?c' p) (cur a p)"
    using ar_new_inv st(5,6) by (simp add: node_rel_def reboot_def boot_def) (simp add: ar_new_def)
  show "op_rel ?c' a p"
    by (simp add: op_rel_def reboot_def boot_def ar_new_def split: prod.split)
qed (use simD(8,9)[OF sim p] sub in \<open>auto simp: reboot_def\<close>)

text \<open>
  A handler that stops after some of its effects has either done nothing that can be noticed, or
  has only failed to send messages: stores come first, and answers are alone.
\<close>

fun is_message :: "'cb ar_effect \<Rightarrow> bool" where
  "is_message (Send _ _) = True"
| "is_message (Broadcast _) = True"
| "is_message _ = False"

lemma system_command_tail:
  assumes "system_command iter chk m r = Ok (s', es)"
  shows "\<forall>e \<in> set (tl es). is_message e"
proof (cases "s_content m")
  case ReadProc
  with assms show ?thesis by (auto simp: handle_read_proc_eq)
next
  case (Value t w d)
  with assms have "handle_value iter chk (s_header m) t w d r = Ok (s', es)" by simp
  then show ?thesis by (cases rule: handle_value_cases) auto
next
  case (WriteProc t w d)
  with assms have "handle_write_proc (s_header m) t w d r = Ok (s', es)" by simp
  then show ?thesis by (cases rule: handle_write_proc_cases) auto
next
  case Ack
  with assms have "handle_ack (s_header m) r = Ok (s', es)" by simp
  then show ?thesis by (cases rule: handle_ack_cases) (auto split: option.splits)
qed

lemma interrupted_effects:
  assumes "system_command iter chk m r = Ok (s', performed @ left)" and "performed \<noteq> []"
  shows "\<forall>e \<in> set left. is_message e"
  using system_command_tail[OF assms(1)] assms(2) by (cases performed) auto

lemma emit_registers:
  "foldl (emit n p) (c\<lparr>registers := f\<rparr>) es = (foldl (emit n p) c es)\<lparr>registers := f\<rparr>"
proof (induction es arbitrary: c)
  case (Cons e es)
  have "emit n p (c\<lparr>registers := f\<rparr>) e = (emit n p c e)\<lparr>registers := f\<rparr>" by (cases e) simp_all
  with Cons[of "emit n p c e"] show ?case by simp
qed simp

lemma emit_frame: "registers (foldl (emit n p) c es) = registers c"
  using arg_cong[OF emit_registers[where c = c and f = "registers c"], of registers] by simp

lemma emit_messages:
  "\<forall>e \<in> set es. is_message e \<Longrightarrow> \<exists>pool'. foldl (emit n p) c es = c\<lparr>pool := pool'\<rparr> \<and> pool c \<subseteq> pool'"
proof (induction es arbitrary: c)
  case Nil
  show ?case by (intro exI[of _ "pool c"]) simp
next
  case (Cons e es)
  from Cons.prems obtain pool1 where e: "emit n p c e = c\<lparr>pool := pool1\<rparr>" "pool c \<subseteq> pool1" by (cases e) auto
  from Cons.IH[of "emit n p c e"] Cons.prems obtain pool2 where
    "foldl (emit n p) (emit n p c e) es = (emit n p c e)\<lparr>pool := pool2\<rparr>" "pool (emit n p c e) \<subseteq> pool2" by auto
  with e show ?case by (intro exI[of _ pool2]) auto
qed

lemma sim_crash_in_handler:
  assumes sim: "sim n sidx c a" and inv: "abs_inv n a" and m: "(p, m) \<in> pool c"
    and h: "system_command iter True m (registers c p) = Ok (s', performed @ left)"
    and new: "newest_choice iter m (registers c p)" and iter: "iterates iter"
  shows "\<exists>a'. (reg_step n)\<^sup>=\<^sup>= a a' \<and> sim n sidx (reboot n sidx p (after n p (registers c p) performed c)) a'"
proof -
  from sim m have p: "p \<in> set (ranks n)" by (simp add: sim_def message_rel_def)
  show ?thesis
  proof (cases "performed = []")
    case True
    with sim_reboot[OF sim p subset_refl] show ?thesis by (auto simp: after_nothing)
  next
    case False
    let ?c0 = "foldl (emit n p) (c\<lparr>registers := (registers c)(p := s')\<rparr>) performed"
    from interrupted_effects[OF h False] obtain pool' where pool': "foldl (emit n p) ?c0 left = ?c0\<lparr>pool := pool'\<rparr>" "pool ?c0 \<subseteq> pool'"
      using emit_messages by blast
    from sim_deliver[OF sim inv m h new iter] obtain a' where a': "(reg_step n)\<^sup>=\<^sup>= a a'" "sim n sidx (?c0\<lparr>pool := pool'\<rparr>) a'"
      by (auto simp: after_def pool')
    have "sim n sidx (reboot n sidx p ((?c0\<lparr>pool := pool'\<rparr>)\<lparr>pool := pool ?c0\<rparr>)) a'"
      by (rule sim_reboot[OF a'(2) p]) (simp add: pool')
    moreover have "reboot n sidx p ((?c0\<lparr>pool := pool'\<rparr>)\<lparr>pool := pool ?c0\<rparr>) =
        reboot n sidx p (after n p (registers c p) performed c)"
      by (simp add: reboot_def after_def emit_registers emit_frame)
    ultimately show ?thesis using a'(1) by auto
  qed
qed

lemma sim_init: "sim n sidx (cluster_init n sidx) nnar_init"
  by (simp add: sim_def cluster_init_def nnar_init_def initial_value_def boot_def node_rel_def op_rel_def ar_new_inv)
    (simp add: ar_new_def)

lemma sim_step:
  assumes "sim n sidx c a" and "abs_inv n a" and "iterates iter"
    and "cluster_step iter n sidx (newest_choice iter) c c'"
  shows "\<exists>a'. (reg_step n)\<^sup>=\<^sup>= a a' \<and> sim n sidx c' a'"
  using assms(4)
proof cases
  case (invoke p u cmd s' es)
  from sim_invoke[OF assms(1,2) invoke(2-5)] invoke(1) show ?thesis by blast
next
  case (deliver p m s' es)
  from sim_deliver[OF assms(1,2) deliver(2,4,3) assms(3)] deliver(1) show ?thesis by simp
next
  case (crash p)
  from sim_reboot[OF assms(1) crash(2) subset_refl] crash(1) show ?thesis by auto
next
  case (crash_in_handler p m s' performed left)
  from sim_crash_in_handler[OF assms(1,2) crash_in_handler(2,4,3) assms(3)] crash_in_handler(1) show ?thesis by simp
qed

lemma cluster_refines:
  assumes "iterates iter" and "(cluster_step iter n sidx (newest_choice iter))\<^sup>*\<^sup>* (cluster_init n sidx) c"
  shows "\<exists>a. (reg_step n)\<^sup>*\<^sup>* nnar_init a \<and> sim n sidx c a"
  using assms(2)
proof (induction rule: rtranclp_induct)
  case base
  from sim_init show ?case by blast
next
  case (step c c')
  then obtain a where a: "(reg_step n)\<^sup>*\<^sup>* nnar_init a" "sim n sidx c a" by blast
  obtain a' where "(reg_step n)\<^sup>=\<^sup>= a a'" "sim n sidx c' a'"
    using sim_step[OF a(2) majorities.nnar_reachable_inv[OF a(1)] assms(1) step.hyps(2)] by blast
  with a(1) show ?case by (auto intro: rtranclp.rtrancl_into_rtrancl)
qed

end
