(* ===== verification/Cluster_Runs.thy ===== *)
theory Cluster_Runs
  imports Cluster
begin

text \<open>
  Executions of a cluster as lists of actions, and what all executions have in common. Whatever
  entry the processes choose, nothing is read that was not written; if they always choose the
  newest one the cluster is an atomic register; and with the choice the code makes there is an
  execution of three processes in which a read misses a write that returned before it started.
\<close>

section \<open>Executing actions\<close>

datatype action =
    Invoke u8 Uuid ClientRegisterCommand
  | Deliver u8 SystemRegisterCommand
  | Crash u8

definition act ::
    "(readlist_map \<Rightarrow> readlist_map) \<Rightarrow> u8 \<Rightarrow> SectorIdx \<Rightarrow> (SystemRegisterCommand \<Rightarrow> register \<Rightarrow> bool) \<Rightarrow>
     action \<Rightarrow> cluster \<Rightarrow> cluster option" where
  "act iter n sidx permitted x c =
     (case x of
        Invoke p u cmd \<Rightarrow>
          if p \<in> set (ranks n) \<and> idle (registers c p) \<and> started c u = None then
            case client_command u cmd u (registers c p) of (s', es) \<Rightarrow>
              Some (after n p s' es (c\<lparr>started := (started c)(u \<mapsto>
                \<lparr>op_owner = p, op_floor = dom (returned c), op_content = c_content cmd\<rparr>)\<rparr>))
          else None
      | Deliver p m \<Rightarrow>
          if (p, m) \<in> pool c \<and> permitted m (registers c p) then
            case system_command iter True m (registers c p) of Ok (s', es) \<Rightarrow> Some (after n p s' es c) | _ \<Rightarrow> None
          else None
      | Crash p \<Rightarrow> if p \<in> set (ranks n) then Some (reboot n sidx p c) else None)"

fun cluster_exec ::
    "(readlist_map \<Rightarrow> readlist_map) \<Rightarrow> u8 \<Rightarrow> SectorIdx \<Rightarrow> (SystemRegisterCommand \<Rightarrow> register \<Rightarrow> bool) \<Rightarrow>
     action list \<Rightarrow> cluster \<Rightarrow> cluster option" where
  "cluster_exec iter n sidx permitted [] c = Some c"
| "cluster_exec iter n sidx permitted (x # xs) c =
     Option.bind (act iter n sidx permitted x c) (cluster_exec iter n sidx permitted xs)"

lemma act_step: "act iter n sidx permitted x c = Some c' \<Longrightarrow> cluster_step iter n sidx permitted c c'"
  by (auto simp: act_def split: action.splits if_splits prod.splits res.splits intro: cluster_step.intros)

lemma cluster_exec_steps:
  "cluster_exec iter n sidx permitted xs c = Some c' \<Longrightarrow> (cluster_step iter n sidx permitted)\<^sup>*\<^sup>* c c'"
proof (induction xs arbitrary: c)
  case (Cons x xs)
  then show ?case by (auto simp: bind_eq_Some_conv dest!: act_step intro: converse_rtranclp_into_rtranclp)
qed simp

text \<open>
  An operation of process \<open>p\<close> that is served by \<open>p\<close> and \<open>q\<close> alone: they send the values \<open>vp\<close> and \<open>vq\<close>,
  then store and acknowledge \<open>x\<close>.
\<close>

definition of_op :: "u8 \<Rightarrow> Uuid \<Rightarrow> SystemRegisterCommandContent \<Rightarrow> SystemRegisterCommand" where
  "of_op p u content = \<lparr>s_header = \<lparr>process_identifier = p, msg_ident = u, s_sector_idx = 0\<rparr>, s_content = content\<rparr>"

definition request :: "ClientRegisterCommandContent \<Rightarrow> ClientRegisterCommand" where
  "request content = \<lparr>c_header = \<lparr>request_identifier = 7, c_sector_idx = 0\<rparr>, c_content = content\<rparr>"

definition served_by :: "u8 \<Rightarrow> u8 \<Rightarrow> Uuid \<Rightarrow> ClientRegisterCommandContent \<Rightarrow>
    reading_entry \<Rightarrow> reading_entry \<Rightarrow> reading_entry \<Rightarrow> action list" where
  "served_by p q u content vp vq x =
     (let value = (\<lambda>(t, w, d). Value t w d); wproc = (\<lambda>(t, w, d). WriteProc t w d) in
      [Invoke p u (request content), Deliver p (of_op p u ReadProc), Deliver q (of_op p u ReadProc),
       Deliver p (of_op p u (value vp)), Deliver p (of_op q u (value vq)),
       Deliver p (of_op p u (wproc x)), Deliver q (of_op p u (wproc x)),
       Deliver p (of_op p u Ack), Deliver p (of_op q u Ack)])"

abbreviation data_A :: SectorVec where "data_A \<equiv> SectorVec [1]"
abbreviation data_B :: SectorVec where "data_B \<equiv> SectorVec [2]"

definition stale_read :: "action list" where
  "stale_read =
     served_by 3 2 1 (Write data_A) (0, 0, zero_sector) (0, 0, zero_sector) (1, 3, data_A) @
     served_by 1 2 2 (Write data_B) (0, 0, zero_sector) (1, 3, data_A) (2, 1, data_B) @
     served_by 2 3 3 Read (2, 1, data_B) (1, 3, data_A) (1, 3, data_A)"

lemma ranks_3: "ranks 3 = [1, 2, 3]"
  by (simp add: ranks_def upt_rec)

lemmas run_simps = act_def of_op_def request_def served_by_def after_def boot_def exec_simps res_simps gathered_def
  rank_greater_def ranks_3 cluster_init_def word_le_nat_alt word_less_nat_alt

lemma stale_read_exec:
  "\<exists>c. cluster_exec id 3 0 (\<lambda>_ _. True) stale_read (cluster_init 3 0) = Some c \<and>
     started c = [1 \<mapsto> \<lparr>op_owner = 3, op_floor = {}, op_content = Write data_A\<rparr>,
                  2 \<mapsto> \<lparr>op_owner = 1, op_floor = {1}, op_content = Write data_B\<rparr>,
                  3 \<mapsto> \<lparr>op_owner = 2, op_floor = {1, 2}, op_content = Read\<rparr>] \<and>
     returned c = [1 \<mapsto> OpWrite, 2 \<mapsto> OpWrite, 3 \<mapsto> OpRead \<lparr>read_data_ret = data_A\<rparr>]"
  unfolding stale_read_def by (simp add: run_simps) auto

text \<open>The only order that respects real time is the one in which the operations were issued.\<close>

lemma issue_order_only:
  assumes "distinct ord" and "set ord = {1, 2, 3 :: Uuid}"
    and rt: "\<And>i j k. i < length ord \<Longrightarrow> j < length ord \<Longrightarrow> os (ord ! j) = Some k \<Longrightarrow> ord ! i \<in> op_floor k \<Longrightarrow> i < j"
    and os: "map_option op_floor (os 2) = Some {1}" "map_option op_floor (os 3) = Some {1, 2}"
  shows "ord = [1, 2, 3]"
proof -
  have "length ord = card {1, 2, 3 :: Uuid}" using distinct_card[OF assms(1)] assms(2) by simp
  then have "length ord = 3" by simp
  then obtain x y z where ord: "ord = [x, y, z]" by (auto simp: eval_nat_numeral length_Suc_conv)
  from os obtain k2 k3 where k: "os 2 = Some k2" "op_floor k2 = {1}" "os 3 = Some k3" "op_floor k3 = {1, 2}" by auto
  have two: "\<not> j < i" if "i < 3" "j < 3" "ord ! j = 2" "ord ! i = 1" for i j
    using rt[of i j k2] that k ord by force
  have three: "\<not> j < i" if "i < 3" "j < 3" "ord ! j = 3" "ord ! i = 1 \<or> ord ! i = 2" for i j
    using rt[of i j k3] that k ord by force
  have xyz: "x \<in> {1, 2, 3}" "y \<in> {1, 2, 3}" "z \<in> {1, 2, 3}" "x \<noteq> y" "x \<noteq> z" "y \<noteq> z"
    using assms(1,2) unfolding ord by auto
  have "z = 3" using three[of 1 0] three[of 2 0] three[of 2 1] xyz unfolding ord by auto
  moreover have "x = 1 \<and> y = 2" using two[of 1 0] xyz \<open>z = 3\<close> unfolding ord by auto
  ultimately show ?thesis by (simp add: ord)
qed

section \<open>Where sectors come from\<close>

text \<open>All sectors in a cluster are among \<open>K\<close>.\<close>

definition sectors_in :: "SectorVec set \<Rightarrow> cluster \<Rightarrow> bool" where
  "sectors_in K c \<longleftrightarrow>
     (\<forall>p. reg_sectors (registers c p) \<subseteq> K \<and> fst (disks c p) \<in> K) \<and>
     (\<forall>(q, m) \<in> pool c. msg_sectors (s_content m) \<subseteq> K) \<and>
     (\<forall>ret \<in> ran (returned c). return_sectors ret \<subseteq> K)"

definition known :: "cluster \<Rightarrow> SectorVec set" where
  "known c = insert zero_sector {d. \<exists>k \<in> ran (started c). op_content k = Write d}"

lemma sectors_in_mono: "sectors_in K c \<Longrightarrow> K \<subseteq> K' \<Longrightarrow> sectors_in K' c"
  unfolding sectors_in_def by fast

lemma emit_sectors: "sectors_in K c \<Longrightarrow> effect_sectors e \<subseteq> K \<Longrightarrow> sectors_in K (emit n p c e)"
  by (cases e) (auto simp: sectors_in_def ran_def)

lemma after_sectors:
  assumes "sectors_in K c" and "reg_sectors s \<union> \<Union> (effect_sectors ` set es) \<subseteq> K"
  shows "sectors_in K (after n p s es c)"
proof -
  have "sectors_in K (foldl (emit n p) c' es)" if "sectors_in K c'" "\<forall>e \<in> set es. effect_sectors e \<subseteq> K" for c' es
    using that by (induction es arbitrary: c') (simp_all add: emit_sectors)
  moreover from assms have "sectors_in K (c\<lparr>registers := (registers c)(p := s)\<rparr>)" by (simp add: sectors_in_def)
  ultimately show ?thesis using assms(2) unfolding after_def by blast
qed

lemma reboot_sectors:
  assumes "sectors_in K c" and "zero_sector \<in> K"
  shows "sectors_in K (reboot n sidx p c)"
proof -
  obtain v t w where d: "disks c p = (v, t, w)" by (cases "disks c p")
  with assms have "reg_sectors (boot n sidx p (disks c p)) \<subseteq> K"
    by (auto simp: sectors_in_def boot_def ar_new_def reg_sectors_def zero_sector_def dest: spec[of _ p])
  with assms(1) show ?thesis by (simp add: sectors_in_def reboot_def)
qed

lemma emit_started: "started (foldl (emit n p) c es) = started c"
proof (induction es arbitrary: c)
  case (Cons e es)
  have "started (emit n p c e) = started c" by (cases e) simp_all
  with Cons show ?case by simp
qed simp

lemma known_after [simp]: "known (after n p s es c) = known c" "known (reboot n sidx p c) = known c"
  by (simp_all add: known_def after_def emit_started reboot_def)

lemma known_step_sectors:
  assumes "iterates iter" and "cluster_step iter n sidx permitted c c'" and "sectors_in (known c) c"
  shows "sectors_in (known c') c'"
proof -
  have handled: "reg_sectors s' \<union> \<Union> (effect_sectors ` set es) \<subseteq> known c"
    if "(p, m) \<in> pool c" "system_command iter True m (registers c p) = Ok (s', es)" for p m s' es
  proof -
    from assms(3) that(1) have "reg_sectors (registers c p) \<union> msg_sectors (s_content m) \<subseteq> known c"
      unfolding sectors_in_def by fast
    with system_command_sectors[OF assms(1) that(2)] show ?thesis by (rule order_trans)
  qed
  have zero: "zero_sector \<in> known c" by (simp add: known_def)
  from assms(2) show ?thesis
  proof cases
    case (invoke p u cmd s' es)
    let ?c = "c\<lparr>started := (started c)(u \<mapsto>
        \<lparr>op_owner = p, op_floor = dom (returned c), op_content = c_content cmd\<rparr>)\<rparr>"
    have k: "known ?c = known c \<union> request_sectors (c_content cmd)"
      using invoke(4) by (cases "c_content cmd") (auto simp: known_def ran_map_upd)
    have "sectors_in (known c) ?c" using assms(3) by (simp add: sectors_in_def)
    then have "sectors_in (known ?c) ?c" by (rule sectors_in_mono) (simp add: k)
    moreover have "reg_sectors (registers c p) \<subseteq> known c" using assms(3) by (simp add: sectors_in_def)
    ultimately show ?thesis
      unfolding invoke(1) known_after using client_command_sectors[OF invoke(5)]
      by (intro after_sectors) (auto simp: k)
  next
    case (deliver p m s' es)
    from after_sectors[OF assms(3) handled[OF deliver(2,4)]] show ?thesis by (simp add: deliver(1))
  next
    case (crash p)
    from reboot_sectors[OF assms(3) zero] show ?thesis by (simp add: crash(1))
  next
    case (crash_in_handler p m s' performed left)
    have "reg_sectors (registers c p) \<subseteq> known c" using assms(3) by (simp add: sectors_in_def)
    with handled[OF crash_in_handler(2,4)] have "sectors_in (known c) (after n p (registers c p) performed c)"
      by (intro after_sectors[OF assms(3)]) auto
    from reboot_sectors[OF this zero] show ?thesis by (simp add: crash_in_handler(1))
  qed
qed

lemma cluster_sectors:
  assumes "iterates iter" and "(cluster_step iter n sidx permitted)\<^sup>*\<^sup>* (cluster_init n sidx) c"
  shows "sectors_in (known c) c"
  using assms(2)
proof (induction rule: rtranclp_induct)
  case base
  show ?case by (auto simp: sectors_in_def known_def cluster_init_def boot_def ar_new_def reg_sectors_def zero_sector_def)
qed (rule known_step_sectors[OF assms(1)])

section \<open>Properties\<close>

text \<open>An execution of three processes with a write and then a read, both choosing the newest entry.\<close>

definition write_then_read :: "action list" where
  "write_then_read =
     served_by 3 2 1 (Write data_A) (0, 0, zero_sector) (0, 0, zero_sector) (1, 3, data_A) @
     served_by 2 3 2 Read (1, 3, data_A) (1, 3, data_A) (1, 3, data_A)"

lemma write_then_read_exec:
  "\<exists>c. cluster_exec id 3 0 (newest_choice id) write_then_read (cluster_init 3 0) = Some c \<and>
     returned c = [1 \<mapsto> OpWrite, 2 \<mapsto> OpRead \<lparr>read_data_ret = data_A\<rparr>]"
  unfolding write_then_read_def by (simp add: run_simps newest_choice_def entry_version_def)

text \<open>
  C2. The cluster refines the abstract (N,N)-AtomicRegister as long as every majority of values is
  answered by the newest entry: for every execution, with messages lost, repeated and reordered and
  with crashes at any point of a handler, there is an execution of the abstract register in which
  the same operations were started and have finished, every process stores the same version and
  value, and every result is the one of the abstract operation.
\<close>

theorem cluster_refines_register:
  assumes "iterates iter" and "(cluster_step iter n sidx (newest_choice iter))\<^sup>*\<^sup>* (cluster_init n sidx) c"
  shows "\<exists>a. (nnar_step (set (ranks n)) (majority_of n))\<^sup>*\<^sup>* nnar_init a \<and>
    ops a = started c \<and> fin a = dom (returned c) \<and>
    (\<forall>p \<in> set (ranks n). cur a p = Proposal (ar_ts (registers c p), ar_wr (registers c p)) (ar_val (registers c p)) \<and>
                           disks c p = current (registers c p)) \<and>
    (\<forall>u ret. returned c u = Some ret \<longrightarrow>
       (\<exists>e k. proposals a u = Some e \<and> started c u = Some k \<and> ret = return_of (op_content k) e))"
proof -
  from cluster_refines[OF assms] obtain a where "(reg_step n)\<^sup>*\<^sup>* nnar_init a" "sim n sidx c a" by blast
  then show ?thesis unfolding sim_def node_rel_def result_rel_def by (intro exI[of _ a]) simp
qed

theorem cluster_refines_register_witness:
  "\<exists>c a. cluster_exec id 3 0 (newest_choice id) write_then_read (cluster_init 3 0) = Some c \<and>
     (nnar_step (set (ranks 3)) (majority_of 3))\<^sup>*\<^sup>* nnar_init a \<and> fin a = {1, 2}"
proof -
  from write_then_read_exec obtain c where c: "cluster_exec id 3 0 (newest_choice id) write_then_read (cluster_init 3 0) = Some c"
      "returned c = [1 \<mapsto> OpWrite, 2 \<mapsto> OpRead \<lparr>read_data_ret = data_A\<rparr>]" by blast
  from cluster_refines_register[OF iterates_id(1) cluster_exec_steps[OF c(1)]] c show ?thesis by auto
qed

text \<open>
  C1. Under the same condition every execution is linearizable: all returned operations, and
  possibly some that have not returned, can be put into one order in which no operation comes
  before one that had returned when it was invoked, and in which each returned what a single
  sequential register, initially all zeros, returns.
\<close>

theorem cluster_is_linearizable:
  assumes "iterates iter" and "(cluster_step iter n sidx (newest_choice iter))\<^sup>*\<^sup>* (cluster_init n sidx) c"
  shows "\<exists>ord. linearization (started c) (returned c) ord"
proof -
  from cluster_refines[OF assms] obtain a where a: "(reg_step n)\<^sup>*\<^sup>* nnar_init a" "sim n sidx c a" by blast
  note inv = majorities.nnar_reachable_inv[OF a(1)] and ord = majorities.nnar_reachable_order[OF a(1)]
  have os: "ops a = started c" "\<And>u ret. returned c u = Some ret \<Longrightarrow> result_rel c a u ret"
    using a(2) by (simp_all add: sim_def)
  have sub: "dom (proposals a) \<subseteq> dom (started c)" "\<And>u k. started c u = Some k \<Longrightarrow> op_floor k \<subseteq> dom (started c)"
    using inv unfolding os(1)[symmetric] nnar_inv_def ops_inv_def fin_inv_def by blast+
  have fin: "finite (dom (started c))" using ord by (simp add: order_inv_def os(1))
  show ?thesis
  proof (rule atomic_linearization[OF majorities.nnar_atomic[OF inv, unfolded os(1)] finite_subset[OF sub(1) fin] sub(1)])
    fix u k u' k' assume u: "started c u = Some k" "u' \<in> op_floor k" "started c u' = Some k'"
    with ord have "op_floor k' \<subset> op_floor k" unfolding order_inv_def os(1) by blast
    then show "card (op_floor k') < card (op_floor k)" by (intro psubset_card_mono finite_subset[OF sub(2)[OF u(1)] fin])
  next
    fix u ret assume "returned c u = Some ret"
    from os(2)[OF this] show "\<exists>k e. started c u = Some k \<and> proposals a u = Some e \<and> ret = return_of (op_content k) e"
      by (auto simp: result_rel_def)
  qed
qed

theorem cluster_is_linearizable_witness:
  "\<exists>c ord. cluster_exec id 3 0 (newest_choice id) write_then_read (cluster_init 3 0) = Some c \<and>
     linearization (started c) (returned c) ord \<and> {1, 2} \<subseteq> set ord"
proof -
  from write_then_read_exec obtain c where c: "cluster_exec id 3 0 (newest_choice id) write_then_read (cluster_init 3 0) = Some c"
      "returned c = [1 \<mapsto> OpWrite, 2 \<mapsto> OpRead \<lparr>read_data_ret = data_A\<rparr>]" by blast
  from cluster_is_linearizable[OF iterates_id(1) cluster_exec_steps[OF c(1)]] obtain ord where
    l: "linearization (started c) (returned c) ord" by blast
  then have "dom (returned c) \<subseteq> set ord" by (simp add: linearization_def)
  with c l show ?thesis by auto
qed

text \<open>
  C19. Whatever entries the processes choose and whatever happens to messages and processes, a read
  returns either zeros or data that some started write was asked to write.
\<close>

theorem reads_return_written_data:
  assumes "iterates iter" and "(cluster_step iter n sidx permitted)\<^sup>*\<^sup>* (cluster_init n sidx) c"
    and "returned c u = Some (OpRead r)"
  shows "read_data_ret r = zero_sector \<or> (\<exists>w k. started c w = Some k \<and> op_content k = Write (read_data_ret r))"
proof -
  from cluster_sectors[OF assms(1,2)] assms(3) have "return_sectors (OpRead r) \<subseteq> known c"
    unfolding sectors_in_def by (blast intro: ranI)
  then show ?thesis by (auto simp: known_def ran_def)
qed

theorem reads_return_written_data_witness:
  "\<exists>c. cluster_exec id 3 0 (\<lambda>_ _. True) stale_read (cluster_init 3 0) = Some c \<and>
     (\<exists>w k. started c w = Some k \<and> op_content k = Write data_A)"
proof -
  from stale_read_exec obtain c where c: "cluster_exec id 3 0 (\<lambda>_ _. True) stale_read (cluster_init 3 0) = Some c"
      "returned c 3 = Some (OpRead \<lparr>read_data_ret = data_A\<rparr>)" by auto
  from reads_return_written_data[OF iterates_id(1) cluster_exec_steps[OF c(1)] c(2)] c(1) show ?thesis
    by (auto simp: zero_sector_def dest: arg_cong[of _ _ length])
qed

text \<open>
  C5. The condition is needed, and the code does not meet it: three processes that never
  crash, with messages that are merely late, have an execution that is not linearizable. Process 3 writes A with version
  (1, 3), process 1 then writes B with version (2, 1), and a read at process 2 that starts after
  both have returned gets A, since the choice compares the write ranks 1 and 3 only.
\<close>

theorem stale_read_possible:
  "\<exists>c. (cluster_step id 3 0 (\<lambda>_ _. True))\<^sup>*\<^sup>* (cluster_init 3 0) c \<and>
     returned c = [1 \<mapsto> OpWrite, 2 \<mapsto> OpWrite, 3 \<mapsto> OpRead \<lparr>read_data_ret = data_A\<rparr>] \<and>
     (\<nexists>ord. linearization (started c) (returned c) ord)"
proof -
  from stale_read_exec obtain c where c: "cluster_exec id 3 0 (\<lambda>_ _. True) stale_read (cluster_init 3 0) = Some c"
      "started c = [1 \<mapsto> \<lparr>op_owner = 3, op_floor = {}, op_content = Write data_A\<rparr>,
                  2 \<mapsto> \<lparr>op_owner = 1, op_floor = {1}, op_content = Write data_B\<rparr>,
                  3 \<mapsto> \<lparr>op_owner = 2, op_floor = {1, 2}, op_content = Read\<rparr>]"
      "returned c = [1 \<mapsto> OpWrite, 2 \<mapsto> OpWrite, 3 \<mapsto> OpRead \<lparr>read_data_ret = data_A\<rparr>]" by blast
  have False if l: "linearization (started c) (returned c) ord" for ord
  proof -
    from l have d: "distinct ord" "set ord = {1, 2, 3}" by (auto simp: linearization_def c(2,3))
    have "ord = [1, 2, 3]"
    proof (rule issue_order_only[where os = "started c"])
      show "i < j" if "i < length ord" "j < length ord" "started c (ord ! j) = Some k" "ord ! i \<in> op_floor k" for i j k
        using l that unfolding linearization_def by blast
    qed (simp_all add: d c(2))
    with l have "(3, OpRead \<lparr>read_data_ret = data_A\<rparr>) \<in> set (replay (started c) zero_sector [1, 2, 3])"
      by (simp add: linearization_def c(3))
    then show False by (simp add: c(2))
  qed
  with c cluster_exec_steps[OF c(1)] show ?thesis by blast
qed

end
