(* ===== verification/Test_Registers.thy ===== *)
theory Test_Registers
  imports Cluster
begin

text \<open>
  The in-memory registers of \<^verbatim>\<open>src/test-utils/atomic_register.rs\<close>: a vector of registers that share one
  \<open>RamDrive\<close> and one \<open>BufferClient\<close>, a loop that hands out the buffered messages until none is left,
  and client commands sent to one register. A register that was taken out of its slot has crashed.

  The loop always ends. With a majority of registers left a command is answered exactly once with
  the result of a sequential register, and without a majority it is not answered and changes nothing.
\<close>

section \<open>State and operations\<close>

record 'cb test_cluster =
  test_registers :: "'cb AtomicRegisterState option list"
  test_drive :: RamDrive
  test_client :: BufferClient
  test_answers :: "('cb \<times> OperationSuccess) list"

fun build_registers_from ::
    "bool \<Rightarrow> SectorIdx \<Rightarrow> u8 \<Rightarrow> RamDrive \<Rightarrow> u8 list \<Rightarrow> 'cb AtomicRegisterState option list res" where
  "build_registers_from chk sidx n drive [] = Ok []"
| "build_registers_from chk sidx n drive (ident # idents) =
     res_bind (checked_add chk ident 1) (\<lambda>self.
     res_bind (build_atomic_register ram_read_metadata ram_read_data self sidx n drive) (\<lambda>r.
     res_bind (build_registers_from chk sidx n drive idents) (\<lambda>rs. Ok (Some r # rs))))"

definition build_registers ::
    "bool \<Rightarrow> SectorIdx \<Rightarrow> u8 \<Rightarrow> RamDrive \<Rightarrow> 'cb AtomicRegisterState option list res" where
  "build_registers chk sidx n drive = build_registers_from chk sidx n drive (map of_nat [0..<unat n])"

text \<open>The effects of a handler on the drive, the buffer and the callbacks, in order.\<close>

fun test_effects :: "bool \<Rightarrow> 'cb ar_effect list \<Rightarrow> 'cb test_cluster \<Rightarrow> 'cb test_cluster res" where
  "test_effects chk [] ts = Ok ts"
| "test_effects chk (Store i x # es) ts =
     res_bind (ram_write i x (test_drive ts)) (\<lambda>d. test_effects chk es (ts\<lparr>test_drive := d\<rparr>))"
| "test_effects chk (Send q m # es) ts =
     res_bind (bc_send q m (test_client ts)) (\<lambda>b. test_effects chk es (ts\<lparr>test_client := b\<rparr>))"
| "test_effects chk (Broadcast m # es) ts =
     res_bind (bc_broadcast chk m (test_client ts)) (\<lambda>b. test_effects chk es (ts\<lparr>test_client := b\<rparr>))"
| "test_effects chk (Callback cb x # es) ts = test_effects chk es (ts\<lparr>test_answers := test_answers ts @ [(cb, x)]\<rparr>)"

definition deliver_message ::
    "(readlist_map \<Rightarrow> readlist_map) \<Rightarrow> bool \<Rightarrow> u8 \<times> SystemRegisterCommand \<Rightarrow> 'cb test_cluster \<Rightarrow> 'cb test_cluster res" where
  "deliver_message iter chk m ts =
     res_bind (checked_sub chk (fst m) 1) (\<lambda>i.
     if unat i < length (test_registers ts) then
       case test_registers ts ! unat i of
         None \<Rightarrow> Ok ts
       | Some r \<Rightarrow>
           res_bind (system_command iter chk (snd m) r) (\<lambda>(r', es).
           test_effects chk es (ts\<lparr>test_registers := (test_registers ts)[unat i := Some r']\<rparr>))
     else Panic UnwrapNone)"

text \<open>
  \<open>propagate_all_messages\<close>: the registers run in the loop itself, so \<open>recv\<close> times out exactly when the
  buffer is empty. The value \<open>None\<close> would be a loop that never ends.
\<close>

partial_function (option) propagate_all_messages ::
    "(readlist_map \<Rightarrow> readlist_map) \<Rightarrow> bool \<Rightarrow> 'cb test_cluster \<Rightarrow> 'cb test_cluster res option" where
  "propagate_all_messages iter chk ts =
     (case buffer (test_client ts) of
        [] \<Rightarrow> Some (Ok ts)
      | m # ms \<Rightarrow>
          (case deliver_message iter chk m (ts\<lparr>test_client := (test_client ts)\<lparr>buffer := ms\<rparr>\<rparr>) of
             Ok ts' \<Rightarrow> propagate_all_messages iter chk ts'
           | Err e \<Rightarrow> Some (Err e)
           | Panic p \<Rightarrow> Some (Panic p)))"

definition send_client_cmd ::
    "bool \<Rightarrow> Uuid \<Rightarrow> nat \<Rightarrow> ClientRegisterCommand \<Rightarrow> 'cb \<Rightarrow> 'cb test_cluster \<Rightarrow> 'cb test_cluster res" where
  "send_client_cmd chk uuid target cmd operation_complete ts =
     (if target < length (test_registers ts) then
        res_bind (unwrap_opt UnwrapNone (test_registers ts ! target)) (\<lambda>r.
        case client_command uuid cmd operation_complete r of (r', es) \<Rightarrow>
          test_effects chk es (ts\<lparr>test_registers := (test_registers ts)[target := Some r']\<rparr>))
      else Panic UnwrapNone)"

section \<open>The loop ends\<close>

text \<open>Every message weighs more than all the messages its handler can send.\<close>

fun content_weight :: "nat \<Rightarrow> SystemRegisterCommandContent \<Rightarrow> nat" where
  "content_weight n ReadProc = 2 * n + 2"
| "content_weight n (Value _ _ _) = 2 * n + 1"
| "content_weight n (WriteProc _ _ _) = 2"
| "content_weight n Ack = 1"

definition buffer_weight :: "BufferClient \<Rightarrow> nat" where
  "buffer_weight b = (\<Sum>m \<leftarrow> buffer b. content_weight (unat (bc_processes_count b)) (s_content (snd m)))"

fun effect_weight :: "nat \<Rightarrow> 'cb ar_effect \<Rightarrow> nat" where
  "effect_weight n (Send _ m) = content_weight n (s_content m)"
| "effect_weight n (Broadcast m) = n * content_weight n (s_content m)"
| "effect_weight n _ = 0"

lemma length_ranks: "length (ranks n) = unat n"
  by (simp add: ranks_def)

lemma test_effects_weight:
  "test_effects chk es ts = Ok ts' \<Longrightarrow>
     bc_processes_count (test_client ts') = bc_processes_count (test_client ts) \<and>
     buffer_weight (test_client ts') =
       buffer_weight (test_client ts) + (\<Sum>e \<leftarrow> es. effect_weight (unat (bc_processes_count (test_client ts))) e)"
proof (induction chk es ts rule: test_effects.induct)
  case (2 chk i x es ts)
  from 2(2) have "test_effects chk es (ts\<lparr>test_drive := (test_drive ts)(i \<mapsto> x)\<rparr>) = Ok ts'" by (simp add: ram_write_def)
  from 2(1)[OF this] show ?case by simp
next
  case (3 chk q m es ts)
  from 3(2) have "test_effects chk es (ts\<lparr>test_client := (test_client ts)\<lparr>buffer := buffer (test_client ts) @ [(q, m)]\<rparr>\<rparr>) = Ok ts'"
    by (simp add: bc_send_def)
  from 3(1)[OF this] show ?case by (auto simp: buffer_weight_def)
next
  case (4 chk m es ts)
  let ?b = "(test_client ts)\<lparr>buffer := buffer (test_client ts) @ map (\<lambda>t. (t, m)) (ranks (bc_processes_count (test_client ts)))\<rparr>"
  from 4(2) have "test_effects chk es (ts\<lparr>test_client := ?b\<rparr>) = Ok ts'" by (simp add: bc_broadcast_eq)
  from 4(1)[OF this] show ?case by (auto simp: buffer_weight_def comp_def length_ranks sum_list_triv)
qed auto

lemma handler_weight:
  assumes "system_command iter chk m r = Ok (r', es)"
  shows "(\<Sum>e \<leftarrow> es. effect_weight n e) < content_weight n (s_content m)"
proof (cases "s_content m")
  case ReadProc
  with assms show ?thesis by (auto simp: handle_read_proc_eq)
next
  case (Value t w d)
  with assms have "handle_value iter chk (s_header m) t w d r = Ok (r', es)" by simp
  then show ?thesis by (cases rule: handle_value_cases) (auto simp: Value)
next
  case (WriteProc t w d)
  with assms have "handle_write_proc (s_header m) t w d r = Ok (r', es)" by simp
  then show ?thesis by (cases rule: handle_write_proc_cases) (auto simp: WriteProc)
next
  case Ack
  with assms have "handle_ack (s_header m) r = Ok (r', es)" by simp
  then show ?thesis by (cases rule: handle_ack_cases) (auto simp: Ack split: option.splits)
qed

lemma deliver_weight:
  assumes "deliver_message iter chk m ts = Ok ts'"
  shows "buffer_weight (test_client ts') <
    buffer_weight (test_client ts) + content_weight (unat (bc_processes_count (test_client ts))) (s_content (snd m))"
proof -
  have pos: "0 < content_weight k c" for k c by (cases c) simp_all
  from assms show ?thesis
    by (auto simp: deliver_message_def res_simps pos split: if_splits option.splits
        dest!: test_effects_weight handler_weight)
qed

declare test_effects.simps [simp del]

section \<open>Slots addressed by rank\<close>

text \<open>A cluster whose slot of rank \<open>q\<close> holds \<open>rg q\<close>.\<close>

definition slots ::
    "(u8 \<Rightarrow> 'cb AtomicRegisterState option) \<Rightarrow> RamDrive \<Rightarrow> u8 \<Rightarrow> (u8 \<times> SystemRegisterCommand) list \<Rightarrow>
     ('cb \<times> OperationSuccess) list \<Rightarrow> 'cb test_cluster" where
  "slots rg dr n b as = \<lparr>test_registers = map rg (ranks n), test_drive = dr,
     test_client = \<lparr>bc_processes_count = n, buffer = b\<rparr>, test_answers = as\<rparr>"

lemma slot_index:
  assumes "q \<in> set (ranks n)"
  shows "unat q - Suc 0 < length (ranks n)" and "ranks n ! (unat q - Suc 0) = q"
    and "(map rg (ranks n))[unat q - Suc 0 := x] = map (rg(q := x)) (ranks n)"
proof -
  from assms have q: "1 \<le> unat q" "unat q \<le> unat n" by (simp_all add: set_ranks)
  then show l: "unat q - Suc 0 < length (ranks n)" by (simp add: length_ranks)
  from q have "[1..<Suc (unat n)] ! (unat q - Suc 0) = unat q" by (subst nth_upt) simp_all
  with l show r: "ranks n ! (unat q - Suc 0) = q" by (simp add: ranks_def)
  show "(map rg (ranks n))[unat q - Suc 0 := x] = map (rg(q := x)) (ranks n)"
  proof (rule nth_equalityI)
    fix i assume "i < length ((map rg (ranks n))[unat q - Suc 0 := x])"
    then have i: "i < length (ranks n)" by simp
    then have "ranks n ! i = q \<longleftrightarrow> i = unat q - Suc 0"
      using nth_eq_iff_index_eq[OF distinct_ranks i l] r by simp
    with i l show "(map rg (ranks n))[unat q - Suc 0 := x] ! i = map (rg(q := x)) (ranks n) ! i"
      by (cases "i = unat q - Suc 0") simp_all
  qed simp
qed

lemma unat_pred: "q \<in> set (ranks n) \<Longrightarrow> unat (q - 1) = unat q - Suc 0"
  by (simp add: set_ranks unat_sub word_le_nat_alt)

lemma deliver_slots:
  assumes "q \<in> set (ranks n)"
  shows "deliver_message iter chk (q, m) (slots rg dr n b as) =
    (case rg q of
       None \<Rightarrow> Ok (slots rg dr n b as)
     | Some r \<Rightarrow> res_bind (system_command iter chk m r) (\<lambda>(r', es). test_effects chk es (slots (rg(q \<mapsto> r')) dr n b as)))"
proof -
  from assms have "q \<noteq> 0" by (auto simp: set_ranks)
  then show ?thesis
    by (simp add: deliver_message_def slots_def checked_sub_one unat_pred[OF assms] slot_index[OF assms] split: option.split)
qed

lemma effects_slots:
  "test_effects chk [] (slots rg dr n b as) = Ok (slots rg dr n b as)"
  "test_effects chk (Store i x # es) (slots rg dr n b as) = test_effects chk es (slots rg (dr(i \<mapsto> x)) n b as)"
  "test_effects chk (Send q m # es) (slots rg dr n b as) = test_effects chk es (slots rg dr n (b @ [(q, m)]) as)"
  "test_effects chk (Broadcast m # es) (slots rg dr n b as) =
     test_effects chk es (slots rg dr n (b @ map (\<lambda>q. (q, m)) (ranks n)) as)"
  "test_effects chk (Callback cb r # es) (slots rg dr n b as) = test_effects chk es (slots rg dr n b (as @ [(cb, r)]))"
  by (simp_all add: slots_def ram_write_def bc_send_def bc_broadcast_eq test_effects.simps)

lemma propagate_slots:
  assumes "q \<in> set (ranks n)"
  shows "rg q = None \<Longrightarrow>
      propagate_all_messages iter chk (slots rg dr n ((q, m) # b) as) = propagate_all_messages iter chk (slots rg dr n b as)"
    and "rg q = Some r \<Longrightarrow> system_command iter chk m r = Ok (r', es) \<Longrightarrow>
      test_effects chk es (slots (rg(q \<mapsto> r')) dr n b as) = Ok ts' \<Longrightarrow>
      propagate_all_messages iter chk (slots rg dr n ((q, m) # b) as) = propagate_all_messages iter chk ts'"
proof -
  have pop: "buffer (test_client (slots rg dr n ((q, m) # b) as)) = (q, m) # b"
      "slots rg dr n ((q, m) # b) as\<lparr>test_client := (test_client (slots rg dr n ((q, m) # b) as))\<lparr>buffer := b\<rparr>\<rparr> = slots rg dr n b as"
    by (simp_all add: slots_def)
  note step = deliver_slots[OF assms, of iter chk m rg dr b as]
  show "rg q = None \<Longrightarrow>
      propagate_all_messages iter chk (slots rg dr n ((q, m) # b) as) = propagate_all_messages iter chk (slots rg dr n b as)"
    by (subst propagate_all_messages.simps) (simp add: pop step)
  show "rg q = Some r \<Longrightarrow> system_command iter chk m r = Ok (r', es) \<Longrightarrow>
      test_effects chk es (slots (rg(q \<mapsto> r')) dr n b as) = Ok ts' \<Longrightarrow>
      propagate_all_messages iter chk (slots rg dr n ((q, m) # b) as) = propagate_all_messages iter chk ts'"
    by (subst propagate_all_messages.simps) (simp add: pop step)
qed

lemma propagate_done: "propagate_all_messages iter chk (slots rg dr n [] as) = Some (Ok (slots rg dr n [] as))"
  by (subst propagate_all_messages.simps) (simp add: slots_def)

section \<open>The phases of an operation\<close>

abbreviation from_proc :: "SectorIdx \<Rightarrow> Uuid \<Rightarrow> SystemRegisterCommandContent \<Rightarrow> u8 \<Rightarrow> SystemRegisterCommand" where
  "from_proc i u content q \<equiv> \<lparr>s_header = \<lparr>process_identifier = q, msg_ident = u, s_sector_idx = i\<rparr>, s_content = content\<rparr>"

text \<open>Every register is in the slot of its rank; all of them have the same version and value.\<close>

definition in_place :: "u8 \<Rightarrow> SectorIdx \<Rightarrow> (u8 \<Rightarrow> 'cb AtomicRegisterState option) \<Rightarrow> bool" where
  "in_place n sidx rg \<longleftrightarrow>
     (\<forall>q r. rg q = Some r \<longrightarrow> q \<in> set (ranks n) \<and> self_ident r = q \<and> processes_count r = n \<and> sector_idx r = sidx \<and> reg_inv r)"

definition stores_all :: "reading_entry \<Rightarrow> (u8 \<Rightarrow> 'cb AtomicRegisterState option) \<Rightarrow> bool" where
  "stores_all x rg \<longleftrightarrow> (\<forall>q r. rg q = Some r \<longrightarrow> (ar_ts r, ar_wr r, ar_val r) = x)"

definition left :: "(u8 \<Rightarrow> 'cb AtomicRegisterState option) \<Rightarrow> u8 list \<Rightarrow> u8 list" where
  "left rg qs = filter (\<lambda>q. rg q \<noteq> None) qs"

lemma left_simps [simp]:
  "left rg [] = []" "rg q = None \<Longrightarrow> left rg (q # qs) = left rg qs" "rg q = Some r \<Longrightarrow> left rg (q # qs) = q # left rg qs"
  by (simp_all add: left_def)

lemma read_phase:
  assumes "in_place n sidx rg" and "stores_all (t, w, v) rg"
  shows "set qs \<subseteq> set (ranks n) \<Longrightarrow>
    propagate_all_messages iter chk (slots rg dr n (map (\<lambda>q. (q, from_proc i u ReadProc p)) qs @ b) as) =
    propagate_all_messages iter chk (slots rg dr n (b @ map (\<lambda>q. (p, from_proc i u (Value t w v) q)) (left rg qs)) as)"
proof (induction qs arbitrary: b)
  case (Cons q qs)
  then have q: "q \<in> set (ranks n)" by simp
  show ?case
  proof (cases "rg q")
    case None
    with Cons show ?thesis by (simp add: propagate_slots(1)[OF q])
  next
    case (Some r)
    with assms have r: "self_ident r = q" "ar_ts r = t" "ar_wr r = w" "ar_val r = v" "rg(q \<mapsto> r) = rg"
      by (auto simp: in_place_def stores_all_def)
    have "propagate_all_messages iter chk (slots rg dr n ((q, from_proc i u ReadProc p) # (map (\<lambda>q. (q, from_proc i u ReadProc p)) qs @ b)) as) =
        propagate_all_messages iter chk
          (slots rg dr n (map (\<lambda>q. (q, from_proc i u ReadProc p)) qs @ (b @ [(p, from_proc i u (Value t w v) q)])) as)"
      by (rule propagate_slots(2)[OF q, where rg = rg, OF Some], simp add: handle_read_proc_eq)
        (simp add: effects_slots r)
    with Cons.IH[of "b @ [(p, from_proc i u (Value t w v) q)]"] Cons.prems Some show ?thesis by simp
  qed
qed simp

text \<open>The register that executes the operation, waiting for values of version and value \<open>x\<close>.\<close>

definition waits_for_values :: "u8 \<Rightarrow> SectorIdx \<Rightarrow> u8 \<Rightarrow> Uuid \<Rightarrow> reading_entry \<Rightarrow> 'cb AtomicRegisterState \<Rightarrow> bool" where
  "waits_for_values n sidx p u x r \<longleftrightarrow>
     reg_inv r \<and> self_ident r = p \<and> processes_count r = n \<and> sector_idx r = sidx \<and>
     op_id r = Some u \<and> \<not> write_phase r \<and> \<not> idle r \<and> (ar_ts r, ar_wr r, ar_val r) = x \<and>
     snd ` set (readlist r) \<subseteq> {x} \<and> (writing r \<longrightarrow> fst x \<noteq> - 1)"

definition chosen :: "reading_entry \<Rightarrow> 'cb AtomicRegisterState \<Rightarrow> reading_entry" where
  "chosen x r = (if reading r then x else (fst x + 1, self_ident r, writeval r))"

definition begin_write :: "reading_entry \<Rightarrow> 'cb AtomicRegisterState \<Rightarrow> 'cb AtomicRegisterState" where
  "begin_write x r = (case chosen x r of (t, w, d) \<Rightarrow>
     r\<lparr>readval := snd (snd x), readlist := [], acklist := {}, write_phase := True, ar_ts := t, ar_wr := w, ar_val := d\<rparr>)"

lemma begin_write_readlist [simp]:
  "begin_write x (r\<lparr>readlist := l\<rparr>) = begin_write x r" "chosen x (r\<lparr>readlist := l\<rparr>) = chosen x r"
  by (simp_all add: begin_write_def chosen_def split: prod.split)

lemma highest_uniform:
  assumes "iterates iter" and "l \<noteq> []" and "snd ` set l \<subseteq> {x}"
  shows "highest iter l = Some x"
proof (rule highest_max[OF assms(1,2)])
  fix q e assume "highest iter l = Some e" "(q, e) \<in> set l"
  with assms(3) show ?thesis by force
qed

lemma length_update_new: "k \<notin> fst ` set al \<Longrightarrow> length (AList.update k v al) = Suc (length al)"
  by (induction al) auto

lemma value_quorum:
  assumes r: "waits_for_values n sidx p u (t, w, v) r" and iter: "iterates iter" and q: "q \<notin> fst ` set (readlist r)"
    and maj: "unat n div 2 < Suc (length (readlist r))" and c: "chosen (t, w, v) r = (t', w', d')"
  shows "system_command iter chk (from_proc i u (Value t w v) q) r =
    Ok (begin_write (t, w, v) r, (if reading r then [] else [Store sidx (d', t', w')]) @ [Broadcast (from_proc i u (WriteProc t' w' d') p)])"
proof -
  let ?l = "AList.update p (t, w, v) (AList.update q (t, w, v) (readlist r))"
  have "snd ` set ?l \<subseteq> {(t, w, v)}"
    by (rule order_trans[OF update_values], rule insert_subsetI, simp, rule order_trans[OF update_values])
      (use r in \<open>simp add: waits_for_values_def\<close>)
  then have h: "highest iter ?l = Some (t, w, v)" by (intro highest_uniform[OF iter]) simp_all
  have len: "length (AList.update q (t, w, v) (readlist r)) = Suc (length (readlist r))" using q by (simp add: length_update_new)
  from r have f: "self_ident r = p" "processes_count r = n" "sector_idx r = sidx" "op_id r = Some u" "\<not> write_phase r"
      "reading r \<or> writing r" "ar_ts r = t" "ar_wr r = w" "ar_val r = v" "writing r \<longrightarrow> t \<noteq> - 1"
    by (auto simp: waits_for_values_def)
  show ?thesis
  proof (cases "reading r")
    case True
    with c have "t' = t" "w' = w" "d' = v" by (simp_all add: chosen_def)
    with True show ?thesis
      by (simp add: handle_value_def res_simps Let_def f len maj h begin_write_def chosen_def)
  next
    case False
    with c f have "t' = t + 1" "w' = p" "d' = writeval r" "t \<noteq> - 1" "writing r" by (auto simp: chosen_def)
    with False show ?thesis
      by (simp add: handle_value_def res_simps Let_def f len maj h begin_write_def chosen_def checked_add_one)
  qed
qed

lemma value_collected:
  assumes r: "waits_for_values n sidx p u (t, w, v) r" and q: "q \<notin> fst ` set (readlist r)"
    and maj: "\<not> unat n div 2 < Suc (length (readlist r))"
  shows "system_command iter chk (from_proc i u (Value t w v) q) r =
      Ok (r\<lparr>readlist := AList.update q (t, w, v) (readlist r)\<rparr>, [])"
    and "waits_for_values n sidx p u (t, w, v) (r\<lparr>readlist := AList.update q (t, w, v) (readlist r)\<rparr>)"
proof -
  have len: "length (AList.update q (t, w, v) (readlist r)) = Suc (length (readlist r))" using q by (simp add: length_update_new)
  show e: "system_command iter chk (from_proc i u (Value t w v) q) r =
      Ok (r\<lparr>readlist := AList.update q (t, w, v) (readlist r)\<rparr>, [])" for iter chk i
    using r maj by (simp add: handle_value_def res_simps waits_for_values_def Let_def len)
  have "snd ` set (AList.update q (t, w, v) (readlist r)) \<subseteq> {(t, w, v)}"
    by (rule order_trans[OF update_values]) (use r in \<open>simp add: waits_for_values_def\<close>)
  with r system_command_inv[OF _ e] show "waits_for_values n sidx p u (t, w, v) (r\<lparr>readlist := AList.update q (t, w, v) (readlist r)\<rparr>)"
    by (simp add: waits_for_values_def)
qed

lemma skip_messages:
  assumes p: "p \<in> set (ranks n)" and r: "rg p = Some r"
    and skip: "\<And>q. system_command iter chk (f q) r = Ok (r, [])"
  shows "propagate_all_messages iter chk (slots rg dr n (map (\<lambda>q. (p, f q)) ls @ b) as) =
    propagate_all_messages iter chk (slots rg dr n b as)"
proof (induction ls)
  case (Cons q ls)
  have "rg(p \<mapsto> r) = rg" using r by auto
  then have "propagate_all_messages iter chk (slots rg dr n ((p, f q) # (map (\<lambda>q. (p, f q)) ls @ b)) as) =
      propagate_all_messages iter chk (slots rg dr n (map (\<lambda>q. (p, f q)) ls @ b) as)"
    by (intro propagate_slots(2)[OF p, where rg = rg, OF r skip]) (simp add: effects_slots)
  with Cons show ?case by simp
qed simp

lemma value_phase:
  assumes p: "p \<in> set (ranks n)" and iter: "iterates iter" and c: "chosen (t, w, v) r = (t', w', d')"
  shows "rg p = Some r \<Longrightarrow> waits_for_values n sidx p u (t, w, v) r \<Longrightarrow> distinct ls \<Longrightarrow>
    fst ` set (readlist r) \<inter> set ls = {} \<Longrightarrow> unat n div 2 < length (readlist r) + length ls \<Longrightarrow>
    propagate_all_messages iter chk (slots rg dr n (map (\<lambda>q. (p, from_proc i u (Value t w v) q)) ls @ b) as) =
    propagate_all_messages iter chk
      (slots (rg(p \<mapsto> begin_write (t, w, v) r)) (if reading r then dr else dr(sidx \<mapsto> (d', t', w'))) n
        (b @ map (\<lambda>q. (q, from_proc i u (WriteProc t' w' d') p)) (ranks n)) as)"
  using c
proof (induction ls arbitrary: rg r)
  case Nil
  then show ?case by (auto simp: waits_for_values_def reg_inv_def split: if_splits)
next
  case (Cons q ls)
  let ?f = "\<lambda>q. from_proc i u (Value t w v) q"
  have q: "q \<notin> fst ` set (readlist r)" using Cons.prems(4) by simp
  show ?case
  proof (cases "unat n div 2 < Suc (length (readlist r))")
    case True
    let ?rg = "rg(p \<mapsto> begin_write (t, w, v) r)" and ?dr = "if reading r then dr else dr(sidx \<mapsto> (d', t', w'))"
      and ?w = "map (\<lambda>q. (q, from_proc i u (WriteProc t' w' d') p)) (ranks n)"
    have "propagate_all_messages iter chk (slots rg dr n ((p, ?f q) # (map (\<lambda>q. (p, ?f q)) ls @ b)) as) =
        propagate_all_messages iter chk (slots ?rg ?dr n ((map (\<lambda>q. (p, ?f q)) ls @ b) @ ?w) as)"
      by (rule propagate_slots(2)[OF p, where rg = rg, OF Cons.prems(1) value_quorum[OF Cons.prems(2) iter q True Cons.prems(6)]])
        (simp add: effects_slots)
    also have "\<dots> = propagate_all_messages iter chk (slots ?rg ?dr n (b @ ?w) as)"
      unfolding append_assoc
      by (rule skip_messages[OF p, where r = "begin_write (t, w, v) r"])
        (use Cons.prems(2) in \<open>auto simp: handle_value_def res_simps begin_write_def waits_for_values_def split: prod.split\<close>)
    finally show ?thesis by (simp only: list.map append_Cons)
  next
    case False
    let ?r = "r\<lparr>readlist := AList.update q (t, w, v) (readlist r)\<rparr>"
    note step = value_collected[OF Cons.prems(2) q False]
    have "propagate_all_messages iter chk (slots rg dr n ((p, ?f q) # (map (\<lambda>q. (p, ?f q)) ls @ b)) as) =
        propagate_all_messages iter chk (slots (rg(p \<mapsto> ?r)) dr n (map (\<lambda>q. (p, ?f q)) ls @ b) as)"
      by (rule propagate_slots(2)[OF p, where rg = rg, OF Cons.prems(1) step(1)]) (simp add: effects_slots)
    also have "\<dots> = propagate_all_messages iter chk
      (slots ((rg(p \<mapsto> ?r))(p \<mapsto> begin_write (t, w, v) ?r)) (if reading ?r then dr else dr(sidx \<mapsto> (d', t', w'))) n
        (b @ map (\<lambda>q. (q, from_proc i u (WriteProc t' w' d') p)) (ranks n)) as)"
      by (rule Cons.IH[OF _ step(2)]) (use Cons.prems q in \<open>auto simp: length_update_new dom_update\<close>)
    also have "(rg(p \<mapsto> ?r))(p \<mapsto> begin_write (t, w, v) ?r) = rg(p \<mapsto> begin_write (t, w, v) r)" by auto
    also have "reading ?r = reading r" by simp
    finally show ?thesis by (simp only: list.map append_Cons)
  qed
qed

lemma value_phase_short:
  assumes p: "p \<in> set (ranks n)"
  shows "rg p = Some r \<Longrightarrow> waits_for_values n sidx p u (t, w, v) r \<Longrightarrow> distinct ls \<Longrightarrow>
    fst ` set (readlist r) \<inter> set ls = {} \<Longrightarrow> \<not> unat n div 2 < length (readlist r) + length ls \<Longrightarrow>
    \<exists>r'. waits_for_values n sidx p u (t, w, v) r' \<and>
      propagate_all_messages iter chk (slots rg dr n (map (\<lambda>q. (p, from_proc i u (Value t w v) q)) ls @ b) as) =
      propagate_all_messages iter chk (slots (rg(p \<mapsto> r')) dr n b as)"
proof (induction ls arbitrary: rg r)
  case Nil
  then have "rg(p \<mapsto> r) = rg" by auto
  with Nil show ?case by (intro exI[of _ r]) simp
next
  case (Cons q ls)
  let ?f = "\<lambda>q. from_proc i u (Value t w v) q"
  have q: "q \<notin> fst ` set (readlist r)" using Cons.prems(4) by simp
  have few: "\<not> unat n div 2 < Suc (length (readlist r))" using Cons.prems(5) by simp
  let ?r = "r\<lparr>readlist := AList.update q (t, w, v) (readlist r)\<rparr>"
  note step = value_collected[OF Cons.prems(2) q few]
  have one: "propagate_all_messages iter chk (slots rg dr n ((p, ?f q) # (map (\<lambda>q. (p, ?f q)) ls @ b)) as) =
      propagate_all_messages iter chk (slots (rg(p \<mapsto> ?r)) dr n (map (\<lambda>q. (p, ?f q)) ls @ b) as)"
    by (rule propagate_slots(2)[OF p, where rg = rg, OF Cons.prems(1) step(1)]) (simp add: effects_slots)
  have "\<exists>r'. waits_for_values n sidx p u (t, w, v) r' \<and>
      propagate_all_messages iter chk (slots (rg(p \<mapsto> ?r)) dr n (map (\<lambda>q. (p, ?f q)) ls @ b) as) =
      propagate_all_messages iter chk (slots ((rg(p \<mapsto> ?r))(p \<mapsto> r')) dr n b as)"
    by (rule Cons.IH[OF _ step(2)]) (use Cons.prems q in \<open>auto simp: length_update_new dom_update\<close>)
  with one show ?case by (simp only: list.map append_Cons fun_upd_upd)
qed

text \<open>\<open>WriteProc\<close> at every register that is left.\<close>

definition store_newer :: "reading_entry \<Rightarrow> 'cb AtomicRegisterState \<Rightarrow> 'cb AtomicRegisterState" where
  "store_newer x r = (case x of (t, w, d) \<Rightarrow>
     if (ar_ts r, ar_wr r) < (t, w) then r\<lparr>ar_ts := t, ar_wr := w, ar_val := d\<rparr> else r)"

lemma write_proc_slots:
  assumes r: "self_ident r = q" "sector_idx r = sidx" and d: "(ar_ts r, ar_wr r) < (t, w) \<Longrightarrow> dr sidx = Some (d, t, w)"
  shows "\<exists>es. system_command iter chk (from_proc i u (WriteProc t w d) p) r = Ok (store_newer (t, w, d) r, es) \<and>
    test_effects chk es (slots rg dr n b as) = Ok (slots rg dr n (b @ [(p, from_proc i u Ack q)]) as)"
proof (cases "(ar_ts r, ar_wr r) < (t, w)")
  case True
  from d[OF True] have "dr(sidx \<mapsto> (d, t, w)) = dr" by auto
  with r True show ?thesis
    by (simp add: handle_write_proc_def Let_def store_newer_def effects_slots del: less_prod_simp)
next
  case False
  with r show ?thesis by (simp add: handle_write_proc_def Let_def store_newer_def effects_slots del: less_prod_simp)
qed

lemma store_phase:
  assumes "\<And>q r. rg q = Some r \<Longrightarrow> self_ident r = q \<and> sector_idx r = sidx"
    and "\<And>q r. rg q = Some r \<Longrightarrow> (ar_ts r, ar_wr r) < (t, w) \<Longrightarrow> dr sidx = Some (d, t, w)"
    and "set qs \<subseteq> set (ranks n)" and "distinct qs"
  shows "propagate_all_messages iter chk (slots rg dr n (map (\<lambda>q. (q, from_proc i u (WriteProc t w d) p)) qs @ b) as) =
    propagate_all_messages iter chk
      (slots (\<lambda>q. if q \<in> set qs then map_option (store_newer (t, w, d)) (rg q) else rg q) dr n
        (b @ map (\<lambda>q. (p, from_proc i u Ack q)) (left rg qs)) as)"
  using assms
proof (induction qs arbitrary: rg b)
  case (Cons q qs)
  let ?m = "\<lambda>q. (q, from_proc i u (WriteProc t w d) p)"
  from Cons.prems have q: "q \<in> set (ranks n)" "q \<notin> set qs" by auto
  show ?case
  proof (cases "rg q")
    case None
    then have "(\<lambda>x. if x \<in> set (q # qs) then map_option (store_newer (t, w, d)) (rg x) else rg x) =
        (\<lambda>x. if x \<in> set qs then map_option (store_newer (t, w, d)) (rg x) else rg x)" by auto
    with Cons.IH[of rg b] Cons.prems None show ?thesis by (simp add: propagate_slots(1)[OF q(1)])
  next
    case (Some r)
    let ?rg = "rg(q \<mapsto> store_newer (t, w, d) r)"
    obtain es where es: "system_command iter chk (from_proc i u (WriteProc t w d) p) r = Ok (store_newer (t, w, d) r, es)"
        "test_effects chk es (slots ?rg dr n (map ?m qs @ b) as) = Ok (slots ?rg dr n ((map ?m qs @ b) @ [(p, from_proc i u Ack q)]) as)"
      using write_proc_slots[of r q sidx t w dr d] Cons.prems(1,2)[OF Some] by blast
    have "propagate_all_messages iter chk (slots rg dr n (?m q # (map ?m qs @ b)) as) =
        propagate_all_messages iter chk (slots ?rg dr n (map ?m qs @ (b @ [(p, from_proc i u Ack q)])) as)"
      using propagate_slots(2)[OF q(1), where rg = rg, OF Some es] by simp
    also have "\<dots> = propagate_all_messages iter chk
      (slots (\<lambda>x. if x \<in> set qs then map_option (store_newer (t, w, d)) (?rg x) else ?rg x) dr n
        ((b @ [(p, from_proc i u Ack q)]) @ map (\<lambda>q. (p, from_proc i u Ack q)) (left ?rg qs)) as)"
      by (rule Cons.IH) (use Cons.prems Some in \<open>auto simp: store_newer_def simp del: less_prod_simp split: if_splits\<close>)
    also have "(\<lambda>x. if x \<in> set qs then map_option (store_newer (t, w, d)) (?rg x) else ?rg x) =
        (\<lambda>x. if x \<in> set (q # qs) then map_option (store_newer (t, w, d)) (rg x) else rg x)"
      using q(2) Some by auto
    also have "left ?rg qs = left rg qs" unfolding left_def by (rule filter_cong) (use Some in auto)
    finally show ?thesis using Some by simp
  qed
qed simp

definition waits_for_acks :: "u8 \<Rightarrow> Uuid \<Rightarrow> 'cb \<Rightarrow> u64 \<Rightarrow> 'cb AtomicRegisterState \<Rightarrow> bool" where
  "waits_for_acks n u cb i r \<longleftrightarrow>
     reg_inv r \<and> processes_count r = n \<and> op_id r = Some u \<and> write_phase r \<and> callback r = Some cb \<and> rid r = Some i"

lemma completed_acklist [simp]:
  "completed (r\<lparr>acklist := l\<rparr>) = completed r" "finished (r\<lparr>acklist := l\<rparr>) = finished r"
  by (simp_all add: completed_def finished_def)

lemma ack_step:
  assumes "waits_for_acks n u cb i r"
  shows "system_command iter chk (from_proc j u Ack q) r =
    (if unat n div 2 < card (insert q (acklist r))
     then Ok (completed r, [Callback cb \<lparr>op_request_identifier = i, op_return = finished r\<rparr>])
     else Ok (r\<lparr>acklist := insert q (acklist r)\<rparr>, []))"
proof -
  from assms have "reading r \<or> writing r" by (auto simp: waits_for_acks_def reg_inv_def)
  with assms show ?thesis
    by (auto simp: handle_ack_def res_simps waits_for_acks_def Let_def completed_def finished_def)
qed

lemma ack_phase:
  assumes p: "p \<in> set (ranks n)"
  shows "rg p = Some r \<Longrightarrow> waits_for_acks n u cb i r \<Longrightarrow> distinct ls \<Longrightarrow> acklist r \<inter> set ls = {} \<Longrightarrow>
    unat n div 2 < card (acklist r) + length ls \<Longrightarrow>
    propagate_all_messages iter chk (slots rg dr n (map (\<lambda>q. (p, from_proc j u Ack q)) ls @ b) as) =
    propagate_all_messages iter chk
      (slots (rg(p \<mapsto> completed r)) dr n b (as @ [(cb, \<lparr>op_request_identifier = i, op_return = finished r\<rparr>)]))"
proof (induction ls arbitrary: rg r)
  case Nil
  then show ?case by (auto simp: waits_for_acks_def reg_inv_def)
next
  case (Cons q ls)
  let ?f = "\<lambda>q. from_proc j u Ack q"
  have card: "card (insert q (acklist r)) = Suc (card (acklist r))" using Cons.prems(4) by simp
  show ?case
  proof (cases "unat n div 2 < card (insert q (acklist r))")
    case True
    let ?rg = "rg(p \<mapsto> completed r)" and ?as = "as @ [(cb, \<lparr>op_request_identifier = i, op_return = finished r\<rparr>)]"
    from ack_step[OF Cons.prems(2), where iter = iter and chk = chk and j = j and q = q] True
    have e: "system_command iter chk (?f q) r = Ok (completed r, [Callback cb \<lparr>op_request_identifier = i, op_return = finished r\<rparr>])"
      by (simp only: if_True)
    have "propagate_all_messages iter chk (slots rg dr n ((p, ?f q) # (map (\<lambda>q. (p, ?f q)) ls @ b)) as) =
        propagate_all_messages iter chk (slots ?rg dr n (map (\<lambda>q. (p, ?f q)) ls @ b) ?as)"
      by (rule propagate_slots(2)[OF p, where rg = rg, OF Cons.prems(1) e]) (simp add: effects_slots)
    also have "\<dots> = propagate_all_messages iter chk (slots ?rg dr n b ?as)"
      by (rule skip_messages[OF p, where r = "completed r"])
        (use Cons.prems(2) in \<open>auto simp: handle_ack_def res_simps completed_def waits_for_acks_def\<close>)
    finally show ?thesis by (simp only: list.map append_Cons)
  next
    case False
    let ?r = "r\<lparr>acklist := insert q (acklist r)\<rparr>"
    from ack_step[OF Cons.prems(2), where iter = iter and chk = chk and j = j and q = q] False
    have e: "system_command iter chk (?f q) r = Ok (?r, [])" by (simp only: if_False)
    have inv: "reg_inv ?r" using system_command_inv[OF _ e] Cons.prems(2) by (simp add: waits_for_acks_def)
    have "propagate_all_messages iter chk (slots rg dr n ((p, ?f q) # (map (\<lambda>q. (p, ?f q)) ls @ b)) as) =
        propagate_all_messages iter chk (slots (rg(p \<mapsto> ?r)) dr n (map (\<lambda>q. (p, ?f q)) ls @ b) as)"
      by (rule propagate_slots(2)[OF p, where rg = rg, OF Cons.prems(1) e]) (simp add: effects_slots)
    also have "\<dots> = propagate_all_messages iter chk
      (slots ((rg(p \<mapsto> ?r))(p \<mapsto> completed ?r)) dr n b (as @ [(cb, \<lparr>op_request_identifier = i, op_return = finished ?r\<rparr>)]))"
      by (rule Cons.IH) (use Cons.prems inv card in \<open>auto simp: waits_for_acks_def\<close>)
    finally show ?thesis by (simp only: list.map append_Cons fun_upd_upd completed_acklist)
  qed
qed

section \<open>A whole operation\<close>

lemma begin_write_facts:
  assumes "waits_for_values n sidx p u x r" and "callback r = Some cb" and "rid r = Some i"
  shows "waits_for_acks n u cb i (begin_write x r)" and "acklist (begin_write x r) = {}"
    and "store_newer (chosen x r) (begin_write x r) = begin_write x r"
    and "finished (begin_write x r) = (if reading r then OpRead \<lparr>read_data_ret = snd (snd x)\<rparr> else OpWrite)"
    and "self_ident (begin_write x r) = p" "sector_idx (begin_write x r) = sidx"
    and "(ar_ts (begin_write x r), ar_wr (begin_write x r), ar_val (begin_write x r)) = chosen x r"
  using assms
  by (auto simp: begin_write_def waits_for_acks_def waits_for_values_def reg_inv_def store_newer_def finished_def
      split: prod.splits)

lemma reg_inv_versions: "reg_inv (r\<lparr>ar_ts := t, ar_wr := w, ar_val := v\<rparr>) = reg_inv r"
  by (simp add: reg_inv_def)

lemma completed_facts:
  assumes "waits_for_acks n u cb i r"
  shows "reg_inv (completed r)" "idle (completed r)" "self_ident (completed r) = self_ident r"
    "processes_count (completed r) = processes_count r" "sector_idx (completed r) = sector_idx r"
    "(ar_ts (completed r), ar_wr (completed r), ar_val (completed r)) = (ar_ts r, ar_wr r, ar_val r)"
  using assms by (auto simp: waits_for_acks_def reg_inv_def completed_def)

lemma chosen_newer:
  assumes "waits_for_values n sidx p u x r"
  shows "chosen x r = x \<and> reading r \<or> (fst x, fst (snd x)) < (fst (chosen x r), fst (snd (chosen x r))) \<and> \<not> reading r"
proof (cases "reading r")
  case False
  with assms have "fst x \<noteq> - 1" by (auto simp: waits_for_values_def)
  with False next_version[of "(fst x, fst (snd x))" "self_ident r"] show ?thesis by (simp add: chosen_def)
qed (simp add: chosen_def)

lemma operation_completes:
  assumes iter: "iterates iter" and p: "p \<in> set (ranks n)" and rg: "in_place n sidx rg" "stores_all x rg" "rg p = Some r"
    and r: "waits_for_values n sidx p u x r" "readlist r = []" "callback r = Some cb" "rid r = Some i"
    and maj: "unat n div 2 < length (left rg (ranks n))"
  shows "propagate_all_messages iter chk (slots rg dr n (map (\<lambda>q. (q, from_proc j u ReadProc p)) (ranks n)) as) =
    Some (Ok (slots ((map_option (store_newer (chosen x r)) \<circ> rg)(p \<mapsto> completed (begin_write x r)))
      (if reading r then dr else dr(sidx \<mapsto> (snd (snd (chosen x r)), fst (chosen x r), fst (snd (chosen x r))))) n []
      (as @ [(cb, \<lparr>op_request_identifier = i, op_return = if reading r then OpRead \<lparr>read_data_ret = snd (snd x)\<rparr> else OpWrite\<rparr>)])))"
    (is "_ = Some (Ok (slots ?rg4 ?dr n [] ?as))")
proof -
  obtain t w v where x: "x = (t, w, v)" by (cases x)
  obtain t' w' d' where c: "chosen x r = (t', w', d')" by (cases "chosen x r")
  note b = begin_write_facts[OF r(1,3,4)]
  let ?rg2 = "rg(p \<mapsto> begin_write x r)" and ?dr2 = "if reading r then dr else dr(sidx \<mapsto> (d', t', w'))"
    and ?W = "map (\<lambda>q. (q, from_proc j u (WriteProc t' w' d') p)) (ranks n)"
    and ?rg3 = "map_option (store_newer (t', w', d')) \<circ> rg(p \<mapsto> begin_write x r)"
  have lv: "left ?rg2 (ranks n) = left rg (ranks n)" unfolding left_def by (rule filter_cong) (use rg(3) in auto)
  have "propagate_all_messages iter chk (slots rg dr n (map (\<lambda>q. (q, from_proc j u ReadProc p)) (ranks n)) as) =
      propagate_all_messages iter chk (slots rg dr n (map (\<lambda>q. (p, from_proc j u (Value t w v) q)) (left rg (ranks n))) as)"
    using read_phase[OF rg(1) rg(2)[unfolded x] subset_refl, where b = "[]"] by simp
  also have "\<dots> = propagate_all_messages iter chk (slots ?rg2 ?dr2 n ?W as)"
    using value_phase[OF p iter c[unfolded x], where rg = rg, OF rg(3) r(1)[unfolded x], where ls = "left rg (ranks n)" and b = "[]"] maj
    by (simp add: r(2) x left_def distinct_ranks)
  also have "\<dots> = propagate_all_messages iter chk (slots ?rg3 ?dr2 n (map (\<lambda>q. (p, from_proc j u Ack q)) (left rg (ranks n))) as)"
  proof -
    have all: "(\<lambda>q. if q \<in> set (ranks n) then map_option (store_newer (t', w', d')) (?rg2 q) else ?rg2 q) = ?rg3"
      using rg(1) p by (auto simp: in_place_def fun_eq_iff) (metis not_None_eq option.map_disc_iff)
    have newer: "?dr2 sidx = Some (d', t', w')" if "?rg2 q = Some r'" "(ar_ts r', ar_wr r') < (t', w')" for q r'
    proof (cases "q = p")
      case True
      with that b(7) c show ?thesis by simp
    next
      case False
      with that(1) rg(2) x have "(ar_ts r', ar_wr r') = (t, w)" by (simp add: stores_all_def)
      with that(2) c x show ?thesis by (cases "reading r") (simp_all add: chosen_def)
    qed
    have place: "self_ident r' = q \<and> sector_idx r' = sidx" if "?rg2 q = Some r'" for q r'
      using that rg(1) b(5,6) by (cases "q = p") (auto simp: in_place_def)
    show ?thesis
      using store_phase[where rg = ?rg2 and dr = ?dr2 and qs = "ranks n" and b = "[]", OF place newer subset_refl distinct_ranks]
      unfolding all lv by simp
  qed
  also have "\<dots> = propagate_all_messages iter chk (slots (?rg3(p \<mapsto> completed (begin_write x r))) ?dr2 n [] ?as)"
    using ack_phase[OF p, where rg = ?rg3 and r = "begin_write x r" and b = "[]" and ls = "left rg (ranks n)"] b(1-4) c maj
    by (simp add: left_def distinct_ranks)
  also have "?rg3(p \<mapsto> completed (begin_write x r)) = ?rg4" using c by (auto simp: fun_eq_iff)
  finally show ?thesis by (simp only: propagate_done c fst_conv snd_conv)
qed

section \<open>Requests, one after the other\<close>

text \<open>Taking the registers of the given ranks out of their slots.\<close>

definition crash_registers :: "u8 set \<Rightarrow> 'cb test_cluster \<Rightarrow> 'cb test_cluster" where
  "crash_registers dead ts = ts\<lparr>test_registers :=
     map (\<lambda>i. if of_nat (Suc i) \<in> dead then None else test_registers ts ! i) [0..<length (test_registers ts)]\<rparr>"

text \<open>A request to the register of one rank, the crashes that follow it, and the loop.\<close>

record 'cb test_request =
  tr_uuid :: Uuid
  tr_rank :: u8
  tr_command :: ClientRegisterCommand
  tr_callback :: 'cb
  tr_dead :: "u8 set"

definition serve ::
    "(readlist_map \<Rightarrow> readlist_map) \<Rightarrow> bool \<Rightarrow> 'cb test_request \<Rightarrow> 'cb test_cluster \<Rightarrow> 'cb test_cluster res option" where
  "serve iter chk q ts =
     (case send_client_cmd chk (tr_uuid q) (unat (tr_rank q) - Suc 0) (tr_command q) (tr_callback q) ts of
        Ok ts1 \<Rightarrow> propagate_all_messages iter chk (crash_registers (tr_dead q) ts1)
      | Err e \<Rightarrow> Some (Err e)
      | Panic p \<Rightarrow> Some (Panic p))"

fun session ::
    "(readlist_map \<Rightarrow> readlist_map) \<Rightarrow> bool \<Rightarrow> 'cb test_request list \<Rightarrow> 'cb test_cluster \<Rightarrow> 'cb test_cluster res option" where
  "session iter chk [] ts = Some (Ok ts)"
| "session iter chk (q # qs) ts =
     (case serve iter chk q ts of Some (Ok ts') \<Rightarrow> session iter chk qs ts' | x \<Rightarrow> x)"

text \<open>What a sequential register that holds \<open>d\<close> answers.\<close>

fun sequential_answers :: "SectorVec \<Rightarrow> 'cb test_request list \<Rightarrow> ('cb \<times> OperationSuccess) list" where
  "sequential_answers d [] = []"
| "sequential_answers d (q # qs) =
     (tr_callback q, \<lparr>op_request_identifier = request_identifier (c_header (tr_command q)),
        op_return = (case c_content (tr_command q) of Read \<Rightarrow> OpRead \<lparr>read_data_ret = d\<rparr> | Write _ \<Rightarrow> OpWrite)\<rparr>) #
     sequential_answers (case c_content (tr_command q) of Read \<Rightarrow> d | Write d' \<Rightarrow> d') qs"

text \<open>Every request goes to a register that is left, and a majority survives the crashes.\<close>

fun admissible :: "u8 \<Rightarrow> u8 set \<Rightarrow> 'cb test_request list \<Rightarrow> bool" where
  "admissible n alive [] = True"
| "admissible n alive (q # qs) =
     (tr_rank q \<in> alive - tr_dead q \<and> unat n div 2 < card (alive - tr_dead q) \<and> admissible n (alive - tr_dead q) qs)"

definition quiet :: "u8 \<Rightarrow> SectorIdx \<Rightarrow> reading_entry \<Rightarrow> (u8 \<Rightarrow> 'cb AtomicRegisterState option) \<Rightarrow> bool" where
  "quiet n sidx x rg \<longleftrightarrow> in_place n sidx rg \<and> stores_all x rg \<and> (\<forall>q r. rg q = Some r \<longrightarrow> idle r)"

lemma crash_slots:
  "crash_registers dead (slots rg dr n b as) = slots (rg |` (- dead)) dr n b as"
proof -
  have rank: "of_nat (Suc i) = ranks n ! i" if "i < unat n" for i
    using that by (simp add: ranks_def nth_upt del: upt_Suc)
  have "map (\<lambda>i. if of_nat (Suc i) \<in> dead then None else map rg (ranks n) ! i) [0..<length (map rg (ranks n))] =
      map (rg |` (- dead)) (ranks n)"
    by (rule nth_equalityI) (simp_all add: length_ranks rank restrict_map_def del: of_nat_Suc)
  then show ?thesis by (simp only: crash_registers_def slots_def test_cluster.simps)
qed

lemma length_left: "dom rg \<subseteq> set (ranks n) \<Longrightarrow> length (left rg (ranks n)) = card (dom rg)"
  unfolding left_def by (subst distinct_card[symmetric]) (auto simp: distinct_ranks dom_def intro!: arg_cong[of _ _ card])

definition requested :: "'cb test_request \<Rightarrow> 'cb AtomicRegisterState \<Rightarrow> 'cb AtomicRegisterState" where
  "requested q r = fst (client_command (tr_uuid q) (tr_command q) (tr_callback q) r)"

lemma send_slots:
  assumes "in_place n sidx rg" and "rg (tr_rank q) = Some r"
  shows "send_client_cmd chk (tr_uuid q) (unat (tr_rank q) - Suc 0) (tr_command q) (tr_callback q) (slots rg dr n [] as) =
    Ok (slots (rg(tr_rank q \<mapsto> requested q r)) dr n
      (map (\<lambda>p. (p, from_proc (c_sector_idx (c_header (tr_command q))) (tr_uuid q) ReadProc (tr_rank q))) (ranks n)) as)"
proof -
  from assms have p: "tr_rank q \<in> set (ranks n)" "self_ident r = tr_rank q" by (auto simp: in_place_def)
  have "send_client_cmd chk (tr_uuid q) (unat (tr_rank q) - Suc 0) (tr_command q) (tr_callback q) (slots rg dr n [] as) =
      test_effects chk [Broadcast (msg r (tr_uuid q) (c_sector_idx (c_header (tr_command q))) ReadProc)]
        (slots (rg(tr_rank q \<mapsto> requested q r)) dr n [] as)"
    using slot_index[OF p(1)] assms(2)
    by (simp add: send_client_cmd_def slots_def requested_def client_command_eq slot_index(3)[OF p(1)])
  then show ?thesis by (simp add: effects_slots p(2))
qed

lemma requested_facts:
  assumes "reg_inv r" "idle r" "self_ident r = tr_rank q" "processes_count r = n" "sector_idx r = sidx"
    "(ar_ts r, ar_wr r, ar_val r) = x" "fst x \<noteq> - 1"
  shows "waits_for_values n sidx (tr_rank q) (tr_uuid q) x (requested q r)" "readlist (requested q r) = []"
    "callback (requested q r) = Some (tr_callback q)" "rid (requested q r) = Some (request_identifier (c_header (tr_command q)))"
    "(ar_ts (requested q r), ar_wr (requested q r), ar_val (requested q r)) = x"
    "reading (requested q r) \<longleftrightarrow> c_content (tr_command q) = Read"
    "c_content (tr_command q) = Write d \<Longrightarrow> writeval (requested q r) = d"
proof -
  have inv: "reg_inv (requested q r)"
    using client_command_inv[OF assms(1,2)] unfolding requested_def by (metis prod.collapse)
  show "waits_for_values n sidx (tr_rank q) (tr_uuid q) x (requested q r)"
    using inv assms idle_write_phase[OF assms(1,2)]
    by (auto simp: waits_for_values_def requested_def client_command_eq split: ClientRegisterCommandContent.splits)
  show "readlist (requested q r) = []"
    "callback (requested q r) = Some (tr_callback q)" "rid (requested q r) = Some (request_identifier (c_header (tr_command q)))"
    "(ar_ts (requested q r), ar_wr (requested q r), ar_val (requested q r)) = x"
    "reading (requested q r) \<longleftrightarrow> c_content (tr_command q) = Read"
    "c_content (tr_command q) = Write d \<Longrightarrow> writeval (requested q r) = d"
    using assms by (auto simp: requested_def client_command_eq split: ClientRegisterCommandContent.splits)
qed

definition next_entry :: "'cb test_request \<Rightarrow> reading_entry \<Rightarrow> reading_entry" where
  "next_entry q x = (case c_content (tr_command q) of Read \<Rightarrow> x | Write d \<Rightarrow> (fst x + 1, tr_rank q, d))"

lemma store_newer_facts:
  "self_ident (store_newer x r) = self_ident r" "processes_count (store_newer x r) = processes_count r"
  "sector_idx (store_newer x r) = sector_idx r" "reg_inv (store_newer x r) = reg_inv r"
  "reading (store_newer x r) = reading r" "writing (store_newer x r) = writing r"
  by (simp_all add: store_newer_def reg_inv_versions split: prod.split)

lemma store_newer_entry:
  assumes "(ar_ts r, ar_wr r, ar_val r) = x" and "y = x \<or> (fst x, fst (snd x)) < (fst y, fst (snd y))"
  shows "(ar_ts (store_newer y r), ar_wr (store_newer y r), ar_val (store_newer y r)) = y"
  using assms by (cases y) (auto simp: store_newer_def simp del: less_prod_simp)

lemma quiet_after:
  assumes rg: "in_place n sidx rg" "stores_all x rg" "\<And>q r. q \<noteq> p \<Longrightarrow> rg q = Some r \<Longrightarrow> idle r" "rg p = Some r"
    and r: "waits_for_values n sidx p u x r" "callback r = Some cb" "rid r = Some i"
  shows "quiet n sidx (chosen x r) ((map_option (store_newer (chosen x r)) \<circ> rg)(p \<mapsto> completed (begin_write x r)))"
    (is "quiet n sidx ?y ?rg")
proof -
  note b = begin_write_facts[OF r] and c = completed_facts[OF begin_write_facts(1)[OF r]]
  have place: "p \<in> set (ranks n)" using rg(1,4) by (simp add: in_place_def)
  have n: "processes_count (begin_write x r) = n" using b(1) by (simp add: waits_for_acks_def)
  have y: "?y = x \<or> (fst x, fst (snd x)) < (fst ?y, fst (snd ?y))" using chosen_newer[OF r(1)] by blast
  have "q \<in> set (ranks n) \<and> self_ident r' = q \<and> processes_count r' = n \<and> sector_idx r' = sidx \<and> reg_inv r' \<and>
      (ar_ts r', ar_wr r', ar_val r') = ?y \<and> idle r'" if "?rg q = Some r'" for q r'
  proof (cases "q = p")
    case True
    with that have "r' = completed (begin_write x r)" by simp
    with True place n b c show ?thesis by simp
  next
    case False
    with that obtain r0 where r0: "rg q = Some r0" "r' = store_newer ?y r0" by auto
    with rg(1,2) have "q \<in> set (ranks n)" "self_ident r0 = q" "processes_count r0 = n" "sector_idx r0 = sidx" "reg_inv r0"
        "(ar_ts r0, ar_wr r0, ar_val r0) = x" by (simp_all add: in_place_def stores_all_def)
    with r0 rg(3)[OF False r0(1)] store_newer_entry[OF _ y] show ?thesis by (simp add: store_newer_facts)
  qed
  then show ?thesis unfolding quiet_def in_place_def stores_all_def by blast
qed

definition after_request :: "'cb test_request \<Rightarrow> 'cb AtomicRegisterState \<Rightarrow> (u8 \<Rightarrow> 'cb AtomicRegisterState option) \<Rightarrow>
    (u8 \<Rightarrow> 'cb AtomicRegisterState option)" where
  "after_request q r rg = (rg(tr_rank q \<mapsto> requested q r)) |` (- tr_dead q)"

lemma request_sent:
  assumes rg: "quiet n sidx x rg" and p: "tr_rank q \<notin> tr_dead q" and r: "rg (tr_rank q) = Some r" and t: "fst x \<noteq> - 1"
  shows "waits_for_values n sidx (tr_rank q) (tr_uuid q) x (requested q r)"
    and "in_place n sidx (after_request q r rg)" "stores_all x (after_request q r rg)"
    and "after_request q r rg (tr_rank q) = Some (requested q r)" "dom (after_request q r rg) = dom rg - tr_dead q"
    and "p \<noteq> tr_rank q \<Longrightarrow> after_request q r rg p = Some r' \<Longrightarrow> idle r'"
    and "length (left (after_request q r rg) (ranks n)) = card (dom rg - tr_dead q)"
    and "serve iter chk q (slots rg dr n [] as) =
      propagate_all_messages iter chk (slots (after_request q r rg) dr n
        (map (\<lambda>p. (p, from_proc (c_sector_idx (c_header (tr_command q))) (tr_uuid q) ReadProc (tr_rank q))) (ranks n)) as)"
proof -
  from rg r have r0: "reg_inv r" "idle r" "self_ident r = tr_rank q" "processes_count r = n" "sector_idx r = sidx"
      "(ar_ts r, ar_wr r, ar_val r) = x" and pl: "tr_rank q \<in> set (ranks n)" and inp: "in_place n sidx rg"
    by (auto simp: quiet_def in_place_def stores_all_def)
  note f = requested_facts[OF r0 t]
  show "waits_for_values n sidx (tr_rank q) (tr_uuid q) x (requested q r)" by (rule f(1))
  show own: "after_request q r rg (tr_rank q) = Some (requested q r)" "dom (after_request q r rg) = dom rg - tr_dead q"
    using p r by (auto simp: after_request_def restrict_map_def split: if_splits)
  have old: "rg p = Some r'" if "after_request q r rg p = Some r'" "p \<noteq> tr_rank q" for p r'
    using that by (auto simp: after_request_def restrict_map_def split: if_splits)
  with rg show "p \<noteq> tr_rank q \<Longrightarrow> after_request q r rg p = Some r' \<Longrightarrow> idle r'"
    unfolding quiet_def by blast
  have "p \<in> set (ranks n) \<and> self_ident r' = p \<and> processes_count r' = n \<and> sector_idx r' = sidx \<and> reg_inv r' \<and>
      (ar_ts r', ar_wr r', ar_val r') = x" if "after_request q r rg p = Some r'" for p r'
  proof (cases "p = tr_rank q")
    case True
    with that own(1) f(1) pl show ?thesis by (simp add: waits_for_values_def)
  next
    case False
    from old[OF that this] rg show ?thesis by (simp add: quiet_def in_place_def stores_all_def)
  qed
  then show place: "in_place n sidx (after_request q r rg)" "stores_all x (after_request q r rg)"
    unfolding in_place_def stores_all_def by blast+
  have "dom (after_request q r rg) \<subseteq> set (ranks n)" using place(1) by (auto simp: in_place_def)
  then show "length (left (after_request q r rg) (ranks n)) = card (dom rg - tr_dead q)" by (simp add: length_left own(2))
  show "serve iter chk q (slots rg dr n [] as) =
      propagate_all_messages iter chk (slots (after_request q r rg) dr n
        (map (\<lambda>p. (p, from_proc (c_sector_idx (c_header (tr_command q))) (tr_uuid q) ReadProc (tr_rank q))) (ranks n)) as)"
    by (simp add: serve_def send_slots[OF inp r] crash_slots after_request_def)
qed

lemma serve_majority:
  assumes iter: "iterates iter" and rg: "quiet n sidx x rg" and p: "tr_rank q \<in> dom rg - tr_dead q"
    and maj: "unat n div 2 < card (dom rg - tr_dead q)" and t: "fst x \<noteq> - 1"
  shows "\<exists>rg' dr'. serve iter chk q (slots rg dr n [] as) = Some (Ok (slots rg' dr' n []
      (as @ [(tr_callback q, \<lparr>op_request_identifier = request_identifier (c_header (tr_command q)),
         op_return = (case c_content (tr_command q) of Read \<Rightarrow> OpRead \<lparr>read_data_ret = snd (snd x)\<rparr> | Write _ \<Rightarrow> OpWrite)\<rparr>)]))) \<and>
    quiet n sidx (next_entry q x) rg' \<and> dom rg' = dom rg - tr_dead q \<and>
    dr' = (case c_content (tr_command q) of Read \<Rightarrow> dr | Write d \<Rightarrow> dr(sidx \<mapsto> (d, fst x + 1, tr_rank q)))"
proof -
  from p obtain r where r: "rg (tr_rank q) = Some r" by blast
  from rg r have r0: "reg_inv r" "idle r" "self_ident r = tr_rank q" "processes_count r = n" "sector_idx r = sidx"
      "(ar_ts r, ar_wr r, ar_val r) = x" and pl: "tr_rank q \<in> set (ranks n)"
    by (auto simp: quiet_def in_place_def stores_all_def)
  from p have alive: "tr_rank q \<notin> tr_dead q" by simp
  note f = requested_facts[OF r0 t] and sent = request_sent[OF rg alive r t]
  have m: "unat n div 2 < length (left (after_request q r rg) (ranks n))" using maj by (simp add: sent(7))
  have entry: "chosen x (requested q r) = next_entry q x"
    using f r0(3) by (cases "c_content (tr_command q)") (auto simp: chosen_def next_entry_def waits_for_values_def)
  note op = operation_completes[OF iter pl sent(2-4) f(1-4) m,
      where chk = chk and dr = dr and as = as and j = "c_sector_idx (c_header (tr_command q))"]
  let ?rg' = "(map_option (store_newer (next_entry q x)) \<circ> after_request q r rg)(tr_rank q \<mapsto> completed (begin_write x (requested q r)))"
  have ret: "(if reading (requested q r) then OpRead \<lparr>read_data_ret = snd (snd x)\<rparr> else OpWrite) =
      (case c_content (tr_command q) of Read \<Rightarrow> OpRead \<lparr>read_data_ret = snd (snd x)\<rparr> | Write _ \<Rightarrow> OpWrite)"
    by (cases "c_content (tr_command q)") (simp_all add: f(6))
  have dr: "(if reading (requested q r) then dr else
        dr(sidx \<mapsto> (snd (snd (next_entry q x)), fst (next_entry q x), fst (snd (next_entry q x))))) =
      (case c_content (tr_command q) of Read \<Rightarrow> dr | Write d \<Rightarrow> dr(sidx \<mapsto> (d, fst x + 1, tr_rank q)))"
    by (cases "c_content (tr_command q)") (simp_all add: f(6) next_entry_def)
  have "dom ?rg' = dom rg - tr_dead q" using sent(4,5) by auto
  moreover have "quiet n sidx (next_entry q x) ?rg'"
    by (rule quiet_after[OF sent(2,3) _ sent(4) f(1,3,4), unfolded entry]) (rule sent(6))
  ultimately show ?thesis
    unfolding sent(8) op entry ret dr by blast
qed

lemma session_sequential:
  assumes iter: "iterates iter"
  shows "quiet n sidx x rg \<Longrightarrow> admissible n (dom rg) qs \<Longrightarrow> unat (fst x) + length qs < 2 ^ 64 \<Longrightarrow>
    \<exists>rg' dr' x'. session iter chk qs (slots rg dr n [] as) =
      Some (Ok (slots rg' dr' n [] (as @ sequential_answers (snd (snd x)) qs))) \<and> quiet n sidx x' rg'"
proof (induction qs arbitrary: x rg dr as)
  case (Cons q qs)
  have t: "fst x \<noteq> - 1" using Cons.prems(3) by (auto simp: unsigned_minus_1_eq_mask mask_eq_exp_minus_1)
  from Cons.prems(2) have adm: "tr_rank q \<in> dom rg - tr_dead q" "unat n div 2 < card (dom rg - tr_dead q)"
      "admissible n (dom rg - tr_dead q) qs" by simp_all
  let ?ret = "case c_content (tr_command q) of Read \<Rightarrow> OpRead \<lparr>read_data_ret = snd (snd x)\<rparr> | Write _ \<Rightarrow> OpWrite"
  let ?as = "as @ [(tr_callback q, \<lparr>op_request_identifier = request_identifier (c_header (tr_command q)), op_return = ?ret\<rparr>)]"
  obtain rg1 dr1 where one: "serve iter chk q (slots rg dr n [] as) = Some (Ok (slots rg1 dr1 n [] ?as))"
      "quiet n sidx (next_entry q x) rg1" "dom rg1 = dom rg - tr_dead q"
    using serve_majority[OF iter Cons.prems(1) adm(1,2) t, where chk = chk and dr = dr and as = as] by blast
  have "unat (fst x + 1) \<le> unat (fst x) + 1" by (simp add: unat_word_ariths(1))
  then have "unat (fst (next_entry q x)) \<le> unat (fst x) + 1"
    by (cases "c_content (tr_command q)") (simp_all add: next_entry_def)
  with Cons.prems(3) have small: "unat (fst (next_entry q x)) + length qs < 2 ^ 64" by simp
  have d: "snd (snd (next_entry q x)) = (case c_content (tr_command q) of Read \<Rightarrow> snd (snd x) | Write d' \<Rightarrow> d')"
    by (cases "c_content (tr_command q)") (simp_all add: next_entry_def)
  from Cons.IH[OF one(2) _ small, of dr1 ?as] adm(3) one(3) obtain rg' dr' x' where
    "session iter chk qs (slots rg1 dr1 n [] ?as) = Some (Ok (slots rg' dr' n [] (?as @ sequential_answers (snd (snd (next_entry q x))) qs)))"
    "quiet n sidx x' rg'" by auto
  with one(1) d show ?case by (intro exI[of _ rg'] exI[of _ dr'] exI[of _ x']) simp
qed auto

text \<open>Newly built registers.\<close>

lemma build_registers_from_eq:
  assumes "ram_read_data sidx drive = Ok v" and "ram_read_metadata sidx drive = (t, w)"
  shows "\<forall>q \<in> set ids. unat q < 255 \<Longrightarrow>
    build_registers_from chk sidx n drive ids = Ok (map (\<lambda>q. Some (ar_new (q + 1) sidx n t w v)) ids)"
  by (induction ids) (simp_all add: checked_add_u8 build_atomic_register_def assms)

lemma build_registers_eq:
  assumes "ram_read_data sidx drive = Ok v" and "ram_read_metadata sidx drive = (t, w)"
  shows "build_registers chk sidx n drive = Ok (map (\<lambda>q. Some (ar_new q sidx n t w v)) (ranks n))"
proof -
  have "\<forall>q \<in> set (map of_nat [0..<unat n]). unat (q :: u8) < 255"
    using unat_u8_less[of n] by (auto simp: unat_of_nat_u8)
  from build_registers_from_eq[OF assms this] show ?thesis
    unfolding build_registers_def ranks_shift by (simp add: comp_def)
qed

definition test_start :: "u8 \<Rightarrow> RamDrive \<Rightarrow> 'cb AtomicRegisterState option list \<Rightarrow> 'cb test_cluster" where
  "test_start n drive rs = \<lparr>test_registers = rs, test_drive = drive,
     test_client = \<lparr>bc_processes_count = n, buffer = []\<rparr>, test_answers = []\<rparr>"

lemma built_quiet:
  assumes "build_registers chk sidx n drive = Ok rs" and "ram_inv drive"
  obtains rg t w v where "test_start n drive rs = slots rg drive n [] []" "quiet n sidx (t, w, v) rg" "dom rg = set (ranks n)"
    "ram_read_metadata sidx drive = (t, w)" "ram_read_data sidx drive = Ok v"
proof -
  obtain v where v: "ram_read_data sidx drive = Ok v" using ram_read_ok[OF assms(2)] by blast
  obtain t w where tw: "ram_read_metadata sidx drive = (t, w)" by fastforce
  let ?rg = "\<lambda>q. if q \<in> set (ranks n) then Some (ar_new q sidx n t w v) else None"
  have "rs = map ?rg (ranks n)" using assms(1) by (auto simp: build_registers_eq[OF v tw])
  then have "test_start n drive rs = slots ?rg drive n [] []" by (simp add: test_start_def slots_def)
  moreover have "quiet n sidx (t, w, v) ?rg"
    by (simp add: quiet_def in_place_def stores_all_def ar_new_inv) (simp add: ar_new_def)
  ultimately show thesis using v tw by (intro that[of ?rg t w v]) (auto split: if_splits)
qed

text \<open>Without a majority the register keeps waiting for values.\<close>

lemma serve_minority:
  assumes rg: "quiet n sidx x rg" and p: "tr_rank q \<in> dom rg - tr_dead q"
    and few: "\<not> unat n div 2 < card (dom rg - tr_dead q)" and t: "fst x \<noteq> - 1"
  shows "\<exists>rg'. serve iter chk q (slots rg dr n [] as) = Some (Ok (slots rg' dr n [] as))"
proof -
  from p obtain r where r: "rg (tr_rank q) = Some r" and alive: "tr_rank q \<notin> tr_dead q" by blast
  from rg r have pl: "tr_rank q \<in> set (ranks n)" by (simp add: quiet_def in_place_def)
  note sent = request_sent[OF rg alive r t]
  have nil: "readlist (requested q r) = []"
    by (simp add: requested_def client_command_eq split: ClientRegisterCommandContent.split)
  obtain ts ws vs where x: "x = (ts, ws, vs)" by (cases x)
  let ?rg = "after_request q r rg" and ?i = "c_sector_idx (c_header (tr_command q))"
  have "serve iter chk q (slots rg dr n [] as) = propagate_all_messages iter chk
      (slots ?rg dr n (map (\<lambda>p. (tr_rank q, from_proc ?i (tr_uuid q) (Value ts ws vs) p)) (left ?rg (ranks n))) as)"
    unfolding sent(8) using read_phase[OF sent(2) sent(3)[unfolded x] subset_refl, where b = "[]"] by simp
  moreover have "\<exists>r'. waits_for_values n sidx (tr_rank q) (tr_uuid q) (ts, ws, vs) r' \<and>
      propagate_all_messages iter chk
        (slots ?rg dr n (map (\<lambda>p. (tr_rank q, from_proc ?i (tr_uuid q) (Value ts ws vs) p)) (left ?rg (ranks n)) @ []) as) =
      propagate_all_messages iter chk (slots (?rg(tr_rank q \<mapsto> r')) dr n [] as)"
    by (rule value_phase_short[OF pl, where rg = ?rg, OF sent(4) sent(1)[unfolded x]])
      (simp_all add: nil sent(7) few, simp add: left_def distinct_ranks)
  ultimately show ?thesis by (auto simp: propagate_done)
qed

section \<open>Properties\<close>

text \<open>
  C20. \<open>propagate_all_messages\<close> ends for every state of the registers and of the buffer, whatever
  messages are in it; unless a handler panics the buffer is empty then. Each message is worth more
  than all messages its handler may add to the buffer.
\<close>

theorem propagate_terminates:
  "\<exists>x. propagate_all_messages iter chk ts = Some x \<and>
     (case x of Ok ts' \<Rightarrow> buffer (test_client ts') = [] | _ \<Rightarrow> True)"
proof (induction "buffer_weight (test_client ts)" arbitrary: ts rule: less_induct)
  case less
  show ?case
  proof (cases "buffer (test_client ts)")
    case Nil
    then show ?thesis by (subst propagate_all_messages.simps) simp
  next
    case (Cons m ms)
    let ?ts = "ts\<lparr>test_client := (test_client ts)\<lparr>buffer := ms\<rparr>\<rparr>"
    show ?thesis
    proof (cases "deliver_message iter chk m ?ts")
      case (Ok ts')
      from deliver_weight[OF Ok] Cons have "buffer_weight (test_client ts') < buffer_weight (test_client ts)"
        by (simp add: buffer_weight_def)
      from less[OF this] Ok Cons show ?thesis by (subst propagate_all_messages.simps) simp
    qed (use Cons in \<open>subst propagate_all_messages.simps; simp\<close>)+
  qed
qed

text \<open>
  C3. Any number of reads and writes, sent one after the other to any registers built by
  \<open>build_registers\<close> on one drive, is answered as by a single sequential register that starts
  with the sector of the drive, each request exactly once and in order, although before each
  propagation any registers but the one addressed may crash, as long as a majority is left.
\<close>

theorem session_is_sequential:
  assumes "iterates iter" and "ram_inv drive" and "build_registers chk sidx n drive = Ok rs"
    and "ram_read_data sidx drive = Ok d" and "admissible n (set (ranks n)) qs"
    and "unat (fst (ram_read_metadata sidx drive)) + length qs < 2 ^ 64"
  shows "\<exists>ts. session iter chk qs (test_start n drive rs) = Some (Ok ts) \<and>
    test_answers ts = sequential_answers d qs \<and> buffer (test_client ts) = []"
proof (rule built_quiet[OF assms(3,2)])
  fix rg t w v
  assume rg: "test_start n drive rs = slots rg drive n [] []" "quiet n sidx (t, w, v) rg" "dom rg = set (ranks n)"
    "ram_read_metadata sidx drive = (t, w)" "ram_read_data sidx drive = Ok v"
  with session_sequential[OF assms(1) rg(2), of qs chk drive "[]"] assms(4-6) show ?thesis
    by (auto simp: slots_def)
qed

definition sample_requests :: "nat test_request list" where
  "sample_requests =
     [\<lparr>tr_uuid = 1, tr_rank = 1, tr_command = \<lparr>c_header = \<lparr>request_identifier = 7, c_sector_idx = 2\<rparr>,
        c_content = Write (SectorVec (replicate 4096 200))\<rparr>, tr_callback = 0, tr_dead = {3}\<rparr>,
      \<lparr>tr_uuid = 2, tr_rank = 2, tr_command = \<lparr>c_header = \<lparr>request_identifier = 8, c_sector_idx = 2\<rparr>,
        c_content = Read\<rparr>, tr_callback = 1, tr_dead = {}\<rparr>]"

lemma ranks_of_3: "set (ranks 3) = {1, 2, 3}"
  by (simp add: ranks_def upt_rec)

lemma empty_drive:
  "ram_inv Map.empty" "ram_read_data sidx Map.empty = Ok (SectorVec (replicate 4096 0))"
  "ram_read_metadata sidx Map.empty = (0, 0)"
  by (simp_all add: ram_inv_def ram_read_data_def ram_read_metadata_def)

theorem session_is_sequential_witness:
  "\<exists>rs ts. build_registers True 2 3 Map.empty = Ok rs \<and>
     session id True sample_requests (test_start 3 Map.empty rs) = Some (Ok ts) \<and>
     test_answers ts = [(0, \<lparr>op_request_identifier = 7, op_return = OpWrite\<rparr>),
       (1, \<lparr>op_request_identifier = 8, op_return = OpRead \<lparr>read_data_ret = SectorVec (replicate 4096 200)\<rparr>\<rparr>)]"
proof -
  obtain rs where rs: "build_registers True 2 3 Map.empty = Ok (rs :: nat AtomicRegisterState option list)"
    using build_registers_eq[OF empty_drive(2,3)] by blast
  have dead: "{1, 2, 3 :: u8} - {3} = {1, 2}" by auto
  have "admissible 3 (set (ranks 3)) sample_requests" by (simp add: sample_requests_def ranks_of_3 dead)
  from session_is_sequential[OF iterates_id(1) empty_drive(1) rs empty_drive(2) this] rs show ?thesis
    by (auto simp: empty_drive sample_requests_def)
qed

text \<open>
  If no majority is left after the crashes, a request is not answered and nothing is
  written: the loop ends with no answer and an unchanged drive.
\<close>

theorem no_answer_without_majority:
  assumes "ram_inv drive" and "build_registers chk sidx n drive = Ok rs"
    and "tr_rank q \<in> set (ranks n) - tr_dead q" and "\<not> unat n div 2 < card (set (ranks n) - tr_dead q)"
    and "fst (ram_read_metadata sidx drive) \<noteq> - 1"
  shows "\<exists>ts. serve iter chk q (test_start n drive rs) = Some (Ok ts) \<and> test_answers ts = [] \<and> test_drive ts = drive"
proof (rule built_quiet[OF assms(2,1)])
  fix rg t w v
  assume rg: "test_start n drive rs = slots rg drive n [] []" "quiet n sidx (t, w, v) rg" "dom rg = set (ranks n)"
    "ram_read_metadata sidx drive = (t, w)" "ram_read_data sidx drive = Ok v"
  with serve_minority[OF rg(2), of q iter chk drive "[]"] assms(3-5) show ?thesis by (auto simp: slots_def)
qed

theorem no_answer_without_majority_witness:
  "\<exists>rs ts. build_registers True 2 3 Map.empty = Ok rs \<and>
     serve id True ((hd sample_requests)\<lparr>tr_dead := {2, 3}\<rparr>) (test_start 3 Map.empty rs) = Some (Ok ts) \<and>
     test_answers ts = [] \<and> ram_read_data 2 (test_drive ts) = Ok (SectorVec (replicate 4096 0))"
proof -
  obtain rs where rs: "build_registers True 2 3 Map.empty = Ok (rs :: nat AtomicRegisterState option list)"
    using build_registers_eq[OF empty_drive(2,3)] by blast
  let ?q = "(hd sample_requests)\<lparr>tr_dead := {2, 3}\<rparr>"
  have "{1, 2, 3 :: u8} - {2, 3} = {1}" by auto
  then have "tr_rank ?q \<in> set (ranks 3) - tr_dead ?q" "\<not> unat (3 :: u8) div 2 < card (set (ranks 3) - tr_dead ?q)"
    by (simp_all add: sample_requests_def ranks_of_3)
  from no_answer_without_majority[OF empty_drive(1) rs this, of id] rs show ?thesis by (auto simp: empty_drive)
qed

end
