(* ===== verification/Driver_Args.thy ===== *)
theory Driver_Args
  imports ATDD_Prelude
begin

text \<open>
  The parameters of the kernel module: \<^verbatim>\<open>src/driver/parse_args.c\<close> and the structures of
  \<^verbatim>\<open>src/driver/domain.h\<close>.

  A C string is the list of its characters without the final \<open>NUL\<close>. The functions return negative
  error numbers as in the code. What C leaves undefined is a value of its own: a \<open>fault\<close>. The
  functions \<open>in_aton\<close> and \<open>kstrtoint\<close> of the kernel are parameters, and so is whether an allocation
  succeeds.
\<close>

section \<open>Error numbers and faults\<close>

definition EIO :: int where "EIO = 5"
definition EAGAIN :: int where "EAGAIN = 11"
definition ENOMEM :: int where "ENOMEM = 12"
definition EINVAL :: int where "EINVAL = 22"
definition ENOSPC :: int where "ENOSPC = 28"
definition ECONNRESET :: int where "ECONNRESET = 104"
definition ERESTARTSYS :: int where "ERESTARTSYS = 512"

lemmas errnos = EIO_def EAGAIN_def ENOMEM_def EINVAL_def ENOSPC_def ECONNRESET_def ERESTARTSYS_def

datatype fault =
    OutOfBounds
  | Uninitialised
  | KernelBug

datatype 'a run = Done 'a | Fault fault

section \<open>Structures\<close>

type_synonym u32 = "32 word"

definition HMAC_KEY_SIZE :: nat where "HMAC_KEY_SIZE = 32"
definition MAX_PROCESSES :: nat where "MAX_PROCESSES = 32"

record tcp_addr_info =
  ip_addr :: u32
  port :: int

record atdd_client_config =
  atdd_addrs :: "tcp_addr_info list"
  addrs_count :: nat
  preferred_addr :: nat
  hmac_key :: bytes

section \<open>The key\<close>

definition ascii :: "char \<Rightarrow> int" where
  "ascii c = of_char c"

definition isxdigit :: "char \<Rightarrow> bool" where
  "isxdigit d \<longleftrightarrow> (48 \<le> ascii d \<and> ascii d \<le> 57) \<or> (65 \<le> ascii d \<and> ascii d \<le> 70) \<or> (97 \<le> ascii d \<and> ascii d \<le> 102)"

text \<open>A \<open>char\<close> is signed on the platforms the module is built for.\<close>

definition signed_char :: "char \<Rightarrow> int" where
  "signed_char c = (if ascii c < 128 then ascii c else ascii c - 256)"

definition hex_digit_to_int :: "char \<Rightarrow> int" where
  "hex_digit_to_int d =
     (if signed_char d \<le> ascii (CHR ''9'') then signed_char d - ascii (CHR ''0'')
      else if signed_char d \<le> ascii (CHR ''F'') then signed_char d - ascii (CHR ''A'') + 10
      else signed_char d - ascii (CHR ''a'') + 10)"

definition parse_hmac_key :: "bool \<Rightarrow> string \<Rightarrow> int + bytes" where
  "parse_hmac_key allocated hmac_key_desc =
     (if length hmac_key_desc \<noteq> HMAC_KEY_SIZE * 2 then Inl (- EINVAL)
      else if list_ex (\<lambda>i. \<not> isxdigit (hmac_key_desc ! i)) [0..<HMAC_KEY_SIZE * 2] then Inl (- EINVAL)
      else if \<not> allocated then Inl (- ENOMEM)
      else Inr (map (\<lambda>i. word_of_int (push_bit 4 (hex_digit_to_int (hmac_key_desc ! (2 * i))) +
                                      hex_digit_to_int (hmac_key_desc ! (2 * i + 1))))
                  [0..<HMAC_KEY_SIZE]))"

section \<open>The addresses\<close>

text \<open>
  The loop of \<open>parse_atdd_addrs\<close>. \<open>addrs\<close> are the entries filled so far, \<open>ip\<close> is the address
  of the next one once it is known (\<open>i = 1\<close> in the code), \<open>piece\<close> the characters between \<open>parse_begin\<close> and \<open>parse_end\<close>,
  and the last argument the characters from \<open>parse_end\<close> on. A write to an entry behind the end of
  the array on the stack is a fault.
\<close>

fun parse_addrs_from ::
    "(string \<Rightarrow> u32) \<Rightarrow> (string \<Rightarrow> int + int) \<Rightarrow> tcp_addr_info list \<Rightarrow> u32 option \<Rightarrow> string \<Rightarrow> string \<Rightarrow>
       (int + tcp_addr_info list) run" where
  "parse_addrs_from in_aton kstrtoint addrs None piece [] = Done (Inl (- EINVAL))"
| "parse_addrs_from in_aton kstrtoint addrs (Some ip) piece [] =
     (case kstrtoint piece of
        Inl err \<Rightarrow> Done (Inl err)
      | Inr p \<Rightarrow> Done (Inr (addrs @ [\<lparr>ip_addr = ip, port = p\<rparr>])))"
| "parse_addrs_from in_aton kstrtoint addrs None piece (c # cs) =
     (if c = CHR '':'' then
        if length addrs < MAX_PROCESSES
        then parse_addrs_from in_aton kstrtoint addrs (Some (in_aton piece)) [] cs
        else Fault OutOfBounds
      else if length addrs > MAX_PROCESSES then Done (Inl (- EINVAL))
      else parse_addrs_from in_aton kstrtoint addrs None (piece @ [c]) cs)"
| "parse_addrs_from in_aton kstrtoint addrs (Some ip) piece (c # cs) =
     (if c = CHR '','' then
        (case kstrtoint piece of
           Inl err \<Rightarrow> Done (Inl err)
         | Inr p \<Rightarrow> parse_addrs_from in_aton kstrtoint (addrs @ [\<lparr>ip_addr = ip, port = p\<rparr>]) None [] cs)
      else if length addrs > MAX_PROCESSES then Done (Inl (- EINVAL))
      else parse_addrs_from in_aton kstrtoint addrs (Some ip) (piece @ [c]) cs)"

definition parse_atdd_addrs ::
    "(string \<Rightarrow> u32) \<Rightarrow> (string \<Rightarrow> int + int) \<Rightarrow> bool \<Rightarrow> string \<Rightarrow> atdd_client_config \<Rightarrow>
       (int \<times> atdd_client_config) run" where
  "parse_atdd_addrs in_aton kstrtoint allocated atdd_addrs_desc config =
     (case parse_addrs_from in_aton kstrtoint [] None [] atdd_addrs_desc of
        Fault f \<Rightarrow> Fault f
      | Done (Inl err) \<Rightarrow> Done (err, config)
      | Done (Inr addrs) \<Rightarrow>
          let config = config\<lparr>addrs_count := length addrs\<rparr> in
          if allocated then Done (0, config\<lparr>atdd_addrs := addrs\<rparr>)
          else Done (- ENOMEM, config\<lparr>atdd_addrs := []\<rparr>))"

section \<open>Writing keys and address lists\<close>

definition hex_digit :: "bool \<Rightarrow> nat \<Rightarrow> char" where
  "hex_digit upper n = (if upper then ''0123456789ABCDEF'' else ''0123456789abcdef'') ! n"

fun hex :: "(nat \<Rightarrow> bool) \<Rightarrow> bytes \<Rightarrow> string" where
  "hex upper [] = []"
| "hex upper (b # bs) = hex_digit (upper 0) (unat b div 16) # hex_digit (upper 1) (unat b mod 16) #
     hex (\<lambda>i. upper (i + 2)) bs"

lemma hex_digits:
  assumes "n < 16"
  shows "isxdigit (hex_digit u n)" and "hex_digit_to_int (hex_digit u n) = int n"
proof -
  have "list_all (\<lambda>u. list_all (\<lambda>n. isxdigit (hex_digit u n) \<and> hex_digit_to_int (hex_digit u n) = int n) [0..<16]) [True, False]"
    by code_simp
  with assms show "isxdigit (hex_digit u n)" "hex_digit_to_int (hex_digit u n) = int n"
    by (cases u; auto simp: list_all_iff)+
qed

lemma length_hex [simp]: "length (hex u k) = 2 * length k"
  by (induction u k rule: hex.induct) auto

lemma hex_all: "c \<in> set (hex u k) \<Longrightarrow> isxdigit c"
proof (induction u k rule: hex.induct)
  case (2 u b bs)
  have "unat b div 16 < 16" using unsigned_less[of b, where 'a = nat] by simp
  with 2 show ?case by (auto simp: hex_digits)
qed simp

lemma hex_pair:
  "i < length k \<Longrightarrow>
     word_of_int (push_bit 4 (hex_digit_to_int (hex u k ! (2 * i))) + hex_digit_to_int (hex u k ! (2 * i + 1))) = k ! i"
proof (induction u k arbitrary: i rule: hex.induct)
  case (2 u b bs)
  show ?case
  proof (cases i)
    case 0
    have hi: "unat b div 16 < 16" using unsigned_less[of b, where 'a = nat] by simp
    have "unat b div 16 * 16 + unat b mod 16 = unat b" by simp
    then have "int (unat b div 16) * 16 + int (unat b mod 16) = uint b"
      by (metis of_nat_add of_nat_mult of_nat_numeral uint_nat)
    with 0 hi show ?thesis by (simp add: hex_digits push_bit_eq_mult)
  qed (use 2 in simp)
qed simp

fun addrs_desc :: "(string \<times> string) list \<Rightarrow> string" where
  "addrs_desc [] = []"
| "addrs_desc [(h, p)] = h @ CHR '':'' # p"
| "addrs_desc ((h, p) # a # as) = h @ CHR '':'' # p @ CHR '','' # addrs_desc (a # as)"

lemma parse_host:
  "CHR '':'' \<notin> set h \<Longrightarrow> length addrs \<le> MAX_PROCESSES \<Longrightarrow>
     parse_addrs_from ia ks addrs None piece (h @ CHR '':'' # cs) =
       (if length addrs < MAX_PROCESSES then parse_addrs_from ia ks addrs (Some (ia (piece @ h))) [] cs
        else Fault OutOfBounds)"
  by (induction h arbitrary: piece) auto

lemma parse_port:
  assumes "CHR '','' \<notin> set p" and "length addrs \<le> MAX_PROCESSES"
  shows "parse_addrs_from ia ks addrs (Some ip) piece (p @ CHR '','' # cs) =
           (case ks (piece @ p) of
              Inl err \<Rightarrow> Done (Inl err)
            | Inr n \<Rightarrow> parse_addrs_from ia ks (addrs @ [\<lparr>ip_addr = ip, port = n\<rparr>]) None [] cs)"
    and "parse_addrs_from ia ks addrs (Some ip) piece p =
           (case ks (piece @ p) of
              Inl err \<Rightarrow> Done (Inl err)
            | Inr n \<Rightarrow> Done (Inr (addrs @ [\<lparr>ip_addr = ip, port = n\<rparr>])))"
  using assms by (induction p arbitrary: piece) auto

definition clean_addr :: "string \<times> string \<Rightarrow> bool" where
  "clean_addr a \<longleftrightarrow> CHR '':'' \<notin> set (fst a) \<and> CHR '','' \<notin> set (snd a)"

lemma parse_addrs_desc:
  assumes "as \<noteq> []" and "list_all clean_addr as" and "\<And>h p. (h, p) \<in> set as \<Longrightarrow> ks p = Inr (n p)"
    and "length addrs \<le> MAX_PROCESSES"
  shows "parse_addrs_from ia ks addrs None [] (addrs_desc as) =
     (if length addrs + length as \<le> MAX_PROCESSES
      then Done (Inr (addrs @ map (\<lambda>(h, p). \<lparr>ip_addr = ia h, port = n p\<rparr>) as))
      else Fault OutOfBounds)"
  using assms
proof (induction as arbitrary: addrs rule: addrs_desc.induct)
  case (2 h p)
  then show ?case by (simp add: clean_addr_def parse_host parse_port)
next
  case (3 h p a as)
  show ?case
  proof (cases "length addrs < MAX_PROCESSES")
    case True
    let ?x = "\<lparr>ip_addr = ia h, port = n p\<rparr>"
    have p: "ks p = Inr (n p)" "clean_addr (h, p)" "list_all clean_addr (a # as)"
      using "3.prems"(2) "3.prems"(3)[of h p] by simp_all
    have "parse_addrs_from ia ks (addrs @ [?x]) None [] (addrs_desc (a # as)) =
        (if length (addrs @ [?x]) + length (a # as) \<le> MAX_PROCESSES
         then Done (Inr ((addrs @ [?x]) @ map (\<lambda>(h, p). \<lparr>ip_addr = ia h, port = n p\<rparr>) (a # as)))
         else Fault OutOfBounds)"
      by (rule "3.IH") (use "3.prems"(3) p True in \<open>auto\<close>)
    moreover have "parse_addrs_from ia ks addrs None [] (addrs_desc ((h, p) # a # as)) =
        parse_addrs_from ia ks (addrs @ [?x]) None [] (addrs_desc (a # as))"
      using p True by (simp add: clean_addr_def parse_host parse_port)
    ultimately show ?thesis by simp
  qed (use 3 in \<open>simp add: clean_addr_def parse_host\<close>)
qed simp

section \<open>Properties\<close>

lemma parse_hmac_key_hex:
  assumes "length k = 32"
  shows "parse_hmac_key True (hex upper k) = Inr k"
proof -
  have "\<not> list_ex (\<lambda>i. \<not> isxdigit (hex upper k ! i)) [0..<64]"
    using assms hex_all[of _ upper k] by (auto simp: list_ex_iff)
  moreover have "map (\<lambda>i. word_of_int (push_bit 4 (hex_digit_to_int (hex upper k ! (2 * i))) +
      hex_digit_to_int (hex upper k ! (2 * i + 1)))) [0..<32] = k"
    using assms hex_pair[of _ k upper] by (auto intro!: nth_equalityI)
  ultimately show ?thesis using assms by (simp add: parse_hmac_key_def HMAC_KEY_SIZE_def)
qed

text \<open>
  A key of 32 bytes, written as hexadecimal digits in any mixture of upper and lower case, is
  parsed to this key; every text that is not 64 hexadecimal digits is refused.
\<close>

theorem parse_hmac_key_roundtrip:
  assumes "length k = 32"
  shows "parse_hmac_key True (hex upper k) = Inr k \<and>
    (parse_hmac_key True s = Inl (- EINVAL) \<longleftrightarrow> \<not> (length s = 64 \<and> list_all isxdigit s))"
proof
  show "parse_hmac_key True (hex upper k) = Inr k" by (rule parse_hmac_key_hex[OF assms])
  show "parse_hmac_key True s = Inl (- EINVAL) \<longleftrightarrow> \<not> (length s = 64 \<and> list_all isxdigit s)"
    by (auto simp: parse_hmac_key_def HMAC_KEY_SIZE_def list_ex_iff list_all_length)
qed

theorem parse_hmac_key_roundtrip_witness:
  "length (replicate 32 (0xAA :: u8)) = 32 \<and>
   parse_hmac_key True (hex (\<lambda>_. False) (replicate 32 0xAA)) = Inr (replicate 32 0xAA) \<and>
   parse_hmac_key True ''xyz'' = Inl (- EINVAL)"
  using parse_hmac_key_roundtrip[of "replicate 32 0xAA" "\<lambda>_. False" "''xyz''"] by simp

text \<open>
  C34. A list of up to 32 addresses is parsed to exactly these addresses; a longer one makes the loop
  write behind the end of the array, before it reaches the test of the limit.
\<close>

theorem parse_addrs_up_to_limit:
  assumes "as \<noteq> []" and "list_all clean_addr as" and "\<And>h p. (h, p) \<in> set as \<Longrightarrow> kstrtoint p = Inr (n p)"
  shows "parse_atdd_addrs in_aton kstrtoint True (addrs_desc as) config =
     (if length as \<le> MAX_PROCESSES
      then Done (0, config\<lparr>addrs_count := length as,
                           atdd_addrs := map (\<lambda>(h, p). \<lparr>ip_addr = in_aton h, port = n p\<rparr>) as\<rparr>)
      else Fault OutOfBounds)"
  using parse_addrs_desc[where addrs = "[]" and ia = in_aton and n = n, OF assms] by (simp add: parse_atdd_addrs_def)

theorem parse_addrs_up_to_limit_witness:
  "addrs_desc [(''10.0.2.2'', ''8091'')] = ''10.0.2.2:8091'' \<and>
   parse_atdd_addrs (\<lambda>h. 7) (\<lambda>p. Inr (int (dec_value p))) True ''10.0.2.2:8091''
      \<lparr>atdd_addrs = [], addrs_count = 0, preferred_addr = 0, hmac_key = []\<rparr> =
     Done (0, \<lparr>atdd_addrs = [\<lparr>ip_addr = 7, port = 8091\<rparr>], addrs_count = 1, preferred_addr = 0, hmac_key = []\<rparr>) \<and>
   parse_atdd_addrs (\<lambda>h. 7) (\<lambda>p. Inr (int (dec_value p))) True (addrs_desc (replicate 33 (''10.0.2.2'', ''8091'')))
      \<lparr>atdd_addrs = [], addrs_count = 0, preferred_addr = 0, hmac_key = []\<rparr> = Fault OutOfBounds"
  using parse_addrs_up_to_limit[of "[(''10.0.2.2'', ''8091'')]" "\<lambda>p. Inr (int (dec_value p))" "\<lambda>p. int (dec_value p)" "\<lambda>h. 7"
      "\<lparr>atdd_addrs = [], addrs_count = 0, preferred_addr = 0, hmac_key = []\<rparr>"]
    parse_addrs_up_to_limit[of "replicate 33 (''10.0.2.2'', ''8091'')" "\<lambda>p. Inr (int (dec_value p))" "\<lambda>p. int (dec_value p)" "\<lambda>h. 7"
      "\<lparr>atdd_addrs = [], addrs_count = 0, preferred_addr = 0, hmac_key = []\<rparr>"]
  by (simp add: clean_addr_def MAX_PROCESSES_def dec_value_def list_all_iff)

end
