(* ===== verification/Driver_Client.thy ===== *)
theory Driver_Client
  imports Driver_Args Register_Process
begin

text \<open>
  The TCP client of the kernel module: \<^verbatim>\<open>src/driver/atdd_tcp_client.c\<close>, \<^verbatim>\<open>src/driver/tcp.c\<close> and
  \<^verbatim>\<open>src/driver/cmd.h\<close>. It encodes block requests as commands, keeps a connection to one of the
  processes, and decodes the answers.

  The socket layer and the crypto layer of the kernel are parameters: a record \<open>socket_api\<close> of
  operations on the state of a socket, and a function \<open>digest\<close> that returns an error number and a
  tag. \<open>send_spec\<close>, \<open>recv_spec\<close> and \<open>digest_spec\<close> state what the kernel documents. A result \<open>None\<close> is a
  loop that never ends (the socket functions retry for ever on \<open>EAGAIN\<close>), \<open>Some (Fault f)\<close> a fault.
\<close>

section \<open>Sockets\<close>

record sockaddr_in =
  sin_family :: nat
  sin_port :: bytes
  sin_addr :: u32

record 's socket_api =
  kernel_connect :: "'s \<Rightarrow> sockaddr_in \<Rightarrow> int \<times> 's"
  kernel_sendmsg :: "'s \<Rightarrow> bytes \<Rightarrow> int \<times> 's"
  kernel_recvmsg :: "'s \<Rightarrow> nat \<Rightarrow> int \<times> bytes \<times> 's"
  sock_renew :: "'s \<Rightarrow> 's"
  sk_has_data :: "'s \<Rightarrow> bool"

definition AF_INET :: nat where "AF_INET = 2"

definition tcp_connect :: "'s socket_api \<Rightarrow> 's \<Rightarrow> tcp_addr_info \<Rightarrow> int \<times> 's" where
  "tcp_connect api conn_socket target =
     kernel_connect api conn_socket
       \<lparr>sin_family = AF_INET, sin_port = to_be_bytes 2 (word_of_int (port target) :: 16 word),
        sin_addr = ip_addr target\<rparr>"

text \<open>
  The loop of \<open>tcp_send\<close> on the bytes that are left; \<open>len\<close> is the variable of this name, which has no
  value before the first call.
\<close>

partial_function (option) tcp_send_loop ::
    "'s socket_api \<Rightarrow> bytes \<Rightarrow> int option \<Rightarrow> 's \<Rightarrow> (int option \<times> 's) option" where
  "tcp_send_loop api data len s =
     (if data = [] then Some (len, s)
      else case kernel_sendmsg api s data of (n, s') \<Rightarrow>
        if n \<ge> 0 then tcp_send_loop api (drop (nat n) data) (Some n) s'
        else if n \<noteq> - ERESTARTSYS \<and> n \<noteq> - EAGAIN then Some (Some n, s')
        else tcp_send_loop api data (Some n) s')"

definition tcp_send :: "'s socket_api \<Rightarrow> 's \<Rightarrow> bytes \<Rightarrow> (int \<times> 's) run option" where
  "tcp_send api s data =
     (case tcp_send_loop api data None s of
        None \<Rightarrow> None
      | Some (None, s') \<Rightarrow> Some (Fault Uninitialised)
      | Some (Some len, s') \<Rightarrow> Some (Done (if len < 0 then len else 0, s')))"

text \<open>
  The loop of \<open>tcp_read\<close>, which returns the bytes still missing, those read, and \<open>res\<close>. The first
  value of \<open>res\<close> does not matter, it is read only after an iteration.
\<close>

partial_function (option) tcp_read_loop ::
    "'s socket_api \<Rightarrow> int \<Rightarrow> bytes \<Rightarrow> int \<Rightarrow> 's \<Rightarrow> (int \<times> bytes \<times> int \<times> 's) option" where
  "tcp_read_loop api missing buf res s =
     (if missing \<le> 0 then Some (missing, buf, res, s)
      else case kernel_recvmsg api s (nat missing) of (r, b, s') \<Rightarrow>
        if r > 0 then tcp_read_loop api (missing - r) (buf @ b) r s'
        else if r \<noteq> - ERESTARTSYS \<and> r \<noteq> - EAGAIN then Some (missing, buf, r, s')
        else tcp_read_loop api missing buf r s')"

definition tcp_read :: "'s socket_api \<Rightarrow> 's \<Rightarrow> nat \<Rightarrow> (int \<times> bytes \<times> 's) option" where
  "tcp_read api s n =
     (case tcp_read_loop api (int n) [] 0 s of
        None \<Rightarrow> None
      | Some (missing, buf, res, s') \<Rightarrow>
          Some (if missing = 0 then 0 else if res = 0 then - ECONNRESET else res, buf, s'))"

section \<open>State of the client\<close>

definition ATDD_MAGIC :: bytes where "ATDD_MAGIC = [0x61, 0x74, 0x64, 0x64]"
definition SECTOR_SIZE :: nat where "SECTOR_SIZE = 4096"
definition HMAC_TAG_SIZE :: nat where "HMAC_TAG_SIZE = 32"
definition ATDD_RESPONSE_HEADER_SIZE :: nat where "ATDD_RESPONSE_HEADER_SIZE = 16"
definition MIN_RESPONSE_SIZE :: nat where "MIN_RESPONSE_SIZE = ATDD_RESPONSE_HEADER_SIZE + HMAC_TAG_SIZE"
definition MAX_RESPONSE_SIZE :: nat where "MAX_RESPONSE_SIZE = MIN_RESPONSE_SIZE + SECTOR_SIZE"
definition MAX_CMD_SIZE :: nat where "MAX_CMD_SIZE = 24 + HMAC_TAG_SIZE + SECTOR_SIZE"
definition SEND_BUF_POS_START :: nat where "SEND_BUF_POS_START = 7"
definition READ_CMD :: u8 where "READ_CMD = 1"
definition WRITE_CMD :: u8 where "WRITE_CMD = 2"

lemmas driver_sizes = SECTOR_SIZE_def HMAC_TAG_SIZE_def ATDD_RESPONSE_HEADER_SIZE_def MIN_RESPONSE_SIZE_def
  MAX_RESPONSE_SIZE_def MAX_CMD_SIZE_def SEND_BUF_POS_START_def READ_CMD_def WRITE_CMD_def

datatype driver_status = OK | AUTH_FAILURE | INVALID_SECTOR_INDEX

record atdd_cmd_return =
  ret_ident :: u64
  ret_data :: bytes
  rcode :: driver_status

record atdd_cmd_parse =
  parse_st :: driver_status
  parse_ident :: u64
  parse_completed :: bool

record pending_buf =
  cmds :: "u64 list"
  completed_pos :: u8
  accepted_pos :: u8

record 's atdd_tcp_client =
  client_config :: atdd_client_config
  sock :: 's
  connection_target :: nat
  connected :: bool
  client_error :: bool
  send_buf :: bytes
  send_buf_pos :: nat
  pending_cmds :: pending_buf
  parse_buf :: bytes
  parse_buf_pos :: nat
  parse_state :: atdd_cmd_parse

text \<open>
  A block request: its address, its direction (1 is a write), its position in units of 512 bytes,
  and the memory of its only segment.
\<close>

record request =
  rq_addr :: nat
  rq_data_dir :: int
  blk_rq_pos :: u64
  bio_data :: bytes

text \<open>\<open>memcpy\<close> into a buffer.\<close>

definition write_at :: "nat \<Rightarrow> bytes \<Rightarrow> bytes \<Rightarrow> bytes" where
  "write_at i d buf = take i buf @ d @ drop (i + length d) buf"

definition setup_send_buf :: "'s atdd_tcp_client \<Rightarrow> 's atdd_tcp_client" where
  "setup_send_buf c = c\<lparr>send_buf := write_at 0 (ATDD_MAGIC @ [0]) (send_buf c)\<rparr>"

text \<open>
  What the kernel returns to \<open>atdd_client_create\<close>: the memory of each allocation with its arbitrary
  contents, if any, the results of the crypto layer, and a new socket. The digests of \<open>hmac(sha256)\<close>
  have 32 bytes, so the \<open>BUG_ON\<close> on their size is no branch.
\<close>

record 's client_resources =
  client_mem :: bool
  send_mem :: "bytes option"
  cmds_mem :: "u64 list option"
  parse_mem :: "bytes option"
  alloc_shash :: int
  shash_setkey :: int
  sock_create :: "int + 's"

definition atdd_client_create :: "'s client_resources \<Rightarrow> atdd_client_config \<Rightarrow> int + 's atdd_tcp_client" where
  "atdd_client_create R config =
     (if \<not> client_mem R then Inl (- ENOMEM)
      else case send_mem R of None \<Rightarrow> Inl (- ENOMEM) | Some send \<Rightarrow>
        (case cmds_mem R of None \<Rightarrow> Inl (- ENOMEM) | Some pend \<Rightarrow>
          (case parse_mem R of None \<Rightarrow> Inl (- ENOMEM) | Some parse \<Rightarrow>
             if alloc_shash R \<noteq> 0 then Inl (alloc_shash R)
             else if shash_setkey R \<noteq> 0 then Inl (shash_setkey R)
             else
               (case sock_create R of
                  Inl err \<Rightarrow> Inl err
                | Inr s \<Rightarrow>
                    Inr (setup_send_buf
                      \<lparr>client_config = config, sock = s, connection_target = addrs_count config,
                       connected = False, client_error = False, send_buf = send, send_buf_pos = 0,
                       pending_cmds = \<lparr>cmds = pend, completed_pos = 0, accepted_pos = 0\<rparr>,
                       parse_buf = parse, parse_buf_pos = 0,
                       parse_state = \<lparr>parse_st = OK, parse_ident = 0, parse_completed = False\<rparr>\<rparr>)))))"

section \<open>Sending commands\<close>

definition atdd_disconnect :: "'s socket_api \<Rightarrow> 's atdd_tcp_client \<Rightarrow> 's atdd_tcp_client" where
  "atdd_disconnect api c =
     c\<lparr>connected := False, parse_buf_pos := 0,
       pending_cmds := (pending_cmds c)\<lparr>accepted_pos := completed_pos (pending_cmds c)\<rparr>,
       sock := sock_renew api (sock c)\<rparr>"

text \<open>Copying to the send buffer at its position and moving the position.\<close>

definition put :: "bytes \<Rightarrow> 's atdd_tcp_client \<Rightarrow> 's atdd_tcp_client" where
  "put d c = c\<lparr>send_buf := write_at (send_buf_pos c) d (send_buf c), send_buf_pos := send_buf_pos c + length d\<rparr>"

definition hmac_tag_prepare ::
    "(bytes \<Rightarrow> bytes \<Rightarrow> int \<times> bytes) \<Rightarrow> 's atdd_tcp_client \<Rightarrow> int \<times> 's atdd_tcp_client" where
  "hmac_tag_prepare digest c =
     (case digest (hmac_key (client_config c)) (take (send_buf_pos c) (send_buf c)) of (err, tag) \<Rightarrow>
        (err, if err = 0 then c\<lparr>send_buf := write_at (send_buf_pos c) tag (send_buf c)\<rparr> else c))"

definition prepare_cmd_content ::
    "(bytes \<Rightarrow> bytes \<Rightarrow> int \<times> bytes) \<Rightarrow> 's atdd_tcp_client \<Rightarrow> request \<Rightarrow> u64 \<Rightarrow> int \<times> 's atdd_tcp_client" where
  "prepare_cmd_content digest c rq ident =
     (let c = c\<lparr>send_buf_pos := SEND_BUF_POS_START\<rparr>;
          c = put [if rq_data_dir rq = 1 then WRITE_CMD else READ_CMD] c;
          c = put (to_be_bytes 8 ident) c;
          c = put (to_be_bytes 8 (drop_bit 3 (blk_rq_pos rq))) c;
          c = (if send_buf c ! 7 = WRITE_CMD then put (take SECTOR_SIZE (bio_data rq)) c else c)
      in case hmac_tag_prepare digest c of (err, c) \<Rightarrow>
           if err \<noteq> 0 then (err, c) else (0, c\<lparr>send_buf_pos := send_buf_pos c + HMAC_TAG_SIZE\<rparr>))"

definition connect_to :: "'s socket_api \<Rightarrow> nat \<Rightarrow> 's atdd_tcp_client \<Rightarrow> int \<times> 's atdd_tcp_client" where
  "connect_to api i c =
     (case tcp_connect api (sock c) (atdd_addrs (client_config c) ! i) of (err, s) \<Rightarrow>
        (err, if err = 0 then c\<lparr>sock := s, connected := True, client_error := False\<rparr> else c\<lparr>sock := s\<rparr>))"

fun connect_any :: "'s socket_api \<Rightarrow> nat \<Rightarrow> 's atdd_tcp_client \<Rightarrow> 's atdd_tcp_client" where
  "connect_any api 0 c = c"
| "connect_any api (Suc k) c =
     (let c = c\<lparr>connection_target := (connection_target c + 1) mod addrs_count (client_config c)\<rparr> in
      case connect_to api (connection_target c) c of (err, c) \<Rightarrow>
        if err = 0 then c else connect_any api k c)"

text \<open>The two attempts to connect at the start of \<open>send_atdd_cmd_over_tcp\<close>.\<close>

definition establish :: "'s socket_api \<Rightarrow> 's atdd_tcp_client \<Rightarrow> 's atdd_tcp_client" where
  "establish api c =
     (let p = preferred_addr (client_config c);
          c = (if \<not> connected c \<and> connection_target c \<noteq> p then
                 (case connect_to api p c of (err, c) \<Rightarrow> if err = 0 then c\<lparr>connection_target := p\<rparr> else c)
               else c)
      in if connected c then c else connect_any api (addrs_count (client_config c)) c)"

definition send_atdd_cmd_over_tcp ::
    "'s socket_api \<Rightarrow> 's atdd_tcp_client \<Rightarrow> (int \<times> 's atdd_tcp_client) run option" where
  "send_atdd_cmd_over_tcp api c =
     (let c = establish api c in
      if \<not> connected c then Some (Done (- EIO, c))
      else case tcp_send api (sock c) (take (send_buf_pos c) (send_buf c)) of
             None \<Rightarrow> None
           | Some (Fault f) \<Rightarrow> Some (Fault f)
           | Some (Done (err, s)) \<Rightarrow>
               let c = c\<lparr>sock := s\<rparr> in
               Some (Done (err, if err \<noteq> 0 then atdd_disconnect api c else c)))"

definition atdd_send_command ::
    "(bytes \<Rightarrow> bytes \<Rightarrow> int \<times> bytes) \<Rightarrow> 's socket_api \<Rightarrow> 's atdd_tcp_client \<Rightarrow> request \<Rightarrow> u64 \<Rightarrow>
       (int \<times> 's atdd_tcp_client) run option" where
  "atdd_send_command digest api c rq ident =
     (case prepare_cmd_content digest c rq ident of (err, c) \<Rightarrow>
        if err \<noteq> 0 then Some (Done (err, c))
        else case send_atdd_cmd_over_tcp api c of
               None \<Rightarrow> None
             | Some (Fault f) \<Rightarrow> Some (Fault f)
             | Some (Done (err, c)) \<Rightarrow>
                 if err \<noteq> 0 then Some (Done (err, c))
                 else
                   let p = pending_cmds c in
                   Some (Done (err, c\<lparr>pending_cmds :=
                     p\<lparr>cmds := (cmds p)[unat (accepted_pos p) := ident], accepted_pos := accepted_pos p + 1\<rparr>\<rparr>)))"

section \<open>Reading answers\<close>

definition atdd_client_has_data :: "'s socket_api \<Rightarrow> 's atdd_tcp_client \<Rightarrow> bool" where
  "atdd_client_has_data api c \<longleftrightarrow>
     sk_has_data api (sock c) \<and> accepted_pos (pending_cmds c) \<noteq> completed_pos (pending_cmds c)"

definition atdd_sk_error_report :: "'s atdd_tcp_client \<Rightarrow> 's atdd_tcp_client" where
  "atdd_sk_error_report c = c\<lparr>client_error := True\<rparr>"

definition atdd_client_clear_error :: "'s atdd_tcp_client \<Rightarrow> 's atdd_tcp_client" where
  "atdd_client_clear_error c = c\<lparr>client_error := False\<rparr>"

definition parse_status_code :: "u8 \<Rightarrow> driver_status option" where
  "parse_status_code b =
     (if b = 0 then Some OK else if b = 1 then Some AUTH_FAILURE
      else if b = 2 then Some INVALID_SECTOR_INDEX else None)"

function find_slide :: "bytes \<Rightarrow> nat \<Rightarrow> nat \<Rightarrow> nat" where
  "find_slide buf pos slide =
     (if slide + length ATDD_MAGIC \<le> pos then
        if take (length ATDD_MAGIC) (drop slide buf) = ATDD_MAGIC then slide else find_slide buf pos (slide + 1)
      else slide)"
  by auto
termination by (relation "measure (\<lambda>(buf, pos, slide). pos - slide)") (auto simp: ATDD_MAGIC_def)

declare find_slide.simps [simp del]

text \<open>\<open>BUG_ON\<close> stops the kernel, so the branch for a positive slide that follows it is never taken.\<close>

definition slide_to_atdd_magic :: "'s atdd_tcp_client \<Rightarrow> int run" where
  "slide_to_atdd_magic c =
     (if find_slide (parse_buf c) (parse_buf_pos c) 0 \<noteq> 0 then Fault KernelBug
      else Done (if parse_buf_pos c \<ge> length ATDD_MAGIC then 0 else - EINVAL))"

text \<open>
  The position of the parse buffer never exceeds the limit here, so that the length that is left is not
  negative: between two calls of \<open>atdd_fetch_command\<close> it is at most \<open>MIN_RESPONSE_SIZE\<close>, see
  \<open>fetch_keeps_position\<close>.
\<close>

definition progress_tcp_data_to_limit ::
    "'s socket_api \<Rightarrow> 's atdd_tcp_client \<Rightarrow> nat \<Rightarrow> (int \<times> 's atdd_tcp_client) option" where
  "progress_tcp_data_to_limit api c limit =
     (case tcp_read api (sock c) (limit - parse_buf_pos c) of
        None \<Rightarrow> None
      | Some (res, b, s) \<Rightarrow>
          let c = c\<lparr>sock := s, parse_buf := write_at (parse_buf_pos c) b (parse_buf c)\<rparr> in
          if res < 0 then Some (res, c) else Some (0, c\<lparr>parse_buf_pos := limit\<rparr>))"

partial_function (option) progress_header ::
    "'s socket_api \<Rightarrow> 's atdd_tcp_client \<Rightarrow> (int \<times> 's atdd_tcp_client) run option" where
  "progress_header api c =
     (if parse_buf_pos c < MIN_RESPONSE_SIZE then
        (case progress_tcp_data_to_limit api c MIN_RESPONSE_SIZE of
           None \<Rightarrow> None
         | Some (res, c) \<Rightarrow>
             if res < 0 then Some (Done (res, c))
             else case slide_to_atdd_magic c of Fault f \<Rightarrow> Some (Fault f) | Done _ \<Rightarrow> progress_header api c)
      else Some (Done (0, c)))"

definition progress_tcp_data ::
    "'s socket_api \<Rightarrow> 's atdd_tcp_client \<Rightarrow> (int \<times> 's atdd_tcp_client) run option" where
  "progress_tcp_data api c =
     (case progress_header api c of
        None \<Rightarrow> None
      | Some (Fault f) \<Rightarrow> Some (Fault f)
      | Some (Done (res, c)) \<Rightarrow>
          if res < 0 then Some (Done (res, c))
          else
            (case (if parse_buf_pos c = MIN_RESPONSE_SIZE then parse_status_code (parse_buf c ! 6)
                   else Some (parse_st (parse_state c))) of
               None \<Rightarrow> Some (Done (- EINVAL, c\<lparr>parse_buf_pos := 0\<rparr>))
             | Some st \<Rightarrow>
                 let c = c\<lparr>parse_state := (parse_state c)\<lparr>parse_st := st,
                             parse_ident := from_be_bytes (take 8 (drop 8 (parse_buf c)))\<rparr>\<rparr>;
                     limit = MIN_RESPONSE_SIZE +
                       (if st = OK \<and> parse_buf c ! 7 = 0x40 + READ_CMD then SECTOR_SIZE else 0)
                 in case progress_tcp_data_to_limit api c limit of
                      None \<Rightarrow> None
                    | Some (res, c) \<Rightarrow>
                        if res < 0 then Some (Done (res, c))
                        else Some (Done (0, c\<lparr>parse_state := (parse_state c)\<lparr>parse_completed := True\<rparr>\<rparr>))))"

definition validate_cmd_parse_hmac :: "(bytes \<Rightarrow> bytes \<Rightarrow> int \<times> bytes) \<Rightarrow> 's atdd_tcp_client \<Rightarrow> int" where
  "validate_cmd_parse_hmac digest c =
     (case digest (hmac_key (client_config c)) (take (parse_buf_pos c - HMAC_TAG_SIZE) (parse_buf c)) of (err, tag) \<Rightarrow>
        if err \<noteq> 0 then err
        else if take HMAC_TAG_SIZE tag = take HMAC_TAG_SIZE (drop (parse_buf_pos c - HMAC_TAG_SIZE) (parse_buf c))
             then 0 else - EINVAL)"

text \<open>The returned command is present exactly when the result is 1.\<close>

definition atdd_fetch_command ::
    "(bytes \<Rightarrow> bytes \<Rightarrow> int \<times> bytes) \<Rightarrow> 's socket_api \<Rightarrow> 's atdd_tcp_client \<Rightarrow>
       (int \<times> atdd_cmd_return option \<times> 's atdd_tcp_client) run option" where
  "atdd_fetch_command digest api c =
     (if accepted_pos (pending_cmds c) = completed_pos (pending_cmds c) then Some (Done (0, None, c))
      else case progress_tcp_data api c of
             None \<Rightarrow> None
           | Some (Fault f) \<Rightarrow> Some (Fault f)
           | Some (Done (err, c)) \<Rightarrow>
               if err \<noteq> 0 then Some (Done (err, None, c))
               else if \<not> parse_completed (parse_state c) then Some (Done (0, None, c))
               else
                 let err = validate_cmd_parse_hmac digest c in
                 if err < 0 then Some (Done (err, None, c\<lparr>parse_buf_pos := 0\<rparr>))
                 else
                   Some (Done (1,
                     Some \<lparr>ret_ident = parse_ident (parse_state c),
                           ret_data = drop ATDD_RESPONSE_HEADER_SIZE (parse_buf c),
                           rcode = parse_st (parse_state c)\<rparr>,
                     c\<lparr>parse_buf_pos := 0, parse_state := (parse_state c)\<lparr>parse_completed := False\<rparr>,
                       pending_cmds := (pending_cmds c)\<lparr>completed_pos := completed_pos (pending_cmds c) + 1\<rparr>\<rparr>)))"

lemma progress_to_limit_position:
  "progress_tcp_data_to_limit api c limit = Some (res, c') \<Longrightarrow>
     parse_buf_pos c' = (if res < 0 then parse_buf_pos c else limit)"
  by (auto simp: progress_tcp_data_to_limit_def Let_def split: option.splits if_splits)

lemma progress_header_position:
  assumes "progress_header api c = Some (Done (res, c'))" and "parse_buf_pos c \<le> MIN_RESPONSE_SIZE"
  shows "parse_buf_pos c' \<le> MIN_RESPONSE_SIZE"
proof (cases "parse_buf_pos c < MIN_RESPONSE_SIZE")
  case True
  note unfolded = assms(1)[unfolded progress_header.simps[of api c]]
  obtain res1 c1 where p: "progress_tcp_data_to_limit api c MIN_RESPONSE_SIZE = Some (res1, c1)"
    using unfolded True by (auto split: option.splits)
  note pos = progress_to_limit_position[OF p]
  show ?thesis
  proof (cases "res1 < 0")
    case False
    then have "progress_header api c1 = Some (Done (0, c1))" using pos by (simp add: progress_header.simps[of api c1])
    with False True unfolded p pos show ?thesis by (simp split: run.splits)
  qed (use unfolded True p pos assms(2) in simp)
next
  case False
  then show ?thesis using assms by (simp add: progress_header.simps[of api c])
qed

lemma progress_tcp_data_position:
  assumes "progress_tcp_data api c = Some (Done (res, c'))" and "parse_buf_pos c \<le> MIN_RESPONSE_SIZE"
  shows "if res = 0 then parse_completed (parse_state c') else parse_buf_pos c' \<le> MIN_RESPONSE_SIZE"
proof -
  obtain res1 c1 where h: "progress_header api c = Some (Done (res1, c1))"
    using assms(1) by (auto simp: progress_tcp_data_def split: option.splits run.splits)
  note pos = progress_header_position[OF h assms(2)]
  from assms(1) h pos show ?thesis
    unfolding progress_tcp_data_def Let_def
    by (simp split: option.split_asm if_split_asm prod.split_asm)
      (auto simp: EINVAL_def dest: progress_to_limit_position)
qed

lemma fetch_keeps_position:
  assumes "atdd_fetch_command digest api c = Some (Done (err, ret, c'))" and "parse_buf_pos c \<le> MIN_RESPONSE_SIZE"
  shows "parse_buf_pos c' \<le> MIN_RESPONSE_SIZE"
proof (cases "accepted_pos (pending_cmds c) = completed_pos (pending_cmds c)")
  case False
  then obtain err1 c1 where h: "progress_tcp_data api c = Some (Done (err1, c1))"
    using assms(1) by (auto simp: atdd_fetch_command_def split: option.splits run.splits)
  with False assms(1) progress_tcp_data_position[OF h assms(2)] show ?thesis
    by (auto simp: atdd_fetch_command_def Let_def split: if_splits)
qed (use assms in \<open>simp add: atdd_fetch_command_def\<close>)

section \<open>What the kernel documents\<close>

text \<open>
  Sending takes over a prefix of the data. Receiving returns a nonempty prefix of the bytes that the
  peer has sent (\<open>incoming\<close>), or, while they are on their way, asks to try again; \<open>patience\<close> bounds how
  often.
\<close>

definition retry :: "int \<Rightarrow> bool" where
  "retry r \<longleftrightarrow> r = - EAGAIN \<or> r = - ERESTARTSYS"

definition send_spec :: "'s socket_api \<Rightarrow> ('s \<Rightarrow> bytes) \<Rightarrow> bool" where
  "send_spec api outgoing \<longleftrightarrow>
     (\<forall>s d n s'. kernel_sendmsg api s d = (n, s') \<longrightarrow>
        n \<le> int (length d) \<and> outgoing s' = outgoing s @ take (nat n) d)"

definition recv_spec :: "'s socket_api \<Rightarrow> ('s \<Rightarrow> bytes) \<Rightarrow> ('s \<Rightarrow> nat) \<Rightarrow> bool" where
  "recv_spec api incoming patience \<longleftrightarrow>
     (\<forall>s n r b s'. incoming s \<noteq> [] \<longrightarrow> n > 0 \<longrightarrow> kernel_recvmsg api s n = (r, b, s') \<longrightarrow>
        (0 < r \<and> r \<le> int (min n (length (incoming s))) \<and> b = take (nat r) (incoming s) \<and>
         incoming s' = drop (nat r) (incoming s)) \<or>
        (retry r \<and> incoming s' = incoming s \<and> patience s' < patience s))"

definition digest_spec :: "(bytes \<Rightarrow> bytes \<Rightarrow> int \<times> bytes) \<Rightarrow> (bytes \<Rightarrow> bytes \<Rightarrow> bytes) \<Rightarrow> bool" where
  "digest_spec digest tag \<longleftrightarrow> (\<forall>k d. digest k d = (0, tag k d) \<and> length (tag k d) = 32)"

lemma retry_neg: "retry r \<Longrightarrow> r < 0"
  by (auto simp: retry_def errnos)

lemma tcp_read_loop_retry:
  "missing > 0 \<Longrightarrow> kernel_recvmsg api s (nat missing) = (r, b, s') \<Longrightarrow> retry r \<Longrightarrow>
     tcp_read_loop api missing buf res s = tcp_read_loop api missing buf r s'"
  by (subst tcp_read_loop.simps) (auto simp: retry_def errnos)

lemma tcp_read_loop_more:
  "missing > 0 \<Longrightarrow> kernel_recvmsg api s (nat missing) = (r, b, s') \<Longrightarrow> r > 0 \<Longrightarrow>
     tcp_read_loop api missing buf res s = tcp_read_loop api (missing - r) (buf @ b) r s'"
  by (subst tcp_read_loop.simps) simp

lemma tcp_read_loop_all:
  assumes "recv_spec api incoming patience" and "n \<le> length (incoming s)"
  shows "\<exists>r s'. tcp_read_loop api (int n) buf res s = Some (0, buf @ take n (incoming s), r, s') \<and>
           incoming s' = drop n (incoming s)"
  using assms(2)
proof (induction "(n, patience s)" arbitrary: n s buf res rule: wf_induct_rule[OF wf_lex_prod[OF wf_less wf_less]])
  case 1
  note len = "1.prems"
  show ?case
  proof (cases "n = 0")
    case True
    then show ?thesis by (subst tcp_read_loop.simps) simp
  next
    case False
    obtain r b s' where k: "kernel_recvmsg api s n = (r, b, s')" by (metis prod_cases3)
    have "incoming s \<noteq> []" "n > 0" using False len by auto
    with assms(1)[unfolded recv_spec_def, rule_format, OF _ _ k]
    consider (more) "0 < r" "r \<le> int n" "nat r \<le> length (incoming s)"
        "b = take (nat r) (incoming s)" "incoming s' = drop (nat r) (incoming s)"
      | (wait) "retry r" "incoming s' = incoming s" "patience s' < patience s"
      by force
    then show ?thesis
    proof cases
      case more
      have "\<exists>r' s''. tcp_read_loop api (int (n - nat r)) (buf @ b) r s' =
          Some (0, (buf @ b) @ take (n - nat r) (incoming s'), r', s'') \<and> incoming s'' = drop (n - nat r) (incoming s')"
        by (rule "1.hyps") (use more False len in auto)
      moreover have "int (n - nat r) = int n - r" using more by simp
      moreover have "b @ take (n - nat r) (incoming s') = take n (incoming s)"
        using more by (simp flip: take_add)
      moreover have "drop (n - nat r) (incoming s') = drop n (incoming s)" using more by simp
      ultimately show ?thesis using tcp_read_loop_more[of "int n" api s r b s'] k False more(1) by simp
    next
      case wait
      have "\<exists>r' s''. tcp_read_loop api (int n) buf r s' =
          Some (0, buf @ take n (incoming s'), r', s'') \<and> incoming s'' = drop n (incoming s')"
        by (rule "1.hyps") (use wait len in auto)
      with wait k False show ?thesis using tcp_read_loop_retry[of "int n" api s r b s'] by simp
    qed
  qed
qed

lemma tcp_read_all:
  assumes "recv_spec api incoming patience" and "n \<le> length (incoming s)"
  obtains s' where "tcp_read api s n = Some (0, take n (incoming s), s')" "incoming s' = drop n (incoming s)"
  using tcp_read_loop_all[OF assms, of "[]" 0] that by (auto simp: tcp_read_def)

text \<open>\<open>tcp_send\<close> reports success only after it has handed over all data, in order.\<close>

definition sends_all :: "('s \<Rightarrow> bytes) \<Rightarrow> 's socket_api \<Rightarrow> bytes \<Rightarrow> int option \<Rightarrow> 's \<Rightarrow> int option \<times> 's \<Rightarrow> bool" where
  "sends_all outgoing api data len s r \<longleftrightarrow>
     send_spec api outgoing \<longrightarrow> data \<noteq> [] \<or> (\<exists>n. len = Some n \<and> 0 \<le> n) \<longrightarrow>
     (\<exists>l. fst r = Some l \<and> (l \<ge> 0 \<longrightarrow> outgoing (snd r) = outgoing s @ data))"

lemma tcp_send_loop_sent:
  assumes "tcp_send_loop api data len s = Some r"
  shows "sends_all outgoing api data len s r"
proof (rule tcp_send_loop.raw_induct[where P = "sends_all outgoing", OF _ assms], unfold sends_all_def, intro impI)
  fix f api data len s r
  assume IH: "\<And>api data len s r. f api data len s = Some r \<Longrightarrow> send_spec api outgoing \<longrightarrow>
        data \<noteq> [] \<or> (\<exists>n. len = Some n \<and> 0 \<le> n) \<longrightarrow>
        (\<exists>l. fst r = Some l \<and> (l \<ge> 0 \<longrightarrow> outgoing (snd r) = outgoing s @ data))"
    and body: "(if data = [] then Some (len, s)
      else case kernel_sendmsg api s data of (n, s') \<Rightarrow>
        if n \<ge> 0 then f api (drop (nat n) data) (Some n) s'
        else if n \<noteq> - ERESTARTSYS \<and> n \<noteq> - EAGAIN then Some (Some n, s')
        else f api data (Some n) s') = Some r"
    and spec: "send_spec api outgoing" and start: "data \<noteq> [] \<or> (\<exists>n. len = Some n \<and> 0 \<le> n)"
  show "\<exists>l. fst r = Some l \<and> (l \<ge> 0 \<longrightarrow> outgoing (snd r) = outgoing s @ data)"
  proof (cases "data = []")
    case True
    with body start show ?thesis by auto
  next
    case False
    obtain n t where k: "kernel_sendmsg api s data = (n, t)" by (cases "kernel_sendmsg api s data")
    then have n: "n \<le> int (length data)" "outgoing t = outgoing s @ take (nat n) data"
      using spec by (auto simp: send_spec_def)
    consider (sent) "n \<ge> 0" "f api (drop (nat n) data) (Some n) t = Some r"
      | (wait) "retry n" "f api data (Some n) t = Some r" | (failed) "n < 0" "r = (Some n, t)"
      using body False k by (auto simp: retry_def split: if_splits)
    then show ?thesis
    proof cases
      case sent
      with IH[OF sent(2)] spec n show ?thesis by auto
    next
      case wait
      with IH[OF wait(2)] spec n False retry_neg[of n] show ?thesis by auto
    qed simp
  qed
qed

lemma tcp_send_sent:
  assumes "send_spec api outgoing" and "data \<noteq> []" and "tcp_send api s data = Some x"
  obtains err s' where "x = Done (err, s')" "err \<le> 0" "err = 0 \<Longrightarrow> outgoing s' = outgoing s @ data"
proof -
  obtain len s' where l: "tcp_send_loop api data None s = Some (len, s')"
    using assms(3) by (auto simp: tcp_send_def split: option.splits)
  from tcp_send_loop_sent[OF l, of outgoing] assms(1,2) obtain n where
    "len = Some n" "n \<ge> 0 \<longrightarrow> outgoing s' = outgoing s @ data" by (auto simp: sends_all_def)
  with l assms(3) that show thesis by (auto simp: tcp_send_def split: if_splits)
qed

text \<open>A peer that keeps reading: the kernel asks to try again only boundedly often.\<close>

definition send_progress :: "'s socket_api \<Rightarrow> ('s \<Rightarrow> nat) \<Rightarrow> bool" where
  "send_progress api patience \<longleftrightarrow>
     (\<forall>s d n s'. d \<noteq> [] \<longrightarrow> kernel_sendmsg api s d = (n, s') \<longrightarrow>
        0 < n \<or> (n = 0 \<or> retry n) \<and> patience s' < patience s)"

lemma tcp_send_loop_total:
  assumes "send_progress api patience"
  shows "data \<noteq> [] \<or> (\<exists>n \<ge> 0. len = Some n) \<Longrightarrow> \<exists>n s'. 0 \<le> n \<and> tcp_send_loop api data len s = Some (Some n, s')"
proof (induction "(length data, patience s)" arbitrary: data len s rule: wf_induct_rule[OF wf_lex_prod[OF wf_less wf_less]])
  case 1
  show ?case
  proof (cases "data = []")
    case True
    with "1.prems" show ?thesis by (subst tcp_send_loop.simps) auto
  next
    case False
    obtain n s' where k: "kernel_sendmsg api s data = (n, s')" by fastforce
    have step: "tcp_send_loop api data len s =
        (if n \<ge> 0 then tcp_send_loop api (drop (nat n) data) (Some n) s'
         else if n \<noteq> - ERESTARTSYS \<and> n \<noteq> - EAGAIN then Some (Some n, s') else tcp_send_loop api data (Some n) s')"
      using False k by (subst tcp_send_loop.simps) simp
    from assms False k consider (more) "0 < n" | (none) "n = 0" "patience s' < patience s"
      | (wait) "retry n" "patience s' < patience s" by (auto simp: send_progress_def)
    then show ?thesis
    proof cases
      case more
      have "\<exists>m s''. 0 \<le> m \<and> tcp_send_loop api (drop (nat n) data) (Some n) s' = Some (Some m, s'')"
        by (rule "1.hyps") (use more False in auto)
      with step more show ?thesis by simp
    next
      case none
      have "\<exists>m s''. 0 \<le> m \<and> tcp_send_loop api data (Some n) s' = Some (Some m, s'')"
        by (rule "1.hyps") (use none False in auto)
      with step none show ?thesis by simp
    next
      case wait
      have "\<exists>m s''. 0 \<le> m \<and> tcp_send_loop api data (Some n) s' = Some (Some m, s'')"
        by (rule "1.hyps") (use wait False in auto)
      with step wait retry_neg[OF wait(1)] show ?thesis by (auto simp: retry_def)
    qed
  qed
qed

lemma tcp_send_total:
  assumes "send_progress api patience" and "data \<noteq> []"
  obtains s' where "tcp_send api s data = Some (Done (0, s'))"
  using tcp_send_loop_total[OF assms(1), of data None s] assms(2) that by (auto simp: tcp_send_def)

section \<open>Encoding\<close>

lemma length_write_at [simp]: "i + length d \<le> length buf \<Longrightarrow> length (write_at i d buf) = length buf"
  by (simp add: write_at_def)

lemma take_write_at:
  "i \<le> length buf \<Longrightarrow> take (i + length d) (write_at i d buf) = take i buf @ d"
  "j \<le> i \<Longrightarrow> i \<le> length buf \<Longrightarrow> take j (write_at i d buf) = take j buf"
  by (simp_all add: write_at_def min_def)

definition sent_bytes :: "'s atdd_tcp_client \<Rightarrow> bytes" where
  "sent_bytes c = take (send_buf_pos c) (send_buf c)"

text \<open>The send buffer of a client that was created: the magic number, a zero, and anything.\<close>

definition send_ready :: "'s atdd_tcp_client \<Rightarrow> bool" where
  "send_ready c \<longleftrightarrow> length (send_buf c) = MAX_CMD_SIZE \<and> take 5 (send_buf c) = ATDD_MAGIC @ [0]"

definition wf_request :: "request \<Rightarrow> bool" where
  "wf_request rq \<longleftrightarrow> length (bio_data rq) = SECTOR_SIZE \<and> (rq_data_dir rq = 0 \<or> rq_data_dir rq = 1)"

definition command_of :: "request \<Rightarrow> u64 \<Rightarrow> ClientRegisterCommand" where
  "command_of rq ident =
     \<lparr>c_header = \<lparr>request_identifier = ident, c_sector_idx = drop_bit 3 (blk_rq_pos rq)\<rparr>,
      c_content = (if rq_data_dir rq = 1 then Write (SectorVec (bio_data rq)) else Read)\<rparr>"

text \<open>The message of a request; \<open>pad\<close> are the two bytes of the buffer that are never set.\<close>

definition driver_message :: "bytes \<Rightarrow> request \<Rightarrow> u64 \<Rightarrow> bytes" where
  "driver_message pad rq ident =
     ATDD_MAGIC @ [0] @ pad @ [if rq_data_dir rq = 1 then WRITE_CMD else READ_CMD] @ to_be_bytes 8 ident @
     to_be_bytes 8 (drop_bit 3 (blk_rq_pos rq)) @ (if rq_data_dir rq = 1 then bio_data rq else [])"

lemma put_sent:
  assumes "send_buf_pos c + length d \<le> length (send_buf c)"
  shows "sent_bytes (put d c) = sent_bytes c @ d" and "length (send_buf (put d c)) = length (send_buf c)"
    and "send_buf_pos (put d c) = send_buf_pos c + length d"
  using assms take_write_at(1)[of "send_buf_pos c" "send_buf c" d] by (simp_all add: sent_bytes_def put_def)

lemma put_same: "\<exists>b n. put d c = c\<lparr>send_buf := b, send_buf_pos := n\<rparr>"
  by (auto simp: put_def)

lemma prepare_cmd_content_eq:
  fixes ident :: u64
  assumes "send_ready c" and "wf_request rq" and "digest_spec digest tag"
  defines "m \<equiv> driver_message (take 2 (drop 5 (send_buf c))) rq ident"
  obtains b n where "prepare_cmd_content digest c rq ident = (0, c\<lparr>send_buf := b, send_buf_pos := n\<rparr>)"
    "take n b = m @ tag (hmac_key (client_config c)) m" "n \<le> length b" "length b = MAX_CMD_SIZE"
    "take 7 b = take 7 (send_buf c)"
proof -
  let ?w = "rq_data_dir rq = 1"
  let ?ty = "if ?w then WRITE_CMD else READ_CMD"
  define c0 where "c0 = c\<lparr>send_buf_pos := SEND_BUF_POS_START\<rparr>"
  define c1 where "c1 = put [?ty] c0"
  define c2 where "c2 = put (to_be_bytes 8 ident) c1"
  define c3 where "c3 = put (to_be_bytes 8 (drop_bit 3 (blk_rq_pos rq))) c2"
  define c4 where "c4 = (if ?w then put (bio_data rq) c3 else c3)"
  note cs = c1_def c2_def c3_def
  have len: "length (send_buf c) = 4152" "length (bio_data rq) = 4096" "length (take 2 (drop 5 (send_buf c))) = 2"
    using assms(1,2) by (simp_all add: send_ready_def wf_request_def driver_sizes)
  have t7: "take 7 (send_buf c) = ATDD_MAGIC @ [0] @ take 2 (drop 5 (send_buf c))"
    using assms(1) take_add[of 5 2 "send_buf c"] by (simp add: send_ready_def)
  have p0: "sent_bytes c0 = take 7 (send_buf c)" "length (send_buf c0) = 4152" "send_buf_pos c0 = 7"
    by (simp_all add: sent_bytes_def c0_def driver_sizes len)
  have p1: "sent_bytes c1 = take 7 (send_buf c) @ [?ty]" "length (send_buf c1) = 4152" "send_buf_pos c1 = 8"
    unfolding c1_def using p0 by (simp_all add: put_sent)
  have p2: "sent_bytes c2 = take 7 (send_buf c) @ [?ty] @ to_be_bytes 8 ident" "length (send_buf c2) = 4152" "send_buf_pos c2 = 16"
    unfolding c2_def using p1 by (simp_all add: put_sent)
  have p3: "sent_bytes c3 = take 7 (send_buf c) @ [?ty] @ to_be_bytes 8 ident @ to_be_bytes 8 (drop_bit 3 (blk_rq_pos rq))"
      "length (send_buf c3) = 4152" "send_buf_pos c3 = 24"
    unfolding c3_def using p2 by (simp_all add: put_sent)
  have "send_buf c3 ! 7 = sent_bytes c3 ! 7" unfolding sent_bytes_def p3(3) by simp
  also have "\<dots> = ?ty" unfolding p3(1) by (simp add: nth_append len)
  finally have ty: "send_buf c3 ! 7 = WRITE_CMD \<longleftrightarrow> ?w" by (simp add: driver_sizes)
  have p4: "sent_bytes c4 = m" "length (send_buf c4) = 4152" "send_buf_pos c4 = length m" "length m \<le> 4120"
    unfolding c4_def m_def driver_message_def using p3 t7 len by (simp_all add: put_sent ATDD_MAGIC_def)
  have key: "client_config c4 = client_config c"
    by (simp add: c4_def c3_def c2_def c1_def c0_def put_def)
  let ?t = "tag (hmac_key (client_config c)) m"
  have t: "length ?t = 32" "digest (hmac_key (client_config c)) m = (0, ?t)" using assms(3) by (simp_all add: digest_spec_def)
  let ?b = "write_at (length m) ?t (send_buf c4)"
  have "prepare_cmd_content digest c rq ident =
      (case hmac_tag_prepare digest c4 of (err, c) \<Rightarrow>
        if err \<noteq> 0 then (err, c) else (0, c\<lparr>send_buf_pos := send_buf_pos c + HMAC_TAG_SIZE\<rparr>))"
    unfolding prepare_cmd_content_def Let_def c0_def[symmetric] c1_def[symmetric] c2_def[symmetric] c3_def[symmetric]
    using len(2) ty by (simp add: c4_def driver_sizes)
  also have "\<dots> = (0, c4\<lparr>send_buf := ?b, send_buf_pos := length m + 32\<rparr>)"
    using p4(1,3) t(2) by (simp add: hmac_tag_prepare_def key sent_bytes_def HMAC_TAG_SIZE_def)
  also have "c4\<lparr>send_buf := ?b, send_buf_pos := length m + 32\<rparr> = c\<lparr>send_buf := ?b, send_buf_pos := length m + 32\<rparr>"
    by (simp add: c4_def c3_def c2_def c1_def c0_def put_def)
  finally have "prepare_cmd_content digest c rq ident = (0, c\<lparr>send_buf := ?b, send_buf_pos := length m + 32\<rparr>)" .
  moreover have "take (length m + 32) ?b = m @ ?t"
    using take_write_at(1)[of "length m" "send_buf c4" ?t] p4 t(1) by (simp add: sent_bytes_def)
  moreover have "take 7 ?b = take 7 (send_buf c)"
  proof -
    have "take 7 ?b = take 7 (take (length m) (send_buf c4))"
      using p4 by (simp add: take_write_at min_def) (simp add: m_def driver_message_def ATDD_MAGIC_def len)
    also have "\<dots> = take 7 m" using p4(1,3) by (simp add: sent_bytes_def)
    also have "\<dots> = take 7 (send_buf c)" unfolding t7 by (simp add: m_def driver_message_def ATDD_MAGIC_def len)
    finally show ?thesis .
  qed
  ultimately show thesis using p4 t(1) by (intro that[of "length m + 32" ?b]) (simp_all add: driver_sizes)
qed

lemma driver_message_decodes:
  assumes "length pad = 2" and "wf_request rq" and "digest_spec digest tag"
  shows "decode_stream tag sk ck e (driver_message pad rq ident @ tag ck (driver_message pad rq ident) @ rest) =
     Ok ((Client (command_of rq ident), True), length (driver_message pad rq ident) + 32)"
proof -
  have len: "length (bio_data rq) = 4096" "\<And>k d. length (tag k d) = 32"
    using assms(2,3) by (simp_all add: wf_request_def digest_spec_def driver_sizes)
  define mt where "mt = (if rq_data_dir rq = 1 then MWrite else MRead)"
  obtain x y where pad: "pad = [x, y]" using assms(1) by (auto simp: length_Suc_conv numeral_2_eq_2)
  define b where "b = to_be_bytes 8 ident @ to_be_bytes 8 (drop_bit 3 (blk_rq_pos rq)) @ (if rq_data_dir rq = 1 then bio_data rq else [])"
  let ?h = "[0, x, y, message_type_u8 mt]"
  have m: "driver_message pad rq ident = MAGIC_NUMBER @ ?h @ b"
    by (simp add: driver_message_def pad ATDD_MAGIC_def MAGIC_NUMBER_def driver_sizes mt_def b_def)
  have b: "length b = frame_len mt" using len by (simp add: mt_def b_def)
  have f: "frame_command mt y (b @ ys) = Client (command_of rq ident)" for ys
    using frame_client_fields[of "\<lparr>request_identifier = ident, c_sector_idx = drop_bit 3 (blk_rq_pos rq)\<rparr>"] len
    by (auto simp: frame_command_def command_of_def field_at_def mt_def b_def)
  have k: "frame_key mt sk ck = ck" by (simp add: frame_key_def mt_def)
  let ?t = "tag ck (MAGIC_NUMBER @ ?h @ b)"
  have "field_at 4 4 (MAGIC_NUMBER @ ?h @ b @ ?t @ rest) = ?h" "drop 8 (MAGIC_NUMBER @ ?h @ b @ ?t @ rest) = b @ ?t @ rest"
    by (simp_all add: field_at_def MAGIC_NUMBER_def)
  then show ?thesis
    unfolding m append_assoc decode_stream_def find_magic_nil option.case Let_def
    using b f[of "?t @ rest"] k len(2) by (simp add: field_at_def MAGIC_NUMBER_def)
qed

section \<open>Decoding\<close>

lemma progress_to_limit:
  assumes "recv_spec api incoming patience" and "limit - parse_buf_pos c \<le> length (incoming (sock c))"
  obtains s' where "progress_tcp_data_to_limit api c limit =
      Some (0, c\<lparr>sock := s', parse_buf := write_at (parse_buf_pos c) (take (limit - parse_buf_pos c) (incoming (sock c))) (parse_buf c),
                 parse_buf_pos := limit\<rparr>)"
    "incoming s' = drop (limit - parse_buf_pos c) (incoming (sock c))"
proof -
  obtain s' where "tcp_read api (sock c) (limit - parse_buf_pos c) = Some (0, take (limit - parse_buf_pos c) (incoming (sock c)), s')"
      "incoming s' = drop (limit - parse_buf_pos c) (incoming (sock c))"
    by (rule tcp_read_all[OF assms])
  then show thesis by (intro that[of s']) (simp_all add: progress_tcp_data_to_limit_def)
qed

text \<open>A frame is what the client takes for one answer: its length follows from its status and type.\<close>

definition answer_frame :: "driver_status \<Rightarrow> bytes \<Rightarrow> bool" where
  "answer_frame st m \<longleftrightarrow> take 4 m = ATDD_MAGIC \<and> parse_status_code (m ! 6) = Some st \<and>
     length m = 48 + (if st = OK \<and> m ! 7 = 0x41 then 4096 else 0)"

definition receive_ready :: "'s atdd_tcp_client \<Rightarrow> bool" where
  "receive_ready c \<longleftrightarrow> length (parse_buf c) = MAX_RESPONSE_SIZE \<and> parse_buf_pos c = 0 \<and>
     accepted_pos (pending_cmds c) \<noteq> completed_pos (pending_cmds c)"

lemma find_slide_0: "find_slide buf pos 0 = 0 \<longleftrightarrow> pos < 4 \<or> take 4 buf = ATDD_MAGIC"
proof -
  have "find_slide buf pos i \<ge> i" for i
    by (induction buf pos i rule: find_slide.induct) (subst find_slide.simps, auto)
  from this[of 1] have "find_slide buf pos (Suc 0) > 0" by simp
  moreover have "length ATDD_MAGIC = 4" by (simp add: ATDD_MAGIC_def)
  ultimately show ?thesis by (subst find_slide.simps) auto
qed

lemma progress_header_eq:
  assumes "recv_spec api incoming patience" and "receive_ready c" and "48 \<le> length (incoming (sock c))"
  obtains s' where "incoming s' = drop 48 (incoming (sock c))"
    "progress_header api c = Some (if take 4 (incoming (sock c)) = ATDD_MAGIC
       then Done (0, c\<lparr>sock := s', parse_buf := write_at 0 (take 48 (incoming (sock c))) (parse_buf c), parse_buf_pos := 48\<rparr>)
       else Fault KernelBug)"
proof -
  have pos: "parse_buf_pos c = 0" using assms(2) by (simp add: receive_ready_def)
  obtain s' where s': "progress_tcp_data_to_limit api c 48 =
      Some (0, c\<lparr>sock := s', parse_buf := write_at 0 (take 48 (incoming (sock c))) (parse_buf c), parse_buf_pos := 48\<rparr>)"
      "incoming s' = drop 48 (incoming (sock c))"
    using progress_to_limit[OF assms(1), of 48 c] assms(3) pos by auto
  let ?c = "c\<lparr>sock := s', parse_buf := write_at 0 (take 48 (incoming (sock c))) (parse_buf c), parse_buf_pos := 48\<rparr>"
  have "progress_header api ?c = Some (Done (0, ?c))"
    by (subst progress_header.simps) (simp add: driver_sizes)
  moreover have "take 4 (parse_buf ?c) = take 4 (incoming (sock c))"
    using assms(3) by (simp add: write_at_def)
  ultimately show thesis
    using s' pos by (intro that[OF s'(2)], subst progress_header.simps)
      (simp add: driver_sizes slide_to_atdd_magic_def find_slide_0)
qed

lemma fetch_frame:
  assumes "recv_spec api incoming patience" and "digest_spec digest tag" and "receive_ready c"
    and "incoming (sock c) = m @ rest" and "answer_frame st m"
  obtains s' b where "incoming s' = rest" "take (length m) b = m" "length b = MAX_RESPONSE_SIZE"
    "atdd_fetch_command digest api c = Some (Done (
       let c' = c\<lparr>sock := s', parse_buf := b, parse_buf_pos := 0\<rparr>; id = from_be_bytes (take 8 (drop 8 m)) in
       if tag (hmac_key (client_config c)) (take (length m - 32) m) = drop (length m - 32) m
       then (1, Some \<lparr>ret_ident = id, ret_data = drop 16 b, rcode = st\<rparr>,
             c'\<lparr>parse_state := (parse_state c)\<lparr>parse_st := st, parse_ident := id, parse_completed := False\<rparr>,
                pending_cmds := (pending_cmds c)\<lparr>completed_pos := completed_pos (pending_cmds c) + 1\<rparr>\<rparr>)
       else (- EINVAL, None, c'\<lparr>parse_state := (parse_state c)\<lparr>parse_st := st, parse_ident := id, parse_completed := True\<rparr>\<rparr>)))"
proof -
  have m: "take 4 m = ATDD_MAGIC" "parse_status_code (m ! 6) = Some st"
      "length m = 48 + (if st = OK \<and> m ! 7 = 0x41 then 4096 else 0)" using assms(5) by (simp_all add: answer_frame_def)
  have buf: "length (parse_buf c) = 4144" using assms(3) by (simp add: receive_ready_def driver_sizes)
  have m48: "48 \<le> length m" using m(3) by simp
  let ?b1 = "write_at 0 (take 48 m) (parse_buf c)"
  obtain s1 where s1: "incoming s1 = drop 48 (m @ rest)"
    "progress_header api c = Some (Done (0, c\<lparr>sock := s1, parse_buf := ?b1, parse_buf_pos := 48\<rparr>))"
    using progress_header_eq[OF assms(1,3)] m48 m(1) assms(4) by (auto split: if_splits)
  have b1: "take 48 ?b1 = take 48 m" "length ?b1 = 4144"
    using m48 buf take_write_at(1)[of 0 "parse_buf c" "take 48 m"] by simp_all
  have nth: "?b1 ! i = m ! i" if "i < 48" for i using b1(1) that by (metis nth_take)
  have id: "take 8 (drop 8 ?b1) = take 8 (drop 8 m)" using arg_cong[OF b1(1), of "\<lambda>b. take 8 (drop 8 b)"] by (simp add: take_drop)
  let ?c1 = "c\<lparr>sock := s1, parse_buf := ?b1, parse_buf_pos := 48,
      parse_state := (parse_state c)\<lparr>parse_st := st, parse_ident := from_be_bytes (take 8 (drop 8 m))\<rparr>\<rparr>"
  obtain s2 where s2: "progress_tcp_data_to_limit api ?c1 (length m) =
      Some (0, ?c1\<lparr>sock := s2, parse_buf := write_at 48 (drop 48 m) ?b1, parse_buf_pos := length m\<rparr>)" "incoming s2 = rest"
  proof (rule progress_to_limit[OF assms(1), of "length m" ?c1])
    show "length m - parse_buf_pos ?c1 \<le> length (incoming (sock ?c1))" using s1(1) by simp
  qed (use that s1(1) m48 in simp)
  let ?b2 = "write_at 48 (drop 48 m) ?b1"
  have b2: "length ?b2 = 4144" "take (length m) ?b2 = m"
    using b1 m48 m(3) take_write_at(1)[of 48 ?b1 "drop 48 m"] by (simp_all add: write_at_def)
  let ?c2 = "?c1\<lparr>sock := s2, parse_buf := ?b2, parse_buf_pos := length m,
      parse_state := (parse_state c)\<lparr>parse_st := st, parse_ident := from_be_bytes (take 8 (drop 8 m)), parse_completed := True\<rparr>\<rparr>"
  have p: "progress_tcp_data api c = Some (Done (0, ?c2))"
  proof -
    have min: "MIN_RESPONSE_SIZE = 48" by (simp add: driver_sizes)
    have limit: "48 + (if st = OK \<and> ?b1 ! 7 = 0x40 + READ_CMD then SECTOR_SIZE else 0) = length m"
      using m(3) nth[of 7] by (simp add: driver_sizes)
    have "parse_status_code (?b1 ! 6) = Some st" using nth[of 6] m(2) by simp
    then show ?thesis by (simp add: progress_tcp_data_def s1(2) min limit id s2(1) Let_def)
  qed
  have v: "validate_cmd_parse_hmac digest ?c2 =
      (if tag (hmac_key (client_config c)) (take (length m - 32) m) = drop (length m - 32) m then 0 else - EINVAL)"
  proof -
    have "take (length m - 32) ?b2 = take (length m - 32) m"
      using arg_cong[OF b2(2), of "take (length m - 32)"] by simp
    moreover have "take 32 (drop (length m - 32) ?b2) = drop (length m - 32) m"
      using arg_cong[OF b2(2), of "drop (length m - 32)"] m48 by (simp add: drop_take)
    ultimately show ?thesis using assms(2)
      by (simp add: validate_cmd_parse_hmac_def digest_spec_def HMAC_TAG_SIZE_def)
  qed
  show thesis
  proof (rule that[OF s2(2) b2(2)])
    show "length ?b2 = MAX_RESPONSE_SIZE" using b2(1) by (simp add: driver_sizes)
  qed (use p v assms(3) in \<open>simp add: atdd_fetch_command_def receive_ready_def Let_def EINVAL_def ATDD_RESPONSE_HEADER_SIZE_def\<close>)
qed

section \<open>Connections\<close>

definition sockaddr_of :: "tcp_addr_info \<Rightarrow> sockaddr_in" where
  "sockaddr_of a = \<lparr>sin_family = AF_INET, sin_port = to_be_bytes 2 (word_of_int (port a) :: 16 word), sin_addr = ip_addr a\<rparr>"

text \<open>Connecting succeeds exactly for the addresses at which somebody listens.\<close>

definition connect_spec :: "'s socket_api \<Rightarrow> (sockaddr_in \<Rightarrow> bool) \<Rightarrow> bool" where
  "connect_spec api up \<longleftrightarrow> (\<forall>s a. fst (kernel_connect api s a) = 0 \<longleftrightarrow> up a)"

definition addr_up :: "(sockaddr_in \<Rightarrow> bool) \<Rightarrow> atdd_client_config \<Rightarrow> nat \<Rightarrow> bool" where
  "addr_up up cfg i \<longleftrightarrow> up (sockaddr_of (atdd_addrs cfg ! i))"

lemma connect_to_eq:
  assumes "connect_spec api up"
  obtains err s where "connect_to api i c =
    (err, if addr_up up (client_config c) i then c\<lparr>sock := s, connected := True, client_error := False\<rparr> else c\<lparr>sock := s\<rparr>)"
    "err = 0 \<longleftrightarrow> addr_up up (client_config c) i"
proof -
  obtain err s where k: "kernel_connect api (sock c) (sockaddr_of (atdd_addrs (client_config c) ! i)) = (err, s)"
    by (cases "kernel_connect api (sock c) (sockaddr_of (atdd_addrs (client_config c) ! i))")
  with assms have "err = 0 \<longleftrightarrow> addr_up up (client_config c) i"
    unfolding connect_spec_def addr_up_def by (metis fst_conv)
  with k that[of err s] show thesis
    unfolding connect_to_def tcp_connect_def sockaddr_of_def[symmetric] k by simp
qed

lemma connect_any_connected:
  assumes "connect_spec api up" and "\<not> connected c" and "connection_target c = t"
    and "client_config c = cfg" and "n = addrs_count cfg"
  shows "(connected (connect_any api k c) \<longleftrightarrow> (\<exists>j<k. addr_up up cfg ((t + 1 + j) mod n))) \<and>
    (connected (connect_any api k c) \<longrightarrow> addr_up up cfg (connection_target (connect_any api k c)))"
  using assms(2-4)
proof (induction k arbitrary: c t)
  case 0
  then show ?case by simp
next
  case (Suc k)
  let ?t = "(t + 1) mod n"
  let ?c = "c\<lparr>connection_target := ?t\<rparr>"
  obtain err s where e: "connect_to api ?t ?c =
    (err, if addr_up up cfg ?t then ?c\<lparr>sock := s, connected := True, client_error := False\<rparr> else ?c\<lparr>sock := s\<rparr>)"
    "err = 0 \<longleftrightarrow> addr_up up cfg ?t"
    by (rule connect_to_eq[OF assms(1), of ?t ?c]) (simp add: Suc.prems(3))
  have any: "connect_any api (Suc k) c = (case connect_to api ?t ?c of (err, c) \<Rightarrow> if err = 0 then c else connect_any api k c)"
    using Suc.prems assms(5) by (simp add: Let_def)
  show ?case
  proof (cases "addr_up up cfg ?t")
    case True
    with e any show ?thesis by (simp add: Ex_less_Suc2)
  next
    case False
    let ?d = "?c\<lparr>sock := s\<rparr>"
    have mod: "(?t + 1 + j) mod n = (t + 1 + Suc j) mod n" for j
      using mod_add_left_eq[of "t + 1" n "1 + j"] by (simp add: ac_simps)
    have "connect_any api (Suc k) c = connect_any api k ?d" using any e False by simp
    moreover have "(connected (connect_any api k ?d) \<longleftrightarrow> (\<exists>j<k. addr_up up cfg ((?t + 1 + j) mod n))) \<and>
        (connected (connect_any api k ?d) \<longrightarrow> addr_up up cfg (connection_target (connect_any api k ?d)))"
      by (rule Suc.IH) (use Suc.prems in simp_all)
    ultimately show ?thesis using False unfolding mod Ex_less_Suc2 by simp
  qed
qed

lemma all_targets: "i < n \<Longrightarrow> \<exists>j<n. (t + 1 + j) mod n = (i :: nat)"
proof -
  assume i: "i < n"
  let ?j = "(i + n - (t + 1) mod n) mod n"
  have "(t + 1) mod n < n" using i by simp
  then have "(t + 1) mod n + (i + n - (t + 1) mod n) = i + n" by linarith
  then have "((t + 1) mod n + (i + n - (t + 1) mod n)) mod n = i" using i by simp
  then have "(t + 1 + ?j) mod n = i" by (metis mod_add_left_eq mod_add_right_eq)
  moreover have "?j < n" using i by simp
  ultimately show ?thesis by blast
qed

lemma establish_connected:
  assumes "connect_spec api up" and "\<not> connected c" and "client_config c = cfg"
    and "addrs_count cfg > 0" and "preferred_addr cfg < addrs_count cfg"
  shows "connected (establish api c) \<longleftrightarrow> (\<exists>i < addrs_count cfg. addr_up up cfg i)"
    and "connected (establish api c) \<Longrightarrow> addr_up up cfg (connection_target (establish api c))"
proof -
  let ?n = "addrs_count cfg" and ?p = "preferred_addr cfg"
  have any: "connected (connect_any api ?n d) \<longleftrightarrow> (\<exists>i < ?n. addr_up up cfg i)"
      "connected (connect_any api ?n d) \<Longrightarrow> addr_up up cfg (connection_target (connect_any api ?n d))"
    if "\<not> connected d" "client_config d = cfg" for d
  proof -
    note c = connect_any_connected[OF assms(1) that(1) refl that(2) refl, of ?n]
    have "(\<exists>j<?n. addr_up up cfg ((connection_target d + 1 + j) mod ?n)) \<longleftrightarrow> (\<exists>i < ?n. addr_up up cfg i)"
      using all_targets[of _ ?n "connection_target d"] mod_less_divisor[OF assms(4)] by metis
    with c show "connected (connect_any api ?n d) \<longleftrightarrow> (\<exists>i < ?n. addr_up up cfg i)"
      "connected (connect_any api ?n d) \<Longrightarrow> addr_up up cfg (connection_target (connect_any api ?n d))" by simp_all
  qed
  obtain err s where e: "connect_to api ?p c =
    (err, if addr_up up cfg ?p then c\<lparr>sock := s, connected := True, client_error := False\<rparr> else c\<lparr>sock := s\<rparr>)"
    "err = 0 \<longleftrightarrow> addr_up up cfg ?p"
    by (rule connect_to_eq[OF assms(1), of ?p c]) (simp add: assms(3))
  show "connected (establish api c) \<longleftrightarrow> (\<exists>i < ?n. addr_up up cfg i)"
      "connected (establish api c) \<Longrightarrow> addr_up up cfg (connection_target (establish api c))"
    using e any[of c] any[of "c\<lparr>sock := s\<rparr>"] assms(2,3,5)
    by (auto simp: establish_def Let_def split: if_splits)
qed

section \<open>Properties\<close>

text \<open>A socket for evaluation: it takes over and returns at most 1000 bytes at a time.\<close>

definition small_api :: "(bytes \<times> bytes) socket_api" where
  "small_api =
     \<lparr>kernel_connect = \<lambda>s a. (if sin_addr a = 7 then 0 else - ECONNRESET, s),
      kernel_sendmsg = \<lambda>s d. (int (min 1000 (length d)), (fst s, snd s @ take (min 1000 (length d)) d)),
      kernel_recvmsg = \<lambda>s n. let k = min (min 1000 n) (length (fst s)) in (int k, take k (fst s), (drop k (fst s), snd s)),
      sock_renew = \<lambda>s. ([], []), sk_has_data = \<lambda>s. fst s \<noteq> []\<rparr>"

definition small_digest :: "bytes \<Rightarrow> bytes \<Rightarrow> int \<times> bytes" where
  "small_digest k d = (0, sum_tag k d)"

definition small_config :: atdd_client_config where
  "small_config = \<lparr>atdd_addrs = [\<lparr>ip_addr = 6, port = 8091\<rparr>, \<lparr>ip_addr = 7, port = 8092\<rparr>], addrs_count = 2,
     preferred_addr = 0, hmac_key = [2]\<rparr>"

definition small_client :: "bytes \<Rightarrow> (bytes \<times> bytes) atdd_tcp_client" where
  "small_client incoming =
     \<lparr>client_config = small_config, sock = (incoming, []), connection_target = 0, connected = True, client_error = False,
      send_buf = ATDD_MAGIC @ [0] @ replicate 4147 9, send_buf_pos = 0,
      pending_cmds = \<lparr>cmds = replicate 256 0, completed_pos = 0, accepted_pos = 1\<rparr>,
      parse_buf = replicate 4144 9, parse_buf_pos = 0,
      parse_state = \<lparr>parse_st = OK, parse_ident = 0, parse_completed = False\<rparr>\<rparr>"

lemma small_specs:
  "send_spec small_api snd" "recv_spec small_api fst (\<lambda>_. 0)" "digest_spec small_digest sum_tag"
  "connect_spec small_api (\<lambda>a. sin_addr a = 7)"
proof -
  show "send_spec small_api snd" by (auto simp: send_spec_def small_api_def min_def)
  show "recv_spec small_api fst (\<lambda>_. 0)" by (auto simp: recv_spec_def small_api_def Let_def min_def)
  show "digest_spec small_digest sum_tag" using hmac_specD(5)[OF sum_mac_spec] by (simp add: digest_spec_def small_digest_def)
  show "connect_spec small_api (\<lambda>a. sin_addr a = 7)" by (simp add: connect_spec_def small_api_def ECONNRESET_def)
qed

lemma small_client_ready: "send_ready (small_client i)" "receive_ready (small_client i)" "connected (small_client i)"
  by (simp_all add: small_client_def send_ready_def receive_ready_def driver_sizes ATDD_MAGIC_def)

lemma establish_buffers:
  "establish api (c\<lparr>send_buf := b, send_buf_pos := n\<rparr>) = (establish api c)\<lparr>send_buf := b, send_buf_pos := n\<rparr>"
proof -
  have to: "connect_to api i (c\<lparr>send_buf := b, send_buf_pos := n\<rparr>) =
      (fst (connect_to api i c), (snd (connect_to api i c))\<lparr>send_buf := b, send_buf_pos := n\<rparr>)" for i and c :: "'a atdd_tcp_client"
    by (simp add: connect_to_def split: prod.splits)
  have any: "connect_any api k (c\<lparr>send_buf := b, send_buf_pos := n\<rparr>) = (connect_any api k c)\<lparr>send_buf := b, send_buf_pos := n\<rparr>"
    for k and c :: "'a atdd_tcp_client"
  proof (induction k arbitrary: c)
    case (Suc k)
    let ?t = "(connection_target c + 1) mod addrs_count (client_config c)"
    obtain err d where d: "connect_to api ?t (c\<lparr>connection_target := ?t\<rparr>) = (err, d)" by fastforce
    have "connect_to api ?t (c\<lparr>send_buf := b, send_buf_pos := n, connection_target := ?t\<rparr>) = (err, d\<lparr>send_buf := b, send_buf_pos := n\<rparr>)"
    proof -
      have "c\<lparr>send_buf := b, send_buf_pos := n, connection_target := ?t\<rparr> = c\<lparr>connection_target := ?t, send_buf := b, send_buf_pos := n\<rparr>"
        by simp
      with to[of ?t "c\<lparr>connection_target := ?t\<rparr>"] d show ?thesis by (simp only: fst_conv snd_conv)
    qed
    with Suc[of d] d show ?case by (simp add: Let_def)
  qed simp
  obtain err d where d: "connect_to api (preferred_addr (client_config c)) c = (err, d)" by fastforce
  moreover from d have "err = 0 \<Longrightarrow> connected d" by (auto simp: connect_to_def split: prod.splits)
  ultimately show ?thesis using to[of "preferred_addr (client_config c)" c] any[of _ c] any[of _ d]
    by (simp add: establish_def Let_def)
qed

lemma small_progress: "send_progress small_api (\<lambda>_. 0)"
  by (auto simp: send_progress_def small_api_def)

lemma send_command_total:
  assumes "send_progress api patience" and "digest_spec digest tag" and "send_ready c" and "wf_request rq"
    and "connected (establish api c)"
  obtains c' where "atdd_send_command digest api c rq ident = Some (Done (0, c'))"
proof -
  let ?m = "driver_message (take 2 (drop 5 (send_buf c))) rq ident"
  obtain b n where p: "prepare_cmd_content digest c rq ident = (0, c\<lparr>send_buf := b, send_buf_pos := n\<rparr>)"
      "take n b = ?m @ tag (hmac_key (client_config c)) ?m"
    by (rule prepare_cmd_content_eq[OF assms(3,4,2)])
  have "take n b \<noteq> []" unfolding p(2) by (simp add: driver_message_def)
  then obtain s where "tcp_send api (sock (establish api c)) (take n b) = Some (Done (0, s))"
    using tcp_send_total[OF assms(1)] by blast
  with p(1) assms(5) that show thesis
    by (simp add: atdd_send_command_def send_atdd_cmd_over_tcp_def establish_buffers Let_def)
qed

lemma send_command_decodes:
  assumes "hmac_spec M tag fed" and "digest_spec digest tag" and "send_spec api outgoing"
    and "send_ready c" and "wf_request rq" and "atdd_send_command digest api c rq ident = Some (Done (0, c'))"
  obtains b n s ids msg where
    "c' = (establish api c)\<lparr>send_buf := b, send_buf_pos := n, sock := s, pending_cmds := (pending_cmds (establish api c))\<lparr>
       cmds := ids, accepted_pos := accepted_pos (pending_cmds (establish api c)) + 1\<rparr>\<rparr>"
    "outgoing s = outgoing (sock (establish api c)) @ msg" "length msg \<le> MAX_CMD_SIZE" "send_ready c'" "connected c'"
    "\<And>system_key rest. deserialize_rc slice_read M system_key (hmac_key (client_config c)) (msg @ rest) =
      Some (Ok ((Client (command_of rq ident), True), rest))"
proof -
  let ?m = "driver_message (take 2 (drop 5 (send_buf c))) rq ident" and ?k = "hmac_key (client_config c)"
  let ?e = "establish api c"
  obtain b n where p: "prepare_cmd_content digest c rq ident = (0, c\<lparr>send_buf := b, send_buf_pos := n\<rparr>)"
      "take n b = ?m @ tag ?k ?m" "n \<le> length b" "length b = MAX_CMD_SIZE" "take 7 b = take 7 (send_buf c)"
    by (rule prepare_cmd_content_eq[OF assms(4,5,2)])
  have pad: "length (take 2 (drop 5 (send_buf c))) = 2" using assms(4) by (simp add: send_ready_def driver_sizes)
  have con: "connected ?e" using assms(6) p(1)
    by (auto simp: atdd_send_command_def send_atdd_cmd_over_tcp_def establish_buffers Let_def EIO_def split: if_splits)
  have ne: "?m @ tag ?k ?m \<noteq> []" by (simp add: driver_message_def)
  from assms(6) con p(1,2) obtain x where x: "tcp_send api (sock ?e) (?m @ tag ?k ?m) = Some x"
    by (auto simp: atdd_send_command_def send_atdd_cmd_over_tcp_def establish_buffers Let_def split: option.splits)
  obtain err s where s: "x = Done (err, s)" "err = 0 \<Longrightarrow> outgoing s = outgoing (sock ?e) @ ?m @ tag ?k ?m"
    using tcp_send_sent[OF assms(3) ne x] by metis
  have err: "err = 0" and c': "c' = ?e\<lparr>send_buf := b, send_buf_pos := n, sock := s, pending_cmds := (pending_cmds ?e)\<lparr>
      cmds := (cmds (pending_cmds ?e))[unat (accepted_pos (pending_cmds ?e)) := ident],
      accepted_pos := accepted_pos (pending_cmds ?e) + 1\<rparr>\<rparr>"
    using assms(6) con p(1,2) x s(1)
    by (auto simp: atdd_send_command_def send_atdd_cmd_over_tcp_def establish_buffers Let_def split: if_splits)
  have "take 5 b = take 5 (send_buf c)" using arg_cong[OF p(5), of "take 5"] by simp
  then have "send_ready c'" using assms(4) p(4) by (simp add: c' send_ready_def)
  moreover have "length (?m @ tag ?k ?m) \<le> MAX_CMD_SIZE" using arg_cong[OF p(2), of length] p(3,4) by simp
  moreover have "deserialize_rc slice_read M system_key ?k ((?m @ tag ?k ?m) @ rest) =
      Some (Ok ((Client (command_of rq ident), True), rest))" for system_key rest
    using driver_message_decodes[OF pad assms(5,2)] hmac_specD(5)[OF assms(1)]
    by (simp add: slice_reader.deserialize_rc_eq[OF assms(1)])
  ultimately show thesis using s(2)[OF err] con by (intro that[OF c', of "?m @ tag ?k ?m"]) (simp_all add: c')
qed

text \<open>
  C12. When the driver reports that a request was sent, the whole command is in the stream of its
  connection, whatever portions the kernel took over, and a process that has the same key decodes
  it to exactly this command, marked as authentic: a read or write of the sector at the
  request's position, with the driver's identifier. The command fits into the send buffer, which
  is ready for the next one.
\<close>

theorem driver_request_decodes:
  assumes "hmac_spec M tag fed" and "digest_spec digest tag" and "send_spec api outgoing"
    and "send_ready c" and "wf_request rq" and "atdd_send_command digest api c rq ident = Some (Done (0, c'))"
  shows "\<exists>msg. outgoing (sock c') = outgoing (sock (establish api c)) @ msg \<and> length msg \<le> MAX_CMD_SIZE \<and>
    send_ready c' \<and> connected c' \<and> accepted_pos (pending_cmds c') = accepted_pos (pending_cmds (establish api c)) + 1 \<and>
    deserialize_rc slice_read M system_key (hmac_key (client_config c)) (msg @ rest) =
      Some (Ok ((Client (command_of rq ident), True), rest))"
  by (rule send_command_decodes[OF assms]) auto

definition small_read :: request where
  "small_read = \<lparr>rq_addr = 1, rq_data_dir = 0, blk_rq_pos = 16, bio_data = replicate 4096 0\<rparr>"

lemma small_read_ok: "wf_request small_read" "c_sector_idx (c_header (command_of small_read i)) = 2"
  by (simp_all add: wf_request_def small_read_def driver_sizes command_of_def drop_bit_eq_div)

theorem driver_request_decodes_witness:
  "\<exists>c' msg. atdd_send_command small_digest small_api (small_client []) small_read 10 = Some (Done (0, c')) \<and>
     snd (sock c') = msg \<and> deserialize_rc slice_read sum_mac [1] [2] (msg @ [5]) =
       Some (Ok ((Client (command_of small_read 10), True), [5]))"
proof -
  have e: "establish small_api (small_client []) = small_client []"
    using small_client_ready(3)[of "[]"] by (simp add: establish_def Let_def)
  obtain c' where c': "atdd_send_command small_digest small_api (small_client []) small_read 10 = Some (Done (0, c'))"
    using send_command_total[OF small_progress small_specs(3) small_client_ready(1) small_read_ok(1)] e small_client_ready(3) by metis
  from driver_request_decodes[OF sum_mac_spec small_specs(3,1) small_client_ready(1) small_read_ok(1) c', of "[1]" "[5]"]
  show ?thesis using c' unfolding e by (auto simp: small_client_def small_config_def)
qed

definition driver_status_of :: "StatusCode \<Rightarrow> driver_status" where
  "driver_status_of status = (case status of StatusOk \<Rightarrow> OK | AuthFailure \<Rightarrow> AUTH_FAILURE | InvalidSectorIndex \<Rightarrow> INVALID_SECTOR_INDEX)"

lemma fetch_response:
  assumes "recv_spec api incoming patience" and "digest_spec digest tag" and "receive_ready c"
    and "incoming (sock c) = response_bytes tag (hmac_key (client_config c)) status cmd data @ rest"
    and "length data = (if status = StatusOk \<and> c_content cmd = Read then 4096 else 0)"
  obtains s' buf ps ret where "atdd_fetch_command digest api c = Some (Done (1, Some ret,
      c\<lparr>sock := s', parse_buf := buf, parse_buf_pos := 0, parse_state := ps,
        pending_cmds := (pending_cmds c)\<lparr>completed_pos := completed_pos (pending_cmds c) + 1\<rparr>\<rparr>))"
    "ret_ident ret = request_identifier (c_header cmd)" "take (length data) (ret_data ret) = data"
    "rcode ret = driver_status_of status" "incoming s' = rest" "length buf = MAX_RESPONSE_SIZE"
proof -
  let ?k = "hmac_key (client_config c)"
  define st where "st = driver_status_of status"
  define b where "b = MAGIC_NUMBER @ [0, 0, status_code_u8 status, if c_content cmd = Read then 0x41 else 0x42] @
      to_be_bytes 8 (request_identifier (c_header cmd)) @ data"
  define m where "m = b @ tag ?k b"
  have t: "length (tag ?k b) = 32" using assms(2) by (simp add: digest_spec_def)
  have b: "length b = 16 + length data" "take 4 b = ATDD_MAGIC" "b ! 6 = status_code_u8 status"
      "b ! 7 = (if c_content cmd = Read then 0x41 else 0x42)" "take 8 (drop 8 b) = to_be_bytes 8 (request_identifier (c_header cmd))"
      "drop 16 b = data"
    by (simp_all add: b_def MAGIC_NUMBER_def ATDD_MAGIC_def)
  have m: "take 4 m = ATDD_MAGIC" "m ! 6 = status_code_u8 status" "m ! 7 = (if c_content cmd = Read then 0x41 else 0x42)"
      "take 8 (drop 8 m) = to_be_bytes 8 (request_identifier (c_header cmd))" "length m = 48 + length data"
      "take (length m - 32) m = b" "drop (length m - 32) m = tag ?k b" "take (length data) (drop 16 m) = data"
    using b t by (simp_all add: m_def nth_append)
  have st: "parse_status_code (status_code_u8 status) = Some st" "st = OK \<longleftrightarrow> status = StatusOk"
    by (cases status; simp add: st_def driver_status_of_def parse_status_code_def)+
  have fr: "answer_frame st m" using m st assms(5) by (simp add: answer_frame_def)
  have inc: "incoming (sock c) = m @ rest" using assms(4) by (simp add: response_bytes_def m_def b_def Let_def)
  show thesis
  proof (rule fetch_frame[OF assms(1-3) inc fr])
    fix s' buf
    assume f: "incoming s' = rest" "take (length m) buf = m" "length buf = MAX_RESPONSE_SIZE"
    "atdd_fetch_command digest api c = Some (Done (
       let c' = c\<lparr>sock := s', parse_buf := buf, parse_buf_pos := 0\<rparr>; id = from_be_bytes (take 8 (drop 8 m)) in
       if tag ?k (take (length m - 32) m) = drop (length m - 32) m
       then (1, Some \<lparr>ret_ident = id, ret_data = drop 16 buf, rcode = st\<rparr>,
             c'\<lparr>parse_state := (parse_state c)\<lparr>parse_st := st, parse_ident := id, parse_completed := False\<rparr>,
                pending_cmds := (pending_cmds c)\<lparr>completed_pos := completed_pos (pending_cmds c) + 1\<rparr>\<rparr>)
       else (- EINVAL, None, c'\<lparr>parse_state := (parse_state c)\<lparr>parse_st := st, parse_ident := id, parse_completed := True\<rparr>\<rparr>)))"
    have "take (length data) (drop 16 buf) = take (length data) (drop 16 (take (length m) buf))"
      using m(5) by (simp add: drop_take)
    then have "take (length data) (drop 16 buf) = data" using f(2) m(8) by simp
    with f(1,3,4) m(4,6,7) show thesis
      by (intro that[of "\<lparr>ret_ident = request_identifier (c_header cmd), ret_data = drop 16 buf, rcode = st\<rparr>"
            "(parse_state c)\<lparr>parse_st := st, parse_ident := request_identifier (c_header cmd), parse_completed := False\<rparr>" buf s'])
        (simp_all add: Let_def from_be_to_be_bytes st_def)
  qed
qed

text \<open>
  C13. An answer of a process is read back whatever portions it arrives in: status, identifier and,
  for a read that succeeded, the sector, with the bytes after it left in the stream. This
  includes refusals, which carry no data.
\<close>

theorem driver_reads_answer:
  assumes "recv_spec api incoming patience" and "digest_spec digest tag" and "receive_ready c"
    and "incoming (sock c) = response_bytes tag (hmac_key (client_config c)) status cmd data @ rest"
    and "length data = (if status = StatusOk \<and> c_content cmd = Read then 4096 else 0)"
  shows "\<exists>c' ret. atdd_fetch_command digest api c = Some (Done (1, Some ret, c')) \<and>
    ret_ident ret = request_identifier (c_header cmd) \<and> take (length data) (ret_data ret) = data \<and>
    rcode ret = (case status of StatusOk \<Rightarrow> OK | AuthFailure \<Rightarrow> AUTH_FAILURE | InvalidSectorIndex \<Rightarrow> INVALID_SECTOR_INDEX) \<and>
    incoming (sock c') = rest \<and> parse_buf_pos c' = 0 \<and>
    completed_pos (pending_cmds c') = completed_pos (pending_cmds c) + 1"
  by (rule fetch_response[OF assms]) (simp add: driver_status_of_def)

theorem driver_reads_answer_witness:
  "\<exists>c' ret. atdd_fetch_command small_digest small_api
       (small_client (response_bytes sum_tag [2] StatusOk read_1 (replicate 4096 5) @ [8])) = Some (Done (1, Some ret, c')) \<and>
     ret_ident ret = 7 \<and> take 4096 (ret_data ret) = replicate 4096 5 \<and> rcode ret = OK \<and> fst (sock c') = [8]"
  using driver_reads_answer[OF small_specs(2,3) small_client_ready(2),
      of "response_bytes sum_tag [2] StatusOk read_1 (replicate 4096 5) @ [8]" StatusOk read_1 "replicate 4096 5" "[8]"]
  by (simp add: small_client_def small_config_def) auto

text \<open>
  C33. A frame whose tag is wrong is refused and no request is counted as completed. A stream that does
  not start with the magic number stops the kernel: the test \<open>BUG_ON(slide != 0)\<close> comes before the
  code that would skip the bytes in front of it.
\<close>

theorem driver_refuses_or_stops:
  assumes "recv_spec api incoming patience" and "digest_spec digest tag" and "receive_ready c"
  shows "(incoming (sock c) = m @ rest \<and> answer_frame st m \<and>
            tag (hmac_key (client_config c)) (take (length m - 32) m) \<noteq> drop (length m - 32) m \<longrightarrow>
          (\<exists>c'. atdd_fetch_command digest api c = Some (Done (- EINVAL, None, c')) \<and> parse_buf_pos c' = 0 \<and>
             pending_cmds c' = pending_cmds c \<and> incoming (sock c') = rest)) \<and>
    (48 \<le> length (incoming (sock c)) \<and> take 4 (incoming (sock c)) \<noteq> ATDD_MAGIC \<longrightarrow>
       atdd_fetch_command digest api c = Some (Fault KernelBug))"
proof (intro conjI impI; elim conjE)
  assume m: "incoming (sock c) = m @ rest" "answer_frame st m"
    "tag (hmac_key (client_config c)) (take (length m - 32) m) \<noteq> drop (length m - 32) m"
  show "\<exists>c'. atdd_fetch_command digest api c = Some (Done (- EINVAL, None, c')) \<and> parse_buf_pos c' = 0 \<and>
      pending_cmds c' = pending_cmds c \<and> incoming (sock c') = rest"
    by (rule fetch_frame[OF assms m(1,2)]) (use m(3) in \<open>simp add: Let_def\<close>)
next
  assume a: "48 \<le> length (incoming (sock c))" "take 4 (incoming (sock c)) \<noteq> ATDD_MAGIC"
  have "progress_header api c = Some (Fault KernelBug)"
    by (rule progress_header_eq[OF assms(1,3) a(1)]) (use a(2) in simp)
  then show "atdd_fetch_command digest api c = Some (Fault KernelBug)"
    using assms(3) by (simp add: atdd_fetch_command_def progress_tcp_data_def receive_ready_def)
qed

theorem driver_refuses_or_stops_witness:
  "atdd_fetch_command small_digest small_api (small_client (replicate 48 0)) = Some (Fault KernelBug) \<and>
   (\<exists>c'. atdd_fetch_command small_digest small_api (small_client (ATDD_MAGIC @ [0, 0, 1, 0x41] @ replicate 40 0)) =
      Some (Done (- EINVAL, None, c')))"
proof -
  let ?m = "ATDD_MAGIC @ [0, 0, 1, 0x41] @ replicate 40 (0 :: u8)"
  have m: "answer_frame AUTH_FAILURE ?m" "take (length ?m - 32) ?m = ATDD_MAGIC @ [0, 0, 1, 0x41] @ replicate 8 0"
      "drop (length ?m - 32) ?m = replicate 32 0"
    by (simp_all add: answer_frame_def ATDD_MAGIC_def parse_status_code_def take_replicate drop_replicate)
  have t: "sum_tag [2] (ATDD_MAGIC @ [0, 0, 1, 0x41] @ replicate 8 0) \<noteq> replicate 32 0"
    by (auto simp: sum_tag_def ATDD_MAGIC_def sum_list_replicate dest: arg_cong[of _ _ last])
  have c: "sock (small_client i) = (i, [])" "hmac_key (client_config (small_client i)) = [2]" for i
    by (simp_all add: small_client_def small_config_def)
  have "take 4 (replicate 48 0) \<noteq> ATDD_MAGIC" by (auto simp: ATDD_MAGIC_def take_replicate dest: arg_cong[of _ _ hd])
  then have "atdd_fetch_command small_digest small_api (small_client (replicate 48 0)) = Some (Fault KernelBug)"
    using driver_refuses_or_stops[OF small_specs(2,3) small_client_ready(2)[of "replicate 48 0"], THEN conjunct2, THEN mp] c by simp
  moreover have "fst (sock (small_client ?m)) = ?m @ [] \<and> answer_frame AUTH_FAILURE ?m \<and>
      sum_tag (hmac_key (client_config (small_client ?m))) (take (length ?m - 32) ?m) \<noteq> drop (length ?m - 32) ?m"
    unfolding c m(2,3) using m(1) t by (simp only: append_Nil2 fst_conv simp_thms)
  then obtain c' where "atdd_fetch_command small_digest small_api (small_client ?m) = Some (Done (- EINVAL, None, c'))"
    using driver_refuses_or_stops[OF small_specs(2,3) small_client_ready(2)[of ?m], THEN conjunct1, THEN mp] by metis
  ultimately show ?thesis by blast
qed

text \<open>
  C35. A client without a connection finds one whenever any of its addresses answers, however
  the attempts before it ended, and is then connected to an address that answers. Otherwise
  the command fails with \<open>EIO\<close> and nothing is sent.
\<close>

theorem driver_finds_a_process:
  assumes "connect_spec api up" and "\<not> connected c" and "client_config c = cfg"
    and "addrs_count cfg = length (atdd_addrs cfg)" and "preferred_addr cfg < length (atdd_addrs cfg)"
  shows "(connected (establish api c) \<longleftrightarrow> (\<exists>a \<in> set (atdd_addrs cfg). up (sockaddr_of a))) \<and>
    (connected (establish api c) \<longrightarrow> up (sockaddr_of (atdd_addrs cfg ! connection_target (establish api c)))) \<and>
    (\<not> connected (establish api c) \<longrightarrow> (\<exists>c'. send_atdd_cmd_over_tcp api c = Some (Done (- EIO, c')) \<and> \<not> connected c'))"
proof -
  have n: "addrs_count cfg > 0" "preferred_addr cfg < addrs_count cfg" using assms(4,5) by auto
  note e = establish_connected[OF assms(1-3) n]
  have "(\<exists>i < addrs_count cfg. addr_up up cfg i) \<longleftrightarrow> (\<exists>a \<in> set (atdd_addrs cfg). up (sockaddr_of a))"
    unfolding addr_up_def assms(4) by (metis in_set_conv_nth)
  with e show ?thesis by (auto simp: addr_up_def send_atdd_cmd_over_tcp_def Let_def)
qed

theorem driver_finds_a_process_witness:
  "\<not> connected ((small_client [])\<lparr>connected := False\<rparr>) \<and>
   connected (establish small_api ((small_client [])\<lparr>connected := False\<rparr>)) \<and>
   sin_addr (sockaddr_of (atdd_addrs small_config ! connection_target (establish small_api ((small_client [])\<lparr>connected := False\<rparr>)))) = 7"
  using driver_finds_a_process[OF small_specs(4), of "(small_client [])\<lparr>connected := False\<rparr>" small_config]
  by (simp add: small_client_def small_config_def sockaddr_of_def)

end
