(* ===== verification/Driver_Relay.thy ===== *)
theory Driver_Relay
  imports Driver_Client
begin

text \<open>
  The relay threads and the block device of the kernel module: \<^verbatim>\<open>src/driver/atomic_disc_driver.c\<close>.

  A relay holds a ring of 256 requests with three positions of 8 bits, which wrap around: up to
  \<open>buf_accepted_pos\<close> requests were accepted, up to \<open>buf_tcp_forwarded_pos\<close> they were sent on the
  present connection, and up to \<open>buf_completed_pos\<close> they have ended. Answers may come in any order;
  the entry of the request that has ended is swapped to the completed position. Memory that was
  allocated but not written has arbitrary contents. The field \<open>ended\<close> is not a variable of the
  program: it records the calls of \<open>blk_end_request_all\<close> with the status and the data that
  was copied into the request before.
\<close>

section \<open>State\<close>

definition ATDD_REQUESTS_BUF_SIZE :: nat where "ATDD_REQUESTS_BUF_SIZE = 256"
definition ATDD_CLIENT_SEND_AHEAD :: u8 where "ATDD_CLIENT_SEND_AHEAD = 255"
definition ATDD_THREADS_COUNT :: nat where "ATDD_THREADS_COUNT = 10"

record atdd_request =
  rq_ident :: u64
  rq_content :: request

type_synonym blk_end = "request \<times> int \<times> bytes option"

record 's atdd_ktread_data =
  buf_tcp_forwarded_pos :: u8
  request_ident_counter :: u64
  atdd_c :: "'s atdd_tcp_client"
  requests_buf :: "atdd_request list"
  buf_accepted_pos :: u8
  buf_completed_pos :: u8
  ended :: "blk_end list"

text \<open>
  \<open>data_mem\<close> and \<open>requests_mem\<close> are what the two allocations return, \<open>R\<close> the resources of the client.
\<close>

definition atdd_kthread_data_create ::
    "bool \<Rightarrow> atdd_request list option \<Rightarrow> 's client_resources \<Rightarrow> atdd_client_config \<Rightarrow> nat \<Rightarrow> int + 's atdd_ktread_data" where
  "atdd_kthread_data_create data_mem requests_mem R shared_conf i =
     (if \<not> data_mem then Inl (- ENOMEM)
      else case requests_mem of None \<Rightarrow> Inl (- ENOMEM) | Some buf \<Rightarrow>
        (case atdd_client_create R (shared_conf\<lparr>preferred_addr := i mod addrs_count shared_conf\<rparr>) of
           Inl err \<Rightarrow> Inl err
         | Inr c \<Rightarrow>
             Inr \<lparr>buf_tcp_forwarded_pos = 0, request_ident_counter = of_nat i, atdd_c = c, requests_buf = buf,
                  buf_accepted_pos = 0, buf_completed_pos = 0, ended = []\<rparr>))"

section \<open>Answers\<close>

fun convert_atdd_to_blk_status :: "driver_status \<Rightarrow> int" where
  "convert_atdd_to_blk_status OK = 0"
| "convert_atdd_to_blk_status AUTH_FAILURE = - EIO"
| "convert_atdd_to_blk_status INVALID_SECTOR_INDEX = - EIO"

definition atdd_find_request_pos :: "atdd_request list \<Rightarrow> u64 \<Rightarrow> int" where
  "atdd_find_request_pos buf ident =
     (case find (\<lambda>pos. rq_ident (buf ! pos) = ident) [0..<ATDD_REQUESTS_BUF_SIZE] of
        Some pos \<Rightarrow> int pos | None \<Rightarrow> - 1)"

text \<open>
  The body of the loop of \<open>atdd_finish_all_completed_requests\<close>. \<open>rq\<close> is the variable of this name:
  it keeps its value from one iteration to the next, and has none before the first one.
\<close>

definition finish_one ::
    "atdd_cmd_return \<Rightarrow> request option \<Rightarrow> 's atdd_ktread_data \<Rightarrow> ('s atdd_ktread_data \<times> request option) run" where
  "finish_one cmd_r rq data =
     (let rq_pos = atdd_find_request_pos (requests_buf data) (ret_ident cmd_r) in
      if rq_pos < 0 then
        (case rq of
           None \<Rightarrow> Fault Uninitialised
         | Some r \<Rightarrow> Done (data\<lparr>ended := ended data @ [(r, - EIO, None)]\<rparr>, rq))
      else
        let p = nat rq_pos;
            c = unat (buf_completed_pos data);
            r = rq_content (requests_buf data ! p);
            buf = (requests_buf data)[p := requests_buf data ! c];
            buf = buf[c := \<lparr>rq_ident = ret_ident cmd_r, rq_content = r\<rparr>];
            data = data\<lparr>requests_buf := buf, buf_completed_pos := buf_completed_pos data + 1\<rparr>;
            rq_status = convert_atdd_to_blk_status (rcode cmd_r) in
        if rq_status \<noteq> 0 then Done (data\<lparr>ended := ended data @ [(r, rq_status, None)]\<rparr>, Some r)
        else Done (data\<lparr>ended := ended data @
                     [(r, 0, if rq_data_dir r = 0 then Some (take SECTOR_SIZE (ret_data cmd_r)) else None)]\<rparr>, Some r))"

partial_function (option) finish_loop ::
    "(bytes \<Rightarrow> bytes \<Rightarrow> int \<times> bytes) \<Rightarrow> 's socket_api \<Rightarrow> request option \<Rightarrow> 's atdd_ktread_data \<Rightarrow>
       (int \<times> 's atdd_ktread_data) run option" where
  "finish_loop digest api rq data =
     (case atdd_fetch_command digest api (atdd_c data) of
        None \<Rightarrow> None
      | Some (Fault f) \<Rightarrow> Some (Fault f)
      | Some (Done (err, ret, c)) \<Rightarrow>
          (case (if err > 0 then ret else None) of
             None \<Rightarrow> Some (Done (if err < 0 then err else 0, data\<lparr>atdd_c := c\<rparr>))
           | Some cmd_r \<Rightarrow>
               (case finish_one cmd_r rq (data\<lparr>atdd_c := c\<rparr>) of
                  Fault f \<Rightarrow> Some (Fault f)
                | Done (data, rq) \<Rightarrow> finish_loop digest api rq data)))"

definition atdd_finish_all_completed_requests ::
    "(bytes \<Rightarrow> bytes \<Rightarrow> int \<times> bytes) \<Rightarrow> 's socket_api \<Rightarrow> 's atdd_ktread_data \<Rightarrow> (int \<times> 's atdd_ktread_data) run option" where
  "atdd_finish_all_completed_requests digest api data = finish_loop digest api None data"

section \<open>Sending\<close>

definition atdd_cmds_to_send :: "'s atdd_ktread_data \<Rightarrow> nat" where
  "atdd_cmds_to_send data =
     unat (min (buf_accepted_pos data - buf_tcp_forwarded_pos data)
               (ATDD_CLIENT_SEND_AHEAD - (buf_tcp_forwarded_pos data - buf_completed_pos data)))"

fun send_requests ::
    "(bytes \<Rightarrow> bytes \<Rightarrow> int \<times> bytes) \<Rightarrow> 's socket_api \<Rightarrow> nat \<Rightarrow> 's atdd_ktread_data \<Rightarrow>
       (int \<times> 's atdd_ktread_data) run option" where
  "send_requests digest api 0 data = Some (Done (0, data))"
| "send_requests digest api (Suc cmds_to_send) data =
     (let e = requests_buf data ! unat (buf_tcp_forwarded_pos data) in
      case atdd_send_command digest api (atdd_c data) (rq_content e) (rq_ident e) of
        None \<Rightarrow> None
      | Some (Fault f) \<Rightarrow> Some (Fault f)
      | Some (Done (err, c)) \<Rightarrow>
          let data = data\<lparr>atdd_c := c\<rparr> in
          if err < 0 then Some (Done (err, data))
          else send_requests digest api cmds_to_send
                 (data\<lparr>buf_tcp_forwarded_pos := buf_tcp_forwarded_pos data + 1\<rparr>))"

definition atdd_send_accepted_requests ::
    "(bytes \<Rightarrow> bytes \<Rightarrow> int \<times> bytes) \<Rightarrow> 's socket_api \<Rightarrow> 's atdd_ktread_data \<Rightarrow> (int \<times> 's atdd_ktread_data) run option" where
  "atdd_send_accepted_requests digest api data = send_requests digest api (atdd_cmds_to_send data) data"

section \<open>The thread\<close>

definition rewind :: "'s atdd_ktread_data \<Rightarrow> 's atdd_ktread_data" where
  "rewind data = data\<lparr>buf_tcp_forwarded_pos := buf_completed_pos data\<rparr>"

text \<open>What the loop of \<open>atdd_main\<close> does each time after it was woken up, unless it is to stop.\<close>

definition atdd_main_iteration ::
    "(bytes \<Rightarrow> bytes \<Rightarrow> int \<times> bytes) \<Rightarrow> 's socket_api \<Rightarrow> 's atdd_ktread_data \<Rightarrow> 's atdd_ktread_data run option" where
  "atdd_main_iteration digest api data =
     (let data = (if client_error (atdd_c data)
                  then (rewind data)\<lparr>atdd_c := atdd_client_clear_error (atdd_c data)\<rparr> else data);
          fetched = (if atdd_client_has_data api (atdd_c data)
                     then atdd_finish_all_completed_requests digest api data else Some (Done (0, data)))
      in case fetched of
           None \<Rightarrow> None
         | Some (Fault f) \<Rightarrow> Some (Fault f)
         | Some (Done (err, data)) \<Rightarrow>
             (case atdd_send_accepted_requests digest api (if err < 0 then rewind data else data) of
                None \<Rightarrow> None
              | Some (Fault f) \<Rightarrow> Some (Fault f)
              | Some (Done (err, data)) \<Rightarrow> Some (Done (if err < 0 then rewind data else data))))"

section \<open>The block device\<close>

text \<open>The operands of the test for a full ring are promoted to \<open>int\<close> before they are subtracted.\<close>

definition submit_atdd_request :: "'s atdd_ktread_data \<Rightarrow> request \<Rightarrow> int \<times> 's atdd_ktread_data" where
  "submit_atdd_request relay rq =
     (if int (unat (buf_accepted_pos relay)) - int (unat (buf_completed_pos relay)) = 255 then (- ENOSPC, relay)
      else
        (0, relay\<lparr>requests_buf := (requests_buf relay)[unat (buf_accepted_pos relay) :=
                     \<lparr>rq_ident = request_ident_counter relay, rq_content = rq\<rparr>],
                  buf_accepted_pos := buf_accepted_pos relay + 1,
                  request_ident_counter := request_ident_counter relay + of_nat ATDD_THREADS_COUNT\<rparr>))"

record 's atdd_dev =
  relay_data :: "'s atdd_ktread_data list"
  thread_rq_target :: u8
  skipped :: "request list"

text \<open>The inner loop of \<open>atdd_block_request\<close>, and the loop over the requests of the queue. A request
  comes with the result of \<open>blk_rq_is_passthrough\<close>; the result is the queue that is left.\<close>

partial_function (option) submit_loop ::
    "'s atdd_ktread_data list \<Rightarrow> u8 \<Rightarrow> u8 \<Rightarrow> request \<Rightarrow> (int \<times> 's atdd_ktread_data list) option" where
  "submit_loop relays start target rq =
     (case submit_atdd_request (relays ! unat target) rq of (err, relay) \<Rightarrow>
        let relays = relays[unat target := relay] in
        if err = 0 then Some (0, relays)
        else
          let target = (target + 1) mod of_nat ATDD_THREADS_COUNT in
          if target = start then Some (- ENOSPC, relays) else submit_loop relays start target rq)"

fun atdd_block_request :: "(bool \<times> request) list \<Rightarrow> 's atdd_dev \<Rightarrow> ((bool \<times> request) list \<times> 's atdd_dev) option" where
  "atdd_block_request [] dev = Some ([], dev)"
| "atdd_block_request ((passthrough, rq) # q) dev =
     (if passthrough then atdd_block_request q (dev\<lparr>skipped := skipped dev @ [rq]\<rparr>)
      else
        case submit_loop (relay_data dev) (thread_rq_target dev) (thread_rq_target dev) rq of
          None \<Rightarrow> None
        | Some (err, relays) \<Rightarrow>
            let dev = dev\<lparr>relay_data := relays,
                          thread_rq_target := (thread_rq_target dev + 1) mod of_nat ATDD_THREADS_COUNT\<rparr> in
            if err \<noteq> 0 then Some ((passthrough, rq) # q, dev) else atdd_block_request q dev)"

section \<open>Loading the module\<close>

text \<open>
  \<open>mem i\<close> is what the kernel returns to the creation of relay \<open>i\<close>, \<open>kthread i\<close> the result of starting
  its thread. The error path stops the threads that were started and frees everything.
\<close>

fun start_relays ::
    "(nat \<Rightarrow> bool \<times> atdd_request list option \<times> 's client_resources) \<Rightarrow> (nat \<Rightarrow> int) \<Rightarrow> atdd_client_config \<Rightarrow>
       nat list \<Rightarrow> int + 's atdd_ktread_data list" where
  "start_relays mem kthread conf [] = Inr []"
| "start_relays mem kthread conf (i # is) =
     (case mem i of (data_mem, requests_mem, R) \<Rightarrow>
        case atdd_kthread_data_create data_mem requests_mem R conf i of
          Inl err \<Rightarrow> Inl err
        | Inr data \<Rightarrow>
            if kthread i \<noteq> 0 then Inl (kthread i)
            else (case start_relays mem kthread conf is of Inl err \<Rightarrow> Inl err | Inr ds \<Rightarrow> Inr (data # ds)))"

definition atdd_dev_init ::
    "(string \<Rightarrow> u32) \<Rightarrow> (string \<Rightarrow> int + int) \<Rightarrow> bool \<Rightarrow> bool \<Rightarrow>
     (nat \<Rightarrow> bool \<times> atdd_request list option \<times> 's client_resources) \<Rightarrow> (nat \<Rightarrow> int) \<Rightarrow> bool \<Rightarrow>
     string \<Rightarrow> string \<Rightarrow> (int + 's atdd_dev) run" where
  "atdd_dev_init in_aton kstrtoint key_mem addrs_mem mem kthread disk_mem hmac processes =
     (case parse_hmac_key key_mem hmac of
        Inl err \<Rightarrow> Done (Inl err)
      | Inr key \<Rightarrow>
          (case parse_atdd_addrs in_aton kstrtoint addrs_mem processes
                  \<lparr>atdd_addrs = [], addrs_count = 0, preferred_addr = 0, hmac_key = key\<rparr> of
             Fault f \<Rightarrow> Fault f
           | Done (err, conf) \<Rightarrow>
               if err \<noteq> 0 then Done (Inl err)
               else
                 (case start_relays mem kthread conf [0..<ATDD_THREADS_COUNT] of
                    Inl err \<Rightarrow> Done (Inl err)
                  | Inr relays \<Rightarrow>
                      if \<not> disk_mem then Done (Inl (- ENOMEM))
                      else Done (Inr \<lparr>relay_data = relays, thread_rq_target = 0, skipped = []\<rparr>))))"

definition atdd_init ::
    "(string \<Rightarrow> u32) \<Rightarrow> (string \<Rightarrow> int + int) \<Rightarrow> bool \<Rightarrow> bool \<Rightarrow>
     (nat \<Rightarrow> bool \<times> atdd_request list option \<times> 's client_resources) \<Rightarrow> (nat \<Rightarrow> int) \<Rightarrow> bool \<Rightarrow> int \<Rightarrow>
     string option \<Rightarrow> string option \<Rightarrow> (int + 's atdd_dev) run" where
  "atdd_init in_aton kstrtoint key_mem addrs_mem mem kthread disk_mem major hmac processes =
     (case hmac of None \<Rightarrow> Done (Inl (- EINVAL)) | Some h \<Rightarrow>
        (case processes of None \<Rightarrow> Done (Inl (- EINVAL)) | Some p \<Rightarrow>
           if major < 0 then Done (Inl major)
           else atdd_dev_init in_aton kstrtoint key_mem addrs_mem mem kthread disk_mem h p))"

section \<open>The ring\<close>

text \<open>The requests that have not ended, in the order of the ring, and those of them that were sent.\<close>

definition slot :: "'s atdd_ktread_data \<Rightarrow> nat \<Rightarrow> nat" where
  "slot r k = unat (buf_completed_pos r + of_nat k)"

definition unfinished :: "'s atdd_ktread_data \<Rightarrow> nat" where
  "unfinished r = unat (buf_accepted_pos r - buf_completed_pos r)"

definition sent_ahead :: "'s atdd_ktread_data \<Rightarrow> nat" where
  "sent_ahead r = unat (buf_tcp_forwarded_pos r - buf_completed_pos r)"

definition window :: "'s atdd_ktread_data \<Rightarrow> atdd_request list" where
  "window r = map (\<lambda>k. requests_buf r ! slot r k) [0..<unfinished r]"

definition in_flight :: "'s atdd_ktread_data \<Rightarrow> atdd_request list" where
  "in_flight r = take (sent_ahead r) (window r)"

lemma unat_u8: "unat (x :: u8) < 256"
  by (rule order_less_le_trans, rule unsigned_less) simp

lemma slot_less [simp]: "slot r k < 256"
  by (simp add: slot_def unat_u8)

lemma slot_eq: "slot r k = (unat (buf_completed_pos r) + k) mod 256"
  by (simp add: slot_def unat_word_ariths unat_of_nat mod_add_right_eq)

lemma slot_inj: "j < 256 \<Longrightarrow> k < 256 \<Longrightarrow> slot r j = slot r k \<longleftrightarrow> j = k"
proof -
  assume jk: "j < 256" "k < 256"
  have "slot r j = slot r k \<longleftrightarrow> (of_nat j :: u8) = of_nat k"
    unfolding slot_def by (simp flip: word_unat_eq_iff)
  also have "\<dots> \<longleftrightarrow> j = k" using jk by (simp add: word_of_nat_eq_iff take_bit_nat_eq_self)
  finally show ?thesis .
qed

lemma unfinished_less: "unfinished r < 256" "sent_ahead r < 256"
  by (simp_all add: unfinished_def sent_ahead_def unat_u8)

lemma slot_unfinished: "slot r (unfinished r) = unat (buf_accepted_pos r)" "slot r 0 = unat (buf_completed_pos r)"
    "slot r (sent_ahead r) = unat (buf_tcp_forwarded_pos r)"
  by (simp_all add: slot_def unfinished_def sent_ahead_def)

lemma length_window [simp]: "length (window r) = unfinished r"
  by (simp add: window_def)

lemma nth_window: "k < unfinished r \<Longrightarrow> window r ! k = requests_buf r ! slot r k"
  by (simp add: window_def)

text \<open>
  The invariant of relay \<open>i\<close> after it has accepted \<open>n\<close> requests. Slots that were never written
  come after all others, so a search from the front does not see them before it has seen a request
  that was accepted.
\<close>

definition relay_inv :: "nat \<Rightarrow> nat \<Rightarrow> 's atdd_ktread_data \<Rightarrow> bool" where
  "relay_inv i n r \<longleftrightarrow>
     length (requests_buf r) = ATDD_REQUESTS_BUF_SIZE \<and> buf_accepted_pos r = of_nat n \<and>
     request_ident_counter r = of_nat (i + 10 * n) \<and> i + 10 * n < 2 ^ 64 \<and>
     sent_ahead r \<le> unfinished r \<and> unfinished r \<le> n \<and>
     distinct (map rq_ident (take n (requests_buf r))) \<and>
     (\<forall>e \<in> set (take n (requests_buf r)). unat (rq_ident e) < i + 10 * n)"

lemma relay_invD:
  assumes "relay_inv i n r"
  shows "length (requests_buf r) = 256" "buf_accepted_pos r = of_nat n" "request_ident_counter r = of_nat (i + 10 * n)"
    "i + 10 * n < 2 ^ 64" "sent_ahead r \<le> unfinished r" "unfinished r \<le> n"
    "distinct (map rq_ident (take n (requests_buf r)))"
    "\<And>e. e \<in> set (take n (requests_buf r)) \<Longrightarrow> unat (rq_ident e) < i + 10 * n"
  using assms by (simp_all add: relay_inv_def ATDD_REQUESTS_BUF_SIZE_def)

text \<open>An unfinished request is in a slot that was written.\<close>

lemma slot_written:
  assumes "relay_inv i n r" and "k < unfinished r"
  shows "slot r k < n"
proof (cases "n < 256")
  case True
  note inv = relay_invD[OF assms(1)]
  have a: "unat (buf_accepted_pos r) = n" using inv(2) True by (simp add: unat_of_nat)
  have "(unat (buf_completed_pos r) + unfinished r) mod 256 = n"
    using slot_unfinished(1)[of r] a by (simp add: slot_eq)
  with unat_u8[of "buf_completed_pos r"] inv(6) True assms(2) have "unat (buf_completed_pos r) + unfinished r = n"
    by (simp add: mod_if split: if_splits)
  with True assms(2) show ?thesis by (simp add: slot_eq)
qed (use slot_less[of r k] in linarith)

lemma window_distinct:
  assumes "relay_inv i n r"
  shows "distinct (map rq_ident (window r))"
proof -
  note inv = relay_invD[OF assms]
  have "rq_ident (window r ! j) \<noteq> rq_ident (window r ! k)" if jk: "j < unfinished r" "k < unfinished r" "j \<noteq> k" for j k
  proof -
    have s: "slot r j < n" "slot r k < n" using slot_written[OF assms] jk by simp_all
    have "slot r j \<noteq> slot r k" using slot_inj[of j k r] jk unfinished_less(1)[of r] by simp
    with s inv(1,7) have "map rq_ident (take n (requests_buf r)) ! slot r j \<noteq> map rq_ident (take n (requests_buf r)) ! slot r k"
      by (subst nth_eq_iff_index_eq) simp_all
    with s jk inv(1) show ?thesis by (simp add: nth_window)
  qed
  then show ?thesis by (simp add: distinct_conv_nth)
qed

lemma find_written:
  assumes "relay_inv i n r" and "p < n" and "p < 256"
  shows "atdd_find_request_pos (requests_buf r) (rq_ident (requests_buf r ! p)) = int p"
proof -
  note inv = relay_invD[OF assms(1)]
  let ?P = "\<lambda>pos. rq_ident (requests_buf r ! pos) = rq_ident (requests_buf r ! p)"
  have "\<not> ?P q" if "q < p" for q
  proof -
    have q: "q < 256" using that assms(3) by linarith
    then have "map rq_ident (take n (requests_buf r)) ! q \<noteq> map rq_ident (take n (requests_buf r)) ! p"
      using that assms(2,3) inv(1,7) by (subst nth_eq_iff_index_eq) simp_all
    with q that assms(2,3) inv(1) show ?thesis by simp
  qed
  moreover have "[0..<256] ! q = q" if "q \<le> p" for q
    using that assms(3) by (subst nth_upt) linarith+
  ultimately have "find ?P [0..<256] = Some p"
    using assms(3) unfolding find_Some_iff by (intro exI[of _ p]) simp
  then show ?thesis by (simp add: atdd_find_request_pos_def ATDD_REQUESTS_BUF_SIZE_def)
qed

lemma find_unfinished:
  assumes "relay_inv i n r" and "k < unfinished r"
  shows "atdd_find_request_pos (requests_buf r) (rq_ident (window r ! k)) = int (slot r k)"
  using find_written[OF assms(1) slot_written[OF assms] slot_less] assms(2) by (simp add: nth_window)

section \<open>The operations on the ring\<close>

text \<open>A request is accepted behind all others as long as fewer than 255 are unfinished.\<close>

lemma unat_Suc_u8: "unat (x :: u8) < 255 \<Longrightarrow> unat (x + 1) = Suc (unat x)"
  by (simp add: unat_word_ariths)

lemma submit_refuses:
  "fst (submit_atdd_request r rq) \<noteq> 0 \<longleftrightarrow> buf_accepted_pos r = 255 \<and> buf_completed_pos r = 0"
proof -
  have "int (unat (buf_accepted_pos r)) - int (unat (buf_completed_pos r)) = 255 \<longleftrightarrow>
      unat (buf_accepted_pos r) = 255 \<and> unat (buf_completed_pos r) = 0"
    using unat_u8[of "buf_accepted_pos r"] by linarith
  then show ?thesis by (simp add: submit_atdd_request_def ENOSPC_def word_unat_eq_iff)
qed

lemma submit_window:
  assumes "relay_inv i n r" and "unfinished r < 255" and "i + 10 * Suc n < 2 ^ 64"
    and "submit_atdd_request r rq = (err, r')"
  shows "err = 0" and "relay_inv i (Suc n) r'"
    and "window r' = window r @ [\<lparr>rq_ident = of_nat (i + 10 * n), rq_content = rq\<rparr>]" and "in_flight r' = in_flight r"
    and "ended r' = ended r" and "atdd_c r' = atdd_c r"
proof -
  note inv = relay_invD[OF assms(1)]
  let ?e = "\<lparr>rq_ident = of_nat (i + 10 * n), rq_content = rq\<rparr>" and ?a = "unat (buf_accepted_pos r)"
  have "\<not> (buf_accepted_pos r = 255 \<and> buf_completed_pos r = 0)" using assms(2) by (auto simp: unfinished_def)
  then show err: "err = 0" using submit_refuses[of r rq] assms(4) by auto
  have r': "r' = r\<lparr>requests_buf := (requests_buf r)[?a := ?e], buf_accepted_pos := buf_accepted_pos r + 1,
      request_ident_counter := of_nat (i + 10 * Suc n)\<rparr>"
    using assms(4) err inv(3) by (auto simp: submit_atdd_request_def ATDD_THREADS_COUNT_def ENOSPC_def split: if_splits)
  have u: "unfinished r' = Suc (unfinished r)" "sent_ahead r' = sent_ahead r" "slot r' = slot r"
    using unat_Suc_u8[of "buf_accepted_pos r - buf_completed_pos r"] assms(2)
    by (simp_all add: r' unfinished_def sent_ahead_def slot_def fun_eq_iff algebra_simps)
  have a: "?a = slot r (unfinished r)" by (simp add: slot_unfinished)
  have old: "requests_buf r' ! slot r k = requests_buf r ! slot r k" if "k < unfinished r" for k
    using slot_inj[of k "unfinished r" r] that unfinished_less(1)[of r] by (simp add: r' a)
  have "window r' = map (\<lambda>k. requests_buf r' ! slot r k) [0..<unfinished r] @ [requests_buf r' ! slot r (unfinished r)]"
    unfolding window_def u by simp
  also have "map (\<lambda>k. requests_buf r' ! slot r k) [0..<unfinished r] = window r"
    unfolding window_def by (rule map_cong[OF refl]) (simp add: old)
  also have "requests_buf r' ! slot r (unfinished r) = ?e" using inv(1) slot_less[of r "unfinished r"] by (simp add: r' a)
  finally show w: "window r' = window r @ [?e]" .
  show "in_flight r' = in_flight r" using inv(5) by (simp add: in_flight_def w u)
  show "ended r' = ended r" "atdd_c r' = atdd_c r" by (simp_all add: r')
  have id: "unat (of_nat (i + 10 * n) :: u64) = i + 10 * n"
    using inv(4) by (simp only: unat_of_nat) simp
  have fresh: "of_nat (i + 10 * n) \<notin> rq_ident ` set (take n (requests_buf r))"
    using inv(8) id by (metis imageE less_irrefl)
  have "set (take (Suc n) (requests_buf r')) \<subseteq> insert ?e (set (take n (requests_buf r))) \<and>
      distinct (map rq_ident (take (Suc n) (requests_buf r')))"
  proof (cases "n < 256")
    case True
    then have "?a = n" using inv(2) by (simp add: unat_of_nat)
    then have "take (Suc n) (requests_buf r') = take n (requests_buf r) @ [?e]"
      using inv(1) True by (simp add: r' take_Suc_conv_app_nth)
    with fresh inv(7) show ?thesis by auto
  next
    case False
    then have all: "take n (requests_buf r) = requests_buf r" "take (Suc n) (requests_buf r') = (requests_buf r)[?a := ?e]"
      using inv(1) by (simp_all add: r')
    have "distinct ((map rq_ident (requests_buf r))[?a := of_nat (i + 10 * n)])"
      using inv(7) fresh all(1) by (intro distinct_list_update) auto
    then show ?thesis unfolding all using set_update_subset_insert[of "requests_buf r" ?a ?e] by (simp add: map_update)
  qed
  moreover have "unat (rq_ident e) < i + 10 * Suc n" if "e \<in> insert ?e (set (take n (requests_buf r)))" for e
    using that inv(8)[of e] id by auto
  ultimately show "relay_inv i (Suc n) r'"
    using inv assms(3) u unfolding relay_inv_def by (auto simp: r' ATDD_REQUESTS_BUF_SIZE_def)
qed

text \<open>An answer removes its request from the window, wherever in the part that was sent it is.\<close>

lemma mset_drop_update:
  "j < length w \<Longrightarrow> mset (drop 1 (w[j := w ! 0])) = mset w - {#w ! j#}"
proof (cases w)
  case (Cons x xs)
  assume j: "j < length w"
  show ?thesis
  proof (cases j)
    case (Suc k)
    with j Cons have "mset (drop 1 (w[j := w ! 0])) = add_mset x (mset xs - {#xs ! k#})" by (simp add: mset_update)
    moreover have "xs ! k \<in># mset xs" using j Suc Cons by simp
    ultimately show ?thesis using Cons Suc by (simp add: add_mset_diff_bothsides)
  qed (simp add: Cons)
qed simp

definition answer_end :: "request \<Rightarrow> atdd_cmd_return \<Rightarrow> blk_end" where
  "answer_end rq cmd_r =
     (rq, convert_atdd_to_blk_status (rcode cmd_r),
      if rcode cmd_r = OK \<and> rq_data_dir rq = 0 then Some (take SECTOR_SIZE (ret_data cmd_r)) else None)"

lemma convert_ok: "convert_atdd_to_blk_status st = 0 \<longleftrightarrow> st = OK"
  by (cases st) (simp_all add: EIO_def)

text \<open>The body of the loop at a slot that holds the identifier of the answer, and the positions afterwards.\<close>

definition swap_ended :: "atdd_cmd_return \<Rightarrow> nat \<Rightarrow> 's atdd_ktread_data \<Rightarrow> 's atdd_ktread_data" where
  "swap_ended cmd_r p r =
     (let c = unat (buf_completed_pos r); buf = requests_buf r in
      r\<lparr>requests_buf := buf[p := buf ! c, c := buf ! p], buf_completed_pos := buf_completed_pos r + 1,
        ended := ended r @ [answer_end (rq_content (buf ! p)) cmd_r]\<rparr>)"

lemma finish_one_found:
  assumes "atdd_find_request_pos (requests_buf r) (ret_ident cmd_r) = int p" and "ret_ident cmd_r = rq_ident (requests_buf r ! p)"
  shows "finish_one cmd_r rq r = Done (swap_ended cmd_r p r, Some (rq_content (requests_buf r ! p)))"
proof -
  have eta: "\<lparr>rq_ident = rq_ident (requests_buf r ! p), rq_content = rq_content (requests_buf r ! p)\<rparr> = requests_buf r ! p" by simp
  from assms convert_ok[of "rcode cmd_r"] show ?thesis
    by (simp add: finish_one_def swap_ended_def Let_def answer_end_def eta)
qed

lemma swap_ended_positions:
  "unfinished r > 0 \<Longrightarrow> unfinished (swap_ended cmd_r p r) = unfinished r - 1"
  "sent_ahead r > 0 \<Longrightarrow> sent_ahead (swap_ended cmd_r p r) = sent_ahead r - 1"
  "slot (swap_ended cmd_r p r) k = slot r (Suc k)"
proof -
  have "unat (x - (y + 1)) = unat (x - y) - 1" if "unat (x - y) > 0" for x y :: u8
  proof -
    from that have "x \<noteq> y" by auto
    with unat_minus_one[of "x - y"] show ?thesis by (simp add: diff_diff_eq)
  qed
  then show "unfinished r > 0 \<Longrightarrow> unfinished (swap_ended cmd_r p r) = unfinished r - 1"
    "sent_ahead r > 0 \<Longrightarrow> sent_ahead (swap_ended cmd_r p r) = sent_ahead r - 1"
    "slot (swap_ended cmd_r p r) k = slot r (Suc k)"
    by (simp_all add: swap_ended_def Let_def unfinished_def sent_ahead_def slot_def add.assoc)
qed

lemma finish_window:
  assumes "relay_inv i n r" and "j < sent_ahead r" and "ret_ident cmd_r = rq_ident (window r ! j)"
  obtains r' where "finish_one cmd_r rq r = Done (r', Some (rq_content (window r ! j)))"
    "relay_inv i n r'" "mset (window r') = mset (window r) - {#window r ! j#}"
    "mset (in_flight r') = mset (in_flight r) - {#window r ! j#}"
    "ended r' = ended r @ [answer_end (rq_content (window r ! j)) cmd_r]" "atdd_c r' = atdd_c r"
proof -
  note inv = relay_invD[OF assms(1)]
  have j: "j < unfinished r" using assms(2) inv(5) by simp
  let ?e = "window r ! j" and ?p = "slot r j" and ?c = "unat (buf_completed_pos r)" and ?buf = "requests_buf r"
  have c: "?c = slot r 0" by (simp add: slot_unfinished)
  have e: "?e = ?buf ! ?p" using j by (simp add: nth_window)
  let ?b = "?buf[?p := ?buf ! ?c, ?c := ?buf ! ?p]"
  define r' where "r' = swap_ended cmd_r ?p r"
  have r': "requests_buf r' = ?b" "buf_accepted_pos r' = buf_accepted_pos r" "request_ident_counter r' = request_ident_counter r"
      "ended r' = ended r @ [answer_end (rq_content ?e) cmd_r]" "atdd_c r' = atdd_c r"
    by (simp_all add: r'_def swap_ended_def Let_def e)
  have "finish_one cmd_r rq r = Done (r', Some (rq_content ?e))"
    using finish_one_found[of r cmd_r ?p rq] find_unfinished[OF assms(1) j] assms(3) by (simp add: r'_def e)
  moreover have u: "unfinished r' = unfinished r - 1" "sent_ahead r' = sent_ahead r - 1" "slot r' k = slot r (Suc k)" for k
    using swap_ended_positions[where r = r and cmd_r = cmd_r and p = ?p] j assms(2) by (simp_all add: r'_def)
  moreover have w: "window r' = drop 1 ((window r)[j := window r ! 0])"
  proof (rule nth_equalityI)
    fix k assume "k < length (window r')"
    then have k: "Suc k < unfinished r" using u(1) by simp
    have ne: "slot r (Suc k) \<noteq> slot r 0" "slot r (Suc k) = ?p \<longleftrightarrow> Suc k = j"
      using slot_inj[of "Suc k" _ r] k j unfinished_less(1)[of r] by simp_all
    have "window r' ! k = requests_buf r' ! slot r (Suc k)" using k u(1) by (simp add: nth_window u(3))
    also have "\<dots> = ?b ! slot r (Suc k)" by (simp add: r')
    also have "\<dots> = (if Suc k = j then ?buf ! slot r 0 else ?buf ! slot r (Suc k))"
      using ne inv(1) by (auto simp: nth_list_update c)
    finally have "window r' ! k = (if Suc k = j then ?buf ! slot r 0 else ?buf ! slot r (Suc k))" .
    with k j show "window r' ! k = drop 1 ((window r)[j := window r ! 0]) ! k"
      by (simp add: nth_list_update nth_window)
  qed (simp add: u)
  moreover have "in_flight r' = drop 1 ((in_flight r)[j := in_flight r ! 0])"
    using assms(2) by (simp add: in_flight_def w u(2) take_update_swap[symmetric] drop_take nth_take del: take_update_swap)
  moreover have "in_flight r ! j = ?e" "length (in_flight r) = sent_ahead r"
    using assms(2) inv(5) by (simp_all add: in_flight_def)
  moreover have "relay_inv i n r'"
  proof -
    have s: "?p < n" "?c < n" using slot_written[OF assms(1)] j c by simp_all
    let ?t = "take n ?buf"
    have "take n ?b = ?t[?p := ?t ! ?c, ?c := ?t ! ?p]" using s by (simp add: take_update_swap)
    moreover have "?c < length ?t" "?p < length ?t" using s inv(1) c by simp_all
    ultimately have "mset (take n ?b) = mset ?t" using mset_swap[of ?c ?t ?p] by (simp only:)
    then have "set (take n ?b) = set ?t" "distinct (map rq_ident (take n ?b)) = distinct (map rq_ident ?t)"
      by (metis mset_eq_setD, metis mset_map mset_eq_imp_distinct_iff)
    with inv u show ?thesis unfolding relay_inv_def
      by (simp add: r' ATDD_REQUESTS_BUF_SIZE_def) linarith
  qed
  ultimately show thesis
    using mset_drop_update[of j "window r"] mset_drop_update[of j "in_flight r"] j assms(2)
    by (intro that[of r']) (simp_all add: r')
qed

text \<open>The client of a relay can change without any effect on the ring; after an error everything is sent again.\<close>

lemma ring_client [simp]:
  "relay_inv i n (r\<lparr>atdd_c := c\<rparr>) = relay_inv i n r" "window (r\<lparr>atdd_c := c\<rparr>) = window r"
  "in_flight (r\<lparr>atdd_c := c\<rparr>) = in_flight r" "unfinished (r\<lparr>atdd_c := c\<rparr>) = unfinished r"
  "sent_ahead (r\<lparr>atdd_c := c\<rparr>) = sent_ahead r" "rewind (r\<lparr>atdd_c := c\<rparr>) = (rewind r)\<lparr>atdd_c := c\<rparr>"
  by (simp_all add: relay_inv_def window_def in_flight_def unfinished_def sent_ahead_def slot_def rewind_def)

lemma rewind_inv: "relay_inv i n r \<Longrightarrow> relay_inv i n (rewind r)"
  by (auto simp: relay_inv_def unfinished_def sent_ahead_def rewind_def)

lemma rewind_window [simp]:
  "window (rewind r) = window r" "in_flight (rewind r) = []" "ended (rewind r) = ended r" "atdd_c (rewind r) = atdd_c r"
  by (simp_all add: window_def in_flight_def unfinished_def sent_ahead_def slot_def rewind_def)

lemma forward_window:
  assumes "relay_inv i n r" and "atdd_cmds_to_send r > 0"
  defines "r' \<equiv> r\<lparr>buf_tcp_forwarded_pos := buf_tcp_forwarded_pos r + 1\<rparr>"
  shows "sent_ahead r < unfinished r" and "requests_buf r ! unat (buf_tcp_forwarded_pos r) = window r ! sent_ahead r"
    and "relay_inv i n r'" and "window r' = window r" and "in_flight r' = in_flight r @ [window r ! sent_ahead r]"
proof -
  note inv = relay_invD[OF assms(1)]
  have "buf_accepted_pos r \<noteq> buf_tcp_forwarded_pos r"
    using assms(2) by (auto simp: atdd_cmds_to_send_def min_def split: if_splits)
  then have "sent_ahead r \<noteq> unfinished r"
    unfolding sent_ahead_def unfinished_def by (simp flip: word_unat_eq_iff)
  with inv(5) show less: "sent_ahead r < unfinished r" by simp
  then show "requests_buf r ! unat (buf_tcp_forwarded_pos r) = window r ! sent_ahead r"
    by (simp add: nth_window slot_unfinished)
  have s: "sent_ahead r' = Suc (sent_ahead r)"
    using less unfinished_less(1)[of r] unat_Suc_u8[of "buf_tcp_forwarded_pos r - buf_completed_pos r"]
    by (simp add: r'_def sent_ahead_def algebra_simps)
  show w: "window r' = window r" by (simp add: r'_def window_def unfinished_def slot_def)
  show "in_flight r' = in_flight r @ [window r ! sent_ahead r]"
    using less by (simp add: in_flight_def s w take_Suc_conv_app_nth)
  have "unfinished r' = unfinished r" by (simp add: r'_def unfinished_def)
  with s less inv show "relay_inv i n r'" unfolding relay_inv_def by (simp add: r'_def ATDD_REQUESTS_BUF_SIZE_def)
qed

section \<open>The relay as a transition system\<close>

text \<open>
  The thread of a relay and the block layer run concurrently. A step is one submission, one answer,
  one command sent, the handling of an error, or a change of the socket by the network. Two
  conditions on the environment are built in: the block layer never has more than 255 requests
  unfinished in one relay, and every answer that is accepted as authentic belongs to a request that was
  sent on the present connection and has not ended. The label lists the requests submitted.
\<close>

inductive relay_step ::
    "(bytes \<Rightarrow> bytes \<Rightarrow> int \<times> bytes) \<Rightarrow> 's socket_api \<Rightarrow> 's atdd_ktread_data \<Rightarrow> request list \<Rightarrow> 's atdd_ktread_data \<Rightarrow> bool"
  for digest api where
  submit: "unfinished r < 255 \<Longrightarrow> unat (request_ident_counter r) + 10 < 2 ^ 64 \<Longrightarrow>
    submit_atdd_request r rq = (err, r') \<Longrightarrow> relay_step digest api r [rq] r'"
| network: "relay_step digest api r [] (r\<lparr>atdd_c := (atdd_c r)\<lparr>sock := s\<rparr>\<rparr>)"
| error_report: "relay_step digest api r [] (r\<lparr>atdd_c := atdd_sk_error_report (atdd_c r)\<rparr>)"
| recover: "client_error (atdd_c r) \<Longrightarrow>
    relay_step digest api r [] ((rewind r)\<lparr>atdd_c := atdd_client_clear_error (atdd_c r)\<rparr>)"
| answer: "atdd_fetch_command digest api (atdd_c r) = Some (Done (1, Some cmd_r, c)) \<Longrightarrow>
    ret_ident cmd_r \<in> rq_ident ` set (in_flight r) \<Longrightarrow>
    finish_one cmd_r rq (r\<lparr>atdd_c := c\<rparr>) = Done (r', rq') \<Longrightarrow> relay_step digest api r [] r'"
| no_answer: "atdd_fetch_command digest api (atdd_c r) = Some (Done (err, None, c)) \<Longrightarrow>
    relay_step digest api r [] (if err < 0 then rewind (r\<lparr>atdd_c := c\<rparr>) else r\<lparr>atdd_c := c\<rparr>)"
| forward: "atdd_cmds_to_send r > 0 \<Longrightarrow> e = requests_buf r ! unat (buf_tcp_forwarded_pos r) \<Longrightarrow>
    atdd_send_command digest api (atdd_c r) (rq_content e) (rq_ident e) = Some (Done (err, c)) \<Longrightarrow>
    relay_step digest api r []
      (if err < 0 then rewind (r\<lparr>atdd_c := c\<rparr>)
       else r\<lparr>atdd_c := c, buf_tcp_forwarded_pos := buf_tcp_forwarded_pos r + 1\<rparr>)"

text \<open>What a relay promises: its requests, by identifier, and those that have ended.\<close>

record disk_queue =
  waiting :: "u64 \<rightharpoonup> request"
  reported :: "blk_end list"

inductive disk_step :: "disk_queue \<Rightarrow> request list \<Rightarrow> disk_queue \<Rightarrow> bool" where
  accept: "waiting q ident = None \<Longrightarrow> disk_step q [rq] (q\<lparr>waiting := (waiting q)(ident \<mapsto> rq)\<rparr>)"
| report: "waiting q (ret_ident cmd_r) = Some rq \<Longrightarrow>
    disk_step q [] (q\<lparr>waiting := (waiting q)(ret_ident cmd_r := None), reported := reported q @ [answer_end rq cmd_r]\<rparr>)"
| stay: "disk_step q [] q"

definition disk_of :: "'s atdd_ktread_data \<Rightarrow> disk_queue" where
  "disk_of r = \<lparr>waiting = map_of (map (\<lambda>e. (rq_ident e, rq_content e)) (window r)), reported = ended r\<rparr>"

lemma map_of_remove:
  assumes "distinct (map fst xs)" and "x \<in> set xs" and "mset ys = mset xs - {#x#}"
  shows "map_of ys = (map_of xs)(fst x := None)"
proof -
  have m: "mset xs = mset (x # ys)" using assms(2,3) by simp
  then have "distinct (map fst (x # ys))" using assms(1) by (metis mset_map mset_eq_imp_distinct_iff)
  moreover from this m assms(1) have "map_of xs = map_of (x # ys)" by (subst map_of_inject_set) (metis mset_eq_setD)+
  ultimately show ?thesis by (cases x) (auto simp: fun_eq_iff map_of_eq_None_iff)
qed

lemma map_of_snoc: "k \<notin> fst ` set xs \<Longrightarrow> map_of (xs @ [(k, v)]) = (map_of xs)(k \<mapsto> v)"
  by (induction xs) (auto simp: fun_upd_twist)

text \<open>What a step does to the ring: it appends a request, removes one that was sent, or leaves it as it is.\<close>

lemma relay_step_ring:
  assumes "relay_step digest api r l r'" and "relay_inv i n r"
  obtains (appended) rq where "l = [rq]" "relay_inv i (Suc n) r'" "ended r' = ended r"
      "window r' = window r @ [\<lparr>rq_ident = of_nat (i + 10 * n), rq_content = rq\<rparr>]"
  | (removed) e cmd_r where "l = []" "relay_inv i n r'" "e \<in> set (window r)" "ret_ident cmd_r = rq_ident e"
      "mset (window r') = mset (window r) - {#e#}" "ended r' = ended r @ [answer_end (rq_content e) cmd_r]"
  | (same) "l = []" "relay_inv i n r'" "window r' = window r" "ended r' = ended r"
  using assms(1)
proof cases
  case (submit rq err)
  note inv = relay_invD[OF assms(2)]
  have "unat (request_ident_counter r) = i + 10 * n" unfolding inv(3) using inv(4) by (simp only: unat_of_nat) simp
  with submit(3) have "i + 10 * Suc n < 2 ^ 64" by simp
  note s = submit_window[OF assms(2) submit(2) this submit(4)]
  from submit(1) s(2,5,3) show thesis by (rule appended)
next
  case (answer cmd_r c rq rq')
  from answer(3) obtain j where j: "j < length (in_flight r)" "ret_ident cmd_r = rq_ident (in_flight r ! j)"
    by (auto simp: in_set_conv_nth)
  then have j': "j < sent_ahead r" "ret_ident cmd_r = rq_ident (window r ! j)" "j < unfinished r"
    by (simp_all add: in_flight_def)
  obtain s where s: "finish_one cmd_r rq (r\<lparr>atdd_c := c\<rparr>) = Done (s, Some (rq_content (window r ! j)))" "relay_inv i n s"
      "mset (window s) = mset (window r) - {#window r ! j#}" "ended s = ended r @ [answer_end (rq_content (window r ! j)) cmd_r]"
    using finish_window[of i n "r\<lparr>atdd_c := c\<rparr>" j cmd_r rq] assms(2) j' by auto
  with answer(4) have "s = r'" by simp
  with s(2-4) answer(1) j' show thesis by (intro removed[of "window r ! j" cmd_r]) simp_all
next
  case (forward e err c)
  show thesis
  proof (cases "err < 0")
    case True
    with forward rewind_inv[OF assms(2)] show thesis by (intro same) simp_all
  next
    case False
    note f = forward_window[OF assms(2) forward(3)]
    have "r' = (r\<lparr>buf_tcp_forwarded_pos := buf_tcp_forwarded_pos r + 1\<rparr>)\<lparr>atdd_c := c\<rparr>" using forward(2) False by simp
    with f(3,4) forward(1) show thesis by (intro same) simp_all
  qed
qed (use assms(2) rewind_inv[OF assms(2)] in \<open>auto intro!: same\<close>)

lemma relay_step_refines:
  assumes "relay_step digest api r l r'" and "relay_inv i n r"
  shows "disk_step (disk_of r) l (disk_of r')"
  using assms
proof (cases rule: relay_step_ring)
  case (appended rq)
  let ?id = "of_nat (i + 10 * n) :: u64"
  have "distinct (map rq_ident (window r'))" by (rule window_distinct[OF appended(2)])
  then have fresh: "?id \<notin> rq_ident ` set (window r)" by (simp add: appended(4))
  then have "waiting (disk_of r) ?id = None"
    by (auto simp: disk_of_def map_of_eq_None_iff)
  moreover have "disk_of r' = (disk_of r)\<lparr>waiting := (waiting (disk_of r))(?id \<mapsto> rq)\<rparr>"
    using fresh map_of_snoc[of ?id "map (\<lambda>e. (rq_ident e, rq_content e)) (window r)" rq]
    by (simp add: disk_of_def appended(3,4) image_image)
  ultimately show ?thesis using accept[of "disk_of r" ?id rq] appended(1) by auto
next
  case (removed e cmd_r)
  let ?f = "\<lambda>e. (rq_ident e, rq_content e)"
  have d: "distinct (map fst (map ?f (window r)))" using window_distinct[OF assms(2)] by (simp add: comp_def)
  have "map_of (map ?f (window r')) = (map_of (map ?f (window r)))(rq_ident e := None)"
    using map_of_remove[OF d, of "?f e" "map ?f (window r')"] removed(3,5) by (simp add: image_mset_Diff)
  moreover have "map_of (map ?f (window r)) (rq_ident e) = Some (rq_content e)"
    using d removed(3) by (intro map_of_is_SomeI) auto
  ultimately show ?thesis
    using report[of "disk_of r" cmd_r "rq_content e"] removed(1,4,6) by (simp add: disk_of_def)
next
  case same
  then show ?thesis using stay[of "disk_of r"] by (simp add: disk_of_def)
qed

section \<open>No request is lost\<close>

text \<open>
  A component that keeps requests: with every step, what it holds and what it has ended together
  grow by what was submitted. Several of them side by side are one again.
\<close>

inductive labelled_run :: "('r \<Rightarrow> 'q list \<Rightarrow> 'r \<Rightarrow> bool) \<Rightarrow> 'r \<Rightarrow> 'q list \<Rightarrow> 'r \<Rightarrow> bool" for step where
  start: "labelled_run step r [] r"
| continue: "labelled_run step r qs r' \<Longrightarrow> step r' l r'' \<Longrightarrow> labelled_run step r (qs @ l) r''"

inductive list_step :: "('r \<Rightarrow> 'q list \<Rightarrow> 'r \<Rightarrow> bool) \<Rightarrow> 'r list \<Rightarrow> 'q list \<Rightarrow> 'r list \<Rightarrow> bool" for step where
  element: "k < length rs \<Longrightarrow> step (rs ! k) l r' \<Longrightarrow> list_step step rs l (rs[k := r'])"

locale request_keeper =
  fixes step :: "'r \<Rightarrow> 'q list \<Rightarrow> 'r \<Rightarrow> bool" and ok :: "'r \<Rightarrow> bool"
    and held :: "'r \<Rightarrow> 'q multiset" and closed :: "'r \<Rightarrow> 'q multiset"
  assumes ok_step: "ok r \<Longrightarrow> step r l r' \<Longrightarrow> ok r'"
    and step_keeps: "ok r \<Longrightarrow> step r l r' \<Longrightarrow> held r' + closed r' = held r + closed r + mset l"
    and step_closes: "ok r \<Longrightarrow> step r l r' \<Longrightarrow> closed r \<subseteq># closed r'"
begin

lemma run_keeps:
  "labelled_run step r qs r' \<Longrightarrow> ok r \<Longrightarrow>
     ok r' \<and> held r' + closed r' = held r + closed r + mset qs \<and> closed r \<subseteq># closed r'"
proof (induction rule: labelled_run.induct)
  case (continue r qs r' l r'')
  then have "ok r'" "held r' + closed r' = held r + closed r + mset qs" "closed r \<subseteq># closed r'" by simp_all
  with ok_step[OF _ continue(2)] step_keeps[OF _ continue(2)] step_closes[OF _ continue(2)] show ?case
    by (auto intro: subset_mset.order_trans)
qed simp

end

lemma sum_list_update_comm:
  "k < length xs \<Longrightarrow> f x + a = f (xs ! k) + b \<Longrightarrow>
     (\<Sum>y\<leftarrow>xs[k := x]. f y) + a = (\<Sum>y\<leftarrow>xs. f y) + (b :: 'a :: cancel_comm_monoid_add)"
proof (induction xs arbitrary: k)
  case (Cons y ys)
  show ?case
  proof (cases k)
    case 0
    have "f x + a + sum_list (map f ys) = f y + b + sum_list (map f ys)" using Cons.prems(2) 0 by simp
    with 0 show ?thesis by (simp add: ac_simps)
  next
    case (Suc j)
    with Cons show ?thesis by (simp add: add.assoc)
  qed
qed simp

text \<open>Components of the same kind side by side.\<close>

locale request_keepers = request_keeper step ok held closed
  for step :: "'r \<Rightarrow> 'q list \<Rightarrow> 'r \<Rightarrow> bool" and ok :: "'r \<Rightarrow> bool"
    and held :: "'r \<Rightarrow> 'q multiset" and closed :: "'r \<Rightarrow> 'q multiset"

sublocale request_keepers < many: request_keeper "list_step step" "list_all ok"
    "\<lambda>rs. \<Sum>r\<leftarrow>rs. held r" "\<lambda>rs. \<Sum>r\<leftarrow>rs. closed r"
proof
  fix rs l rs' assume rs: "list_all ok rs" "list_step step rs l rs'"
  then obtain k r' where k: "k < length rs" "step (rs ! k) l r'" "rs' = rs[k := r']" by (auto elim: list_step.cases)
  have okk: "ok (rs ! k)" using rs(1) k(1) by (simp add: list_all_length)
  note st = ok_step[OF okk k(2)] step_keeps[OF okk k(2)] step_closes[OF okk k(2)]
  show "list_all ok rs'" using rs(1) st(1) k(1,3) by (auto simp: list_all_length nth_list_update)
  have "(\<Sum>r\<leftarrow>rs'. held r + closed r) + {#} = (\<Sum>r\<leftarrow>rs. held r + closed r) + mset l"
    unfolding k(3) using st(2) by (intro sum_list_update_comm[OF k(1)]) simp
  then show "(\<Sum>r\<leftarrow>rs'. held r) + (\<Sum>r\<leftarrow>rs'. closed r) = (\<Sum>r\<leftarrow>rs. held r) + (\<Sum>r\<leftarrow>rs. closed r) + mset l"
    by (simp add: sum_list_addf)
  have "(\<Sum>r\<leftarrow>rs'. closed r) + {#} = (\<Sum>r\<leftarrow>rs. closed r) + (closed r' - closed (rs ! k))"
    unfolding k(3) using st(3) by (intro sum_list_update_comm[OF k(1)]) simp
  then show "(\<Sum>r\<leftarrow>rs. closed r) \<subseteq># (\<Sum>r\<leftarrow>rs'. closed r)" by simp
qed

definition relay_ok :: "'s atdd_ktread_data \<Rightarrow> bool" where
  "relay_ok r \<longleftrightarrow> (\<exists>i n. relay_inv i n r)"

definition held_requests :: "'s atdd_ktread_data \<Rightarrow> request multiset" where
  "held_requests r = mset (map rq_content (window r))"

definition ended_requests :: "'s atdd_ktread_data \<Rightarrow> request multiset" where
  "ended_requests r = mset (map fst (ended r))"

interpretation relay: request_keepers "relay_step digest api" relay_ok held_requests ended_requests
  for digest :: "bytes \<Rightarrow> bytes \<Rightarrow> int \<times> bytes" and api :: "'s socket_api"
proof
  fix r l r' assume "relay_ok r" and st: "relay_step digest api r l r'"
  then obtain i n where inv: "relay_inv i n r" by (auto simp: relay_ok_def)
  from st inv show "relay_ok r'" by (cases rule: relay_step_ring) (auto simp: relay_ok_def)
  from st inv show "held_requests r' + ended_requests r' = held_requests r + ended_requests r + mset l"
  proof (cases rule: relay_step_ring)
    case (removed e cmd_r)
    then have "mset (window r) = add_mset e (mset (window r'))" by simp
    with removed(1,6) show ?thesis by (simp add: held_requests_def ended_requests_def answer_end_def)
  qed (simp_all add: held_requests_def ended_requests_def)
  from st inv show "ended_requests r \<subseteq># ended_requests r'"
    by (cases rule: relay_step_ring) (simp_all add: ended_requests_def)
qed

end
