(* ===== verification/Driver_Device.thy ===== *)
theory Driver_Device
  imports Driver_Relay
begin

text \<open>
  What the relays and the block device of the kernel module do as a whole: a round of a relay's
  thread on the answers that have arrived, the distribution of block requests over the
  relays, the loading of the module, and the properties of the driver.
\<close>

section \<open>A round of the thread\<close>

text \<open>Answers to requests that were sent: the entry, the status, and the sector of a successful read.\<close>

type_synonym wire_answer = "atdd_request \<times> StatusCode \<times> bytes"

definition answer_message :: "(bytes \<Rightarrow> bytes \<Rightarrow> bytes) \<Rightarrow> bytes \<Rightarrow> wire_answer \<Rightarrow> bytes" where
  "answer_message tag key a =
     (case a of (e, status, d) \<Rightarrow> response_bytes tag key status (command_of (rq_content e) (rq_ident e)) d)"











section \<open>Distribution over the relays\<close>

definition takes :: "'s atdd_ktread_data \<Rightarrow> request list \<Rightarrow> 's atdd_ktread_data \<Rightarrow> bool" where
  "takes r l r' \<longleftrightarrow> (\<exists>rq. l = [rq] \<and> submit_atdd_request r rq = (0, r'))"

definition refuses :: "'s atdd_ktread_data \<Rightarrow> bool" where
  "refuses r \<longleftrightarrow> buf_accepted_pos r = 255 \<and> buf_completed_pos r = 0"

lemma submit_cases:
  obtains (refused) "refuses r" "submit_atdd_request r rq = (- ENOSPC, r)"
  | (taken) r' where "\<not> refuses r" "submit_atdd_request r rq = (0, r')" "takes r [rq] r'"
  using submit_refuses[of r rq] that
  by (auto simp: refuses_def takes_def submit_atdd_request_def ENOSPC_def split: if_splits)

text \<open>From any thread on, the loop takes the first relay that accepts, or finds that none does.\<close>

lemma submit_loop_from:
  assumes "unat start < 10" and "length relays = 10" and "k < 10"
  shows "(\<exists>j relay. j < 10 \<and> takes (relays ! j) [rq] relay \<and>
           submit_loop relays start (of_nat ((unat start + k) mod 10)) rq = Some (0, relays[j := relay])) \<or>
         (\<forall>m \<in> {k..<10}. refuses (relays ! ((unat start + m) mod 10))) \<and>
           submit_loop relays start (of_nat ((unat start + k) mod 10)) rq = Some (- ENOSPC, relays)"
  using assms(3)
proof (induction "10 - k" arbitrary: k)
  case (Suc d)
  let ?t = "(unat start + k) mod 10"
  have t: "unat (of_nat ?t :: u8) = ?t" by (simp add: unat_of_nat mod_less_divisor order_less_trans[of _ 10])
  have nxt: "(of_nat ?t + 1) mod of_nat ATDD_THREADS_COUNT = (of_nat ((unat start + Suc k) mod 10) :: u8)"
  proof -
    have "unat ((of_nat ?t + 1 :: u8) mod 10) = (?t + 1) mod 10"
      using t by (simp add: unat_mod_distrib unat_word_ariths)
    also have "\<dots> = unat (of_nat ((unat start + Suc k) mod 10) :: u8)"
      by (simp add: unat_of_nat mod_Suc_eq order_less_trans[of _ 10])
    finally show ?thesis by (simp add: word_unat_eq_iff ATDD_THREADS_COUNT_def)
  qed
  show ?case
  proof (cases rule: submit_cases[of "relays ! ?t" rq])
    case (taken r')
    then have "submit_loop relays start (of_nat ?t) rq = Some (0, relays[?t := r'])"
      by (subst submit_loop.simps) (simp add: t)
    with taken(3) show ?thesis by (intro disjI1 exI[of _ ?t] exI[of _ r']) simp
  next
    case refused
    have step: "submit_loop relays start (of_nat ?t) rq =
        (if of_nat ((unat start + Suc k) mod 10) = start then Some (- ENOSPC, relays)
         else submit_loop relays start (of_nat ((unat start + Suc k) mod 10)) rq)"
      using refused(2) by (subst submit_loop.simps) (simp add: t nxt ENOSPC_def)
    show ?thesis
    proof (cases "Suc k = 10")
      case True
      then have "{k..<10} = {k}" by auto
      moreover have "of_nat ((unat start + Suc k) mod 10) = start" using True assms(1) by simp
      ultimately show ?thesis using step refused(1) by simp
    next
      case False
      then have k: "Suc k < 10" using Suc.prems by simp
      have "of_nat ((unat start + Suc k) mod 10) \<noteq> start"
      proof
        assume "of_nat ((unat start + Suc k) mod 10) = start"
        then have "unat (of_nat ((unat start + Suc k) mod 10) :: u8) = unat start" by simp
        then have "(unat start + Suc k) mod 10 = unat start" by (simp add: unat_of_nat order_less_trans[of _ 10])
        with assms(1) k show False by (simp add: mod_if split: if_splits)
      qed
      moreover have "{k..<10} = insert k {Suc k..<10}" using Suc.prems by auto
      ultimately show ?thesis using Suc.hyps(1)[of "Suc k"] Suc.hyps(2) k step refused(1) by auto
    qed
  qed
qed simp

lemma submit_loop_result:
  assumes "unat start < 10" and "length relays = 10"
  obtains (taken) j relay where "j < 10" "takes (relays ! j) [rq] relay"
      "submit_loop relays start start rq = Some (0, relays[j := relay])"
  | (refused) "list_all refuses relays" "submit_loop relays start start rq = Some (- ENOSPC, relays)"
proof -
  have start: "of_nat ((unat start + 0) mod 10) = start" using assms(1) by simp
  have all: "list_all refuses relays" if "\<forall>m \<in> {0..<10}. refuses (relays ! ((unat start + m) mod 10))"
    unfolding list_all_length assms(2)
  proof (intro allI impI)
    fix j assume j: "j < (10 :: nat)"
    let ?m = "(j + 10 - unat start) mod 10"
    have "(unat start + ?m) mod 10 = j"
    proof -
      have "(unat start + ?m) mod 10 = (unat start + (j + 10 - unat start)) mod 10" by (rule mod_add_right_eq)
      also have "unat start + (j + 10 - unat start) = j + 10" using assms(1) by simp
      finally show ?thesis using j by simp
    qed
    with that[rule_format, of ?m] show "refuses (relays ! j)" by simp
  qed
  from submit_loop_from[OF assms, of 0 rq] start all taken refused show thesis by (simp del: atLeastLessThan_iff) blast
qed

text \<open>The requests of a queue that go to a relay.\<close>

definition disk_requests :: "(bool \<times> request) list \<Rightarrow> request list" where
  "disk_requests q = map snd (filter (\<lambda>x. \<not> fst x) q)"

lemma labelled_run_append:
  "labelled_run step b ls c \<Longrightarrow> labelled_run step a ks b \<Longrightarrow> labelled_run step a (ks @ ls) c"
proof (induction rule: labelled_run.induct)
  case (continue r qs r' l r'')
  from labelled_run.continue[OF continue.IH[OF continue.prems] continue.hyps(2)] show ?case by simp
qed simp

lemma labelled_run_step: "step a l b \<Longrightarrow> labelled_run step a l b"
  using labelled_run.continue[OF labelled_run.start, of step a l b] by simp

lemma target_less: "unat ((t + 1 :: u8) mod of_nat ATDD_THREADS_COUNT) < 10"
  by (simp add: ATDD_THREADS_COUNT_def unat_mod_distrib)

lemma block_request_result:
  assumes "unat (thread_rq_target dev) < 10" and "length (relay_data dev) = 10"
  shows "\<exists>taken rest dev'. atdd_block_request q dev = Some (rest, dev') \<and> q = taken @ rest \<and>
    labelled_run (list_step takes) (relay_data dev) (disk_requests taken) (relay_data dev') \<and>
    skipped dev' = skipped dev @ map snd (filter fst taken) \<and> (rest \<noteq> [] \<longrightarrow> list_all refuses (relay_data dev')) \<and>
    unat (thread_rq_target dev') < 10 \<and> length (relay_data dev') = 10"
  using assms
proof (induction q dev rule: atdd_block_request.induct)
  case (1 dev)
  then show ?case by (intro exI[of _ "[]"]) (simp add: disk_requests_def labelled_run.start)
next
  case (2 passthrough rq q dev)
  show ?case
  proof (cases passthrough)
    case True
    from "2.IH"(1)[OF True] "2.prems" obtain taken rest dev' where
      "atdd_block_request q (dev\<lparr>skipped := skipped dev @ [rq]\<rparr>) = Some (rest, dev')" "q = taken @ rest"
      "labelled_run (list_step takes) (relay_data dev) (disk_requests taken) (relay_data dev')"
      "skipped dev' = skipped dev @ rq # map snd (filter fst taken)" "rest \<noteq> [] \<longrightarrow> list_all refuses (relay_data dev')"
      "unat (thread_rq_target dev') < 10" "length (relay_data dev') = 10" by auto
    then show ?thesis using True
      by - (rule exI[of _ "(passthrough, rq) # taken"], rule exI[of _ rest], rule exI[of _ dev'], simp add: disk_requests_def)
  next
    case False
    let ?loop = "submit_loop (relay_data dev) (thread_rq_target dev) (thread_rq_target dev) rq"
    let ?next = "(thread_rq_target dev + 1) mod of_nat ATDD_THREADS_COUNT"
    from "2.prems" show ?thesis
    proof (cases rule: submit_loop_result[where rq = rq])
      case (taken j relay)
      let ?dev = "dev\<lparr>relay_data := (relay_data dev)[j := relay], thread_rq_target := ?next\<rparr>"
      have "\<exists>t rest dev'. atdd_block_request q ?dev = Some (rest, dev') \<and> q = t @ rest \<and>
          labelled_run (list_step takes) (relay_data ?dev) (disk_requests t) (relay_data dev') \<and>
          skipped dev' = skipped ?dev @ map snd (filter fst t) \<and> (rest \<noteq> [] \<longrightarrow> list_all refuses (relay_data dev')) \<and>
          unat (thread_rq_target dev') < 10 \<and> length (relay_data dev') = 10"
        by (rule "2.IH"(2)[OF False taken(3) refl refl]) (use "2.prems" target_less in simp_all)
      then obtain t rest dev' where t: "atdd_block_request q ?dev = Some (rest, dev')" "q = t @ rest"
          "labelled_run (list_step takes) ((relay_data dev)[j := relay]) (disk_requests t) (relay_data dev')"
          "skipped dev' = skipped dev @ map snd (filter fst t)" "rest \<noteq> [] \<longrightarrow> list_all refuses (relay_data dev')"
          "unat (thread_rq_target dev') < 10" "length (relay_data dev') = 10" by auto
      have "list_step takes (relay_data dev) [rq] ((relay_data dev)[j := relay])"
        by (rule list_step.element) (use taken(1,2) "2.prems"(2) in simp_all)
      from labelled_run_append[OF t(3) labelled_run_step[of "list_step takes", OF this]]
      have "labelled_run (list_step takes) (relay_data dev) (rq # disk_requests t) (relay_data dev')" by simp
      then show ?thesis using False taken(3) t
        by - (rule exI[of _ "(passthrough, rq) # t"], rule exI[of _ rest], rule exI[of _ dev'], simp add: disk_requests_def)
    next
      case refused
      then show ?thesis using False "2.prems" target_less
        by - (rule exI[of _ "[]"], simp add: disk_requests_def labelled_run.start ENOSPC_def)
    qed
  qed
qed

section \<open>Loading the module\<close>

definition mem_ok :: "bool \<times> atdd_request list option \<times> 's client_resources \<Rightarrow> bool" where
  "mem_ok m \<longleftrightarrow> (case m of (data_mem, requests_mem, R) \<Rightarrow>
     pred_option (\<lambda>b. length b = ATDD_REQUESTS_BUF_SIZE) requests_mem \<and>
     pred_option (\<lambda>b. length b = MAX_CMD_SIZE) (send_mem R) \<and> pred_option (\<lambda>b. length b = MAX_RESPONSE_SIZE) (parse_mem R))"

text \<open>A relay as it is created: nothing accepted, and a client that is ready to connect.\<close>

definition fresh_relay :: "atdd_client_config \<Rightarrow> nat \<Rightarrow> 's atdd_ktread_data \<Rightarrow> bool" where
  "fresh_relay conf i r \<longleftrightarrow> relay_inv i 0 r \<and> window r = [] \<and> ended r = [] \<and> send_ready (atdd_c r) \<and>
     \<not> connected (atdd_c r) \<and> parse_buf_pos (atdd_c r) = 0 \<and> length (parse_buf (atdd_c r)) = MAX_RESPONSE_SIZE \<and>
     client_config (atdd_c r) = conf\<lparr>preferred_addr := i mod addrs_count conf\<rparr>"

lemma create_fresh:
  assumes "atdd_kthread_data_create d m R conf i = Inr r" and "mem_ok (d, m, R)" and "i < 10"
  shows "fresh_relay conf i r"
  using assms
  by (auto simp: atdd_kthread_data_create_def atdd_client_create_def mem_ok_def fresh_relay_def relay_inv_def window_def
      unfinished_def sent_ahead_def send_ready_def setup_send_buf_def write_at_def ATDD_MAGIC_def driver_sizes
      split: if_splits option.splits sum.splits)

lemma start_relays_fresh:
  assumes "start_relays mem kthread conf is = Inr rs" and "\<And>i. i \<in> set is \<Longrightarrow> mem_ok (mem i) \<and> i < 10"
  shows "list_all2 (fresh_relay conf) is rs"
  using assms
proof (induction "is" arbitrary: rs)
  case (Cons i "is")
  obtain d m R where m: "mem i = (d, m, R)" by (metis prod_cases3)
  from Cons.prems(1) m obtain r ds where r: "atdd_kthread_data_create d m R conf i = Inr r"
      "start_relays mem kthread conf is = Inr ds" "rs = r # ds"
    by (auto split: sum.splits if_splits)
  with Cons create_fresh[OF r(1)] m show ?case by fastforce
qed simp

lemma parsed_addrs:
  assumes "parse_addrs_from ia ks addrs ip piece cs = Done (Inr as)"
  shows "as \<noteq> []"
  using assms
  by (induction ia ks addrs ip piece cs rule: parse_addrs_from.induct) (auto split: if_splits sum.splits)

lemma parse_error_nonzero:
  assumes "parse_addrs_from ia ks addrs ip piece cs = Done (Inl err)" and "\<And>p. ks p \<noteq> Inl 0"
  shows "err \<noteq> 0"
  using assms
  by (induction ia ks addrs ip piece cs rule: parse_addrs_from.induct)
    (auto simp: EINVAL_def split: if_splits sum.splits)

lemma init_fresh:
  assumes "atdd_init in_aton kstrtoint key_mem addrs_mem mem kthread disk_mem major (Some hmac) (Some processes) = Done (Inr dev)"
    and "\<And>i. mem_ok (mem i)" and "\<And>p. kstrtoint p \<noteq> Inl 0"
  obtains conf where "parse_hmac_key key_mem hmac = Inr (hmac_key conf)" "atdd_addrs conf \<noteq> []"
    "addrs_count conf = length (atdd_addrs conf)" "list_all2 (fresh_relay conf) [0..<10] (relay_data dev)"
    "thread_rq_target dev = 0" "skipped dev = []"
proof -
  obtain key where key: "parse_hmac_key key_mem hmac = Inr key"
    using assms(1) by (auto simp: atdd_init_def atdd_dev_init_def split: if_splits sum.splits)
  let ?conf = "\<lparr>atdd_addrs = [], addrs_count = 0, preferred_addr = 0, hmac_key = key\<rparr>"
  obtain conf where conf: "parse_atdd_addrs in_aton kstrtoint addrs_mem processes ?conf = Done (0, conf)"
    using assms(1) key by (auto simp: atdd_init_def atdd_dev_init_def split: if_splits run.splits)
  then have c: "hmac_key conf = key" "atdd_addrs conf \<noteq> []" "addrs_count conf = length (atdd_addrs conf)"
    using parsed_addrs[of in_aton kstrtoint "[]" None "[]" processes]
      parse_error_nonzero[where ks = kstrtoint and ia = in_aton and cs = processes, OF _ assms(3)]
    by (auto simp: parse_atdd_addrs_def Let_def ENOMEM_def split: run.splits sum.splits if_splits)
  have d: "start_relays mem kthread conf [0..<10] = Inr (relay_data dev)" "thread_rq_target dev = 0" "skipped dev = []"
    using assms(1) key conf
    by (auto simp: atdd_init_def atdd_dev_init_def ATDD_THREADS_COUNT_def split: if_splits sum.splits)
  have "list_all2 (fresh_relay conf) [0..<10] (relay_data dev)"
    by (rule start_relays_fresh[OF d(1)]) (use assms(2) in auto)
  with c d key show thesis by (intro that[of conf]) simp_all
qed

section \<open>Properties\<close>

text \<open>A small device, loaded with one address, and the requests of the examples.\<close>

definition small_mem :: "nat \<Rightarrow> bool \<times> atdd_request list option \<times> (bytes \<times> bytes) client_resources" where
  "small_mem i =
     (True, Some (replicate 256 \<lparr>rq_ident = 0, rq_content = small_read\<rparr>),
      \<lparr>client_mem = True, send_mem = Some (replicate 4152 9), cmds_mem = Some (replicate 256 0),
       parse_mem = Some (replicate 4144 9), alloc_shash = 0, shash_setkey = 0, sock_create = Inr ([], [])\<rparr>)"

definition small_init :: "(int + (bytes \<times> bytes) atdd_dev) run" where
  "small_init = atdd_init (\<lambda>h. 7) (\<lambda>p. Inr 8091) True True small_mem (\<lambda>_. 0) True 252
     (Some (hex (\<lambda>_. False) (replicate 32 0xAA))) (Some ''10.0.2.2:8091'')"

lemma small_mem_ok: "mem_ok (small_mem i)"
  by (simp add: mem_ok_def small_mem_def ATDD_REQUESTS_BUF_SIZE_def driver_sizes)

lemma small_init_loaded: obtains dev where "small_init = Done (Inr dev)"
proof -
  have "\<exists>rs. start_relays small_mem (\<lambda>_. 0) conf is = Inr rs" for conf "is"
  proof (induction "is")
    case (Cons i "is")
    obtain d m R where m: "small_mem i = (d, m, R)" by (metis prod_cases3)
    have "\<exists>r. atdd_kthread_data_create d m R conf i = Inr r"
      using m by (auto simp: small_mem_def atdd_kthread_data_create_def atdd_client_create_def)
    with Cons m show ?case by auto
  qed simp
  then obtain rs where "start_relays small_mem (\<lambda>_. 0) \<lparr>atdd_addrs = [\<lparr>ip_addr = 7, port = 8091\<rparr>],
      addrs_count = 1, preferred_addr = 0, hmac_key = replicate 32 0xAA\<rparr> [0..<10] = Inr rs" by blast
  moreover have "parse_atdd_addrs (\<lambda>h. 7) (\<lambda>p. Inr 8091) True ''10.0.2.2:8091'' c =
      Done (0, c\<lparr>addrs_count := 1, atdd_addrs := [\<lparr>ip_addr = 7, port = 8091\<rparr>]\<rparr>)" for c
    by (simp add: parse_atdd_addrs_def MAX_PROCESSES_def)
  moreover have "parse_hmac_key True (hex (\<lambda>_. False) (replicate 32 0xAA)) = Inr (replicate 32 0xAA)"
    by (rule parse_hmac_key_hex) simp
  ultimately show thesis using that
    by (simp add: small_init_def atdd_init_def atdd_dev_init_def ATDD_THREADS_COUNT_def)
qed

lemma small_device:
  obtains dev conf where "small_init = Done (Inr dev)" "length (relay_data dev) = 10" "thread_rq_target dev = 0"
    "\<And>i. i < 10 \<Longrightarrow> fresh_relay conf i (relay_data dev ! i)"
    "\<And>i. i < 10 \<Longrightarrow> relay_step small_digest small_api (relay_data dev ! i) [small_read]
        (snd (submit_atdd_request (relay_data dev ! i) small_read))"
proof -
  obtain dev where dev: "small_init = Done (Inr dev)" by (rule small_init_loaded)
  obtain conf where all: "list_all2 (fresh_relay conf) [0..<10] (relay_data dev)" and t: "thread_rq_target dev = 0"
    by (rule init_fresh[OF dev[unfolded small_init_def] small_mem_ok]) simp_all
  have fr: "fresh_relay conf i (relay_data dev ! i)" if "i < 10" for i
    using list_all2_nthD[OF all, of i] that by simp
  have "relay_step small_digest small_api (relay_data dev ! i) [small_read] (snd (submit_atdd_request (relay_data dev ! i) small_read))"
    if "i < 10" for i
  proof -
    let ?r = "relay_data dev ! i"
    have inv: "relay_inv i 0 ?r" "window ?r = []" using fr[OF that] by (simp_all add: fresh_relay_def)
    have "unfinished ?r = 0" using inv(2) length_window[of ?r] by simp
    moreover have "unat (request_ident_counter ?r) = i" using relay_invD(3)[OF inv(1)] that by (simp add: unat_of_nat)
    ultimately show ?thesis using that
      by (intro relay_step.submit[where err = "fst (submit_atdd_request ?r small_read)"]) simp_all
  qed
  with dev fr t list_all2_lengthD[OF all] show thesis by (intro that[of dev conf]) simp_all
qed






definition small_relay :: "(bytes \<times> bytes) atdd_ktread_data" where
  "small_relay =
     (let e = \<lparr>rq_ident = 0, rq_content = small_read\<rparr> in
      \<lparr>buf_tcp_forwarded_pos = 1, request_ident_counter = 20,
       atdd_c = small_client (answer_message sum_tag [2] (e, StatusOk, replicate 4096 5)),
       requests_buf = e # \<lparr>rq_ident = 10, rq_content = small_read\<rparr> # replicate 254 e,
       buf_accepted_pos = 2, buf_completed_pos = 0, ended = []\<rparr>)"



text \<open>
  C15. A call of the request handler of the block device ends whatever the queue and whatever the relays hold.
  It serves a prefix of the queue in order: a passthrough request is skipped, every other request is accepted by one
  relay. Requests are left in the queue only when all ten relays refuse.
\<close>

theorem block_request_distributes:
  assumes "unat (thread_rq_target dev) < 10" and "length (relay_data dev) = 10"
  shows "\<exists>taken rest dev'. atdd_block_request q dev = Some (rest, dev') \<and> q = taken @ rest \<and>
    labelled_run (list_step takes) (relay_data dev) (disk_requests taken) (relay_data dev') \<and>
    skipped dev' = skipped dev @ map snd (filter fst taken) \<and> (rest \<noteq> [] \<longrightarrow> list_all refuses (relay_data dev')) \<and>
    unat (thread_rq_target dev') < 10 \<and> length (relay_data dev') = 10"
  using assms by (rule block_request_result)

theorem block_request_distributes_witness:
  "\<exists>dev taken rest dev'. small_init = Done (Inr dev) \<and>
     atdd_block_request [(False, small_read), (True, small_read)] dev = Some (rest, dev') \<and>
     [(False, small_read), (True, small_read)] = taken @ rest \<and>
     labelled_run (list_step takes) (relay_data dev) (disk_requests taken) (relay_data dev')"
proof (rule small_device)
  fix dev conf assume dev: "small_init = Done (Inr dev)" "length (relay_data dev) = 10" "thread_rq_target dev = 0"
  have "unat (thread_rq_target dev) < 10" using dev(3) by simp
  from block_request_distributes[OF this dev(2), of "[(False, small_read), (True, small_read)]"] dev(1)
  show ?thesis by blast
qed

text \<open>
  C31. When 255 requests of a relay are unfinished, a further request is refused only if the ring happens to
  start at slot 0. Otherwise it is accepted and the ring afterwards has no unfinished request at all: the
  256 requests are neither held nor reported to the block layer.
\<close>

theorem full_ring_forgets:
  assumes "unfinished r = 255"
  shows "size (held_requests r) = 255 \<and>
    (if buf_completed_pos r = 0 then submit_atdd_request r rq = (- ENOSPC, r)
     else \<exists>r'. submit_atdd_request r rq = (0, r') \<and> held_requests r' = {#} \<and> ended r' = ended r \<and> atdd_c r' = atdd_c r)"
proof -
  let ?a = "buf_accepted_pos r" and ?c = "buf_completed_pos r"
  have "unat (?a - ?c) = unat (255 :: u8)" using assms by (simp add: unfinished_def)
  then have d: "?a - ?c = 255" by (simp only: word_unat_eq_iff)
  then have "?a - ?c + 1 = 0" by simp
  then have next_a: "?a + 1 = ?c" by (simp add: algebra_simps)
  have "size (held_requests r) = 255" using assms length_window[of r] by (simp add: held_requests_def)
  moreover have "submit_atdd_request r rq = (- ENOSPC, r)" if "?c = 0"
    using d that by (cases rule: submit_cases[of r rq]) (simp_all add: refuses_def)
  moreover have "\<exists>r'. submit_atdd_request r rq = (0, r') \<and> held_requests r' = {#} \<and> ended r' = ended r \<and> atdd_c r' = atdd_c r"
    if "?c \<noteq> 0"
  proof -
    have "fst (submit_atdd_request r rq) = 0" using that submit_refuses[of r rq] by blast
    then show ?thesis using next_a
      by (auto simp: submit_atdd_request_def held_requests_def window_def unfinished_def ENOSPC_def split: if_splits)
  qed
  ultimately show ?thesis by simp
qed

definition full_relay :: "(bytes \<times> bytes) atdd_ktread_data" where
  "full_relay = small_relay\<lparr>buf_accepted_pos := 0, buf_completed_pos := 1\<rparr>"

theorem full_ring_forgets_witness:
  "size (held_requests full_relay) = 255 \<and>
   (\<exists>r'. submit_atdd_request full_relay small_read = (0, r') \<and> held_requests r' = {#} \<and> ended r' = [])"
proof -
  have f: "buf_accepted_pos full_relay = 0" "buf_completed_pos full_relay = 1" "ended full_relay = []"
    by (simp_all add: full_relay_def) (simp add: small_relay_def Let_def)
  have "unfinished full_relay = unat (0 - 1 :: u8)" by (simp only: unfinished_def f)
  also have "\<dots> = 255" by code_simp
  finally show ?thesis using full_ring_forgets[of full_relay small_read] f by auto
qed

text \<open>
  C32. After an error while answers are read, all unfinished requests are sent again on the same connection, so a
  request can be answered twice. The second answer reports a request to the block layer that has ended
  already, and drops the oldest unfinished request from the ring without reporting it.
\<close>

theorem second_answer_drops_request:
  assumes "relay_inv i n r" and "e \<in> set (take n (requests_buf r))" and "e \<notin> set (window r)" and "window r \<noteq> []"
    and "ret_ident cmd_r = rq_ident e"
  shows "\<exists>r'. finish_one cmd_r rq r = Done (r', Some (rq_content e)) \<and>
    ended r' = ended r @ [answer_end (rq_content e) cmd_r] \<and> window r' = tl (window r)"
proof -
  note inv = relay_invD[OF assms(1)]
  obtain p where p: "p < n" "p < 256" "requests_buf r ! p = e"
    using assms(2) inv(1) by (auto simp: in_set_conv_nth)
  let ?r = "swap_ended cmd_r p r"
  have pos: "unfinished r > 0" using assms(4) by (metis length_greater_0_conv length_window)
  have p_out: "slot r k \<noteq> p" if "k < unfinished r" for k
    using that assms(3) p(3) by (auto simp: in_set_conv_nth nth_window)
  have "finish_one cmd_r rq r = Done (?r, Some (rq_content e))"
    using finish_one_found[of r cmd_r p rq] find_written[OF assms(1) p(1,2)] p(3) assms(5) by simp
  moreover have "window ?r = tl (window r)"
  proof (rule nth_equalityI)
    fix k assume "k < length (window ?r)"
    then have k: "Suc k < unfinished r" using swap_ended_positions(1)[OF pos, of cmd_r p] by simp
    have "slot r (Suc k) \<noteq> unat (buf_completed_pos r)"
      using slot_inj[of "Suc k" 0 r] k unfinished_less(1)[of r] by (simp add: slot_unfinished)
    with p_out[OF k] have "requests_buf ?r ! slot r (Suc k) = requests_buf r ! slot r (Suc k)"
      by (simp add: swap_ended_def Let_def)
    with k show "window ?r ! k = tl (window r) ! k"
      using swap_ended_positions(1)[OF pos, of cmd_r p] by (simp add: nth_window swap_ended_positions(3) nth_tl)
  qed (simp add: swap_ended_positions(1)[OF pos])
  ultimately show ?thesis using p(3) by (auto simp: swap_ended_def Let_def)
qed

definition half_done_relay :: "(bytes \<times> bytes) atdd_ktread_data" where
  "half_done_relay = small_relay\<lparr>buf_completed_pos := 1, ended := [(small_read, 0, Some (replicate 4096 5))]\<rparr>"

theorem second_answer_drops_request_witness:
  "\<exists>r'. finish_one \<lparr>ret_ident = 0, ret_data = replicate 4128 6, rcode = OK\<rparr> None half_done_relay = Done (r', Some small_read) \<and>
     ended r' = [(small_read, 0, Some (replicate 4096 5)), (small_read, 0, Some (replicate 4096 6))] \<and>
     length (window half_done_relay) = 1 \<and> window r' = []"
proof -
  let ?e = "\<lparr>rq_ident = 0, rq_content = small_read\<rparr>" and ?f = "\<lparr>rq_ident = 10, rq_content = small_read\<rparr>"
  let ?ret = "\<lparr>ret_ident = 0, ret_data = replicate 4128 6, rcode = OK\<rparr>"
  have f: "requests_buf half_done_relay = ?e # ?f # replicate 254 ?e" "ended half_done_relay = [(small_read, 0, Some (replicate 4096 5))]"
      "unfinished half_done_relay = 1" "sent_ahead half_done_relay = 0" "slot half_done_relay 0 = 1"
      "buf_accepted_pos half_done_relay = 2" "request_ident_counter half_done_relay = 20"
    by (simp_all add: half_done_relay_def small_relay_def Let_def unfinished_def sent_ahead_def slot_def)
  have inv: "relay_inv 0 2 half_done_relay" by (simp add: relay_inv_def ATDD_REQUESTS_BUF_SIZE_def f)
  have w: "window half_done_relay = [?f]" by (simp add: window_def f)
  have "\<exists>r'. finish_one ?ret None half_done_relay = Done (r', Some (rq_content ?e)) \<and>
      ended r' = ended half_done_relay @ [answer_end (rq_content ?e) ?ret] \<and> window r' = tl (window half_done_relay)"
    by (rule second_answer_drops_request[OF inv]) (simp_all add: f w)
  then show ?thesis by (auto simp: f w answer_end_def small_read_def SECTOR_SIZE_def)
qed

end
