(* ===== verification/Spec2Isabelle.thy ===== *)
theory Spec2Isabelle
  imports Run_Process Cluster_Runs Test_Registers Driver_Device
begin

text \<open>
  \<^bold>\<open>A distributed disk.\<close> The program is a library (\<^verbatim>\<open>src/solution\<close>) that runs one process of
  a disk replicated over several machines. Clients send \<open>READ\<close> and \<open>WRITE\<close> commands for
  sectors of 4096 bytes over TCP; every sector is an (N,N)-AtomicRegister
  (\<^verbatim>\<open>src/(N-N)-AtomicRegister.txt\<close>) that the processes implement together in the
  crash-recovery model. A kernel module (\<^verbatim>\<open>src/driver\<close>) is such a client: it offers the disk as a
  block device and relays block requests to the processes.

  \<^bold>\<open>Parts and theories.\<close>
  \<^item> \<open>ATDD_Prelude\<close>: machine integers, the outcome type \<open>res\<close> (a value, a returned error, a
    panic), arithmetic with and without overflow checks, big-endian and decimal coding.
  \<^item> \<open>Domain\<close>: the data types of \<^verbatim>\<open>domain.rs\<close> and the errors of \<^verbatim>\<open>utils.rs\<close>.
  \<^item> \<open>Transfer_Operations\<close>: \<open>serialize_rc\<close> and \<open>deserialize_rc\<close> of \<^verbatim>\<open>transfer_operations.rs\<close>.
    Decoding agrees with a reference decoder on every stream, inverts encoding, and accepts
    exactly the right tag.
  \<^item> \<open>Sectors_Manager\<close>: \<open>SectorsManagerState\<close> of \<^verbatim>\<open>sectors_manager.rs\<close> over a directory of
    files, and \<open>RamDrive\<close> of \<^verbatim>\<open>test-utils/atomic_register.rs\<close>. The locale \<open>sector_store\<close> is
    their contract; both are interpretations of it. Writes survive a crash between any two file
    operations, and recovery keeps the newest version.
  \<^item> \<open>Atomic_Register\<close>: \<open>AtomicRegisterState\<close> of \<^verbatim>\<open>atomic_register.rs\<close>, one definition for each
    message handler. A handler returns the new state and the list of its effects (stores,
    messages, callbacks) in the order of the code. Invariants, majorities, the order of stores
    and messages, panics.
  \<^item> \<open>Register_Storage\<close>: the register on top of any \<open>sector_store\<close>: the store follows the
    register, and a crash inside a handler keeps every acknowledged version.
  \<^item> \<open>Register_Client\<close>: \<open>RegisterClientState\<close> of \<^verbatim>\<open>register_client.rs\<close> and \<open>BufferClient\<close> of the
    test utilities, with the locale \<open>register_links\<close> as their contract.
  \<^item> \<open>Register_Process\<close>: \<open>RegisterProcessState\<close> of \<^verbatim>\<open>register_process.rs\<close>: dispatch of
    commands, the semaphore of a sector, the workers and the answers. A step relation \<open>rp_step\<close>
    interleaves connections and workers; the history of every sector is a run of its register.
  \<^item> \<open>Run_Process\<close>: \<open>run_register_process\<close> of \<^verbatim>\<open>lib.rs\<close>, from the directory to the running process.
  \<^item> \<open>Test_Client\<close>: the client of \<^verbatim>\<open>test-utils/system.rs\<close>, which reads the answers.
  \<^item> \<open>Register_Spec\<close> and \<open>Linearization\<close>: the abstract register: operations that collect values
    from a quorum and store at a quorum (locale \<open>quorums\<close>), its invariants, and the proof that its
    histories are linearizable.
  \<^item> \<open>Cluster\<close> and \<open>Cluster_Runs\<close>: all registers of a sector together over a network that loses,
    repeats and reorders messages, with crashes between and inside handlers. Executions simulate the
    abstract register, hence are linearizable, as long as the quorum step takes the newest entry.
    The choice in the code compares write ranks only, and an execution that uses this is exhibited.
  \<^item> \<open>Test_Registers\<close>: the registers of \<^verbatim>\<open>test-utils/atomic_register.rs\<close> in memory: the
    propagation loop ends, and sessions of requests, with crashes as in the scenario of
    \<^verbatim>\<open>public-tests/tests/atomic_register.rs\<close>, are answered like by one sequential register.
  \<^item> \<open>Driver_Args\<close>: the parameters of the kernel module (\<^verbatim>\<open>parse_args.c\<close>): the key is parsed from its hexadecimal
    digits, and address lists up to the limit, beyond which an array is overrun.
  \<^item> \<open>Driver_Client\<close>: the TCP client of the module (\<^verbatim>\<open>atdd_tcp_client.c\<close>, \<^verbatim>\<open>tcp.c\<close>): what it sends for a
    block request is decoded by \<open>deserialize_rc\<close> as the corresponding authentic command, it reads the
    answers of \<open>Register_Process\<close> back, and finds a process that answers.
  \<^item> \<open>Driver_Relay\<close>: the ring of requests of a relay thread and the operations of
    \<^verbatim>\<open>atomic_disc_driver.c\<close>. A step relation \<open>relay_step\<close> interleaves submissions, answers, errors and
    commands sent; it refines a queue that maps identifiers to requests. The locales \<open>request_keeper\<close>
    and \<open>request_keepers\<close> state that no request is lost or invented, by one relay and by many.
  \<^item> \<open>Driver_Device\<close>: a whole round of a relay thread, the distribution of requests over the ten relays,
    the loading of the module, and the properties of the driver.

  \<^bold>\<open>Parameters.\<close> Code outside the repository is an argument of the definitions: the \<open>hmac\<close> crate
  (\<open>mac_api\<close>, with \<open>hmac_spec\<close>), the iteration order of a \<open>HashMap\<close> (\<open>iter\<close>, with \<open>iterates\<close>), the
  identifier drawn by the \<open>uuid\<close> crate, readers and writers of a connection, whether a connection
  attempt succeeds, the listing order of a directory, and whether overflow checks are compiled
  in (\<open>chk\<close>). For the module these are the kernel's sockets (\<open>socket_api\<close>, with \<open>send_spec\<close>,
  \<open>send_progress\<close>, \<open>recv_spec\<close> and \<open>connect_spec\<close>), its digest (\<open>digest\<close>, with \<open>digest_spec\<close>), \<open>in_aton\<close>,
  \<open>kstrtoint\<close>, and the memory it returns, whose contents are arbitrary (\<open>client_resources\<close>, with
  \<open>mem_ok\<close>).

  \<^bold>\<open>Bounds.\<close> No definition uses fuel. Loops that could run forever are partial functions into
  \<open>option\<close> (\<open>slide_magic\<close>, \<open>propagate_all_messages\<close>); they are proved to end, by the length of the
  stream and by a weight of the messages in the buffer. The loops of the module are of this kind
  too (\<open>tcp_send_loop\<close>, \<open>tcp_read_loop\<close>, \<open>progress_header\<close>, \<open>finish_loop\<close>, \<open>submit_loop\<close>); they end as the sockets make
  progress, by the number of pending commands, and by the number of relays. What C leaves undefined, and
  \<open>BUG_ON\<close>, are values of the type \<open>fault\<close>. The refinement of the relay is for at most 255 unfinished
  requests in one relay, authentic answers to requests in flight only, and identifiers below \<open>2 ^ 64\<close>;
  \<open>Driver_Device\<close> also shows what happens without the first two. Timestamps
  have 64 bits as in the code: the cluster is the build with overflow checks, where an addition
  that overflows is a panic and no step, and the sessions of the test registers must be too short
  to reach the last timestamp.

  \<^bold>\<open>Not modelled.\<close> The scheduler of tokio and the passing of time (steps interleave freely, a
  timer is a step of its own), TCP itself, the creation of temporary directories and random keys in
  the test utilities, and the other test cases of \<^verbatim>\<open>src/public-tests\<close>, which only call the above. Of the kernel
  module: releasing memory and unloading (no value that the model has depends on them), wait queues and
  locks (a wake-up only makes a step possible), and filling in the fields of the \<open>gendisk\<close>, which only
  the block layer reads.
\<close>

end
